(* ===== verification/Prelude.thy ===== *)
theory Prelude
  imports Main "HOL-Library.Multiset" "HOL-Library.Char_ord" "HOL-Library.List_Lexorder"
begin

text \<open>
  What every component of the development shares: JavaScript's insertion-ordered
  \<^verbatim>\<open>Set\<close> and \<^verbatim>\<open>Map\<close> as lists, decimal and hexadecimal text of natural numbers, the
  string operations the sources use, and the lemmas about them that later proofs rewrite
  with. Strings are HOL strings, read as ASCII text.
\<close>

section \<open>Automation shared by the components\<close>

named_theorems js_set_simps "rewriting for insertion-ordered sets"
named_theorems js_map_simps "rewriting for insertion-ordered maps"

section \<open>JavaScript sets: distinct lists in insertion order\<close>

text \<open>\<^verbatim>\<open>[...new Set(xs)]\<close>: the first occurrence of every element, in order.\<close>

fun uniq :: "'a list \<Rightarrow> 'a list" where
  "uniq [] = []"
| "uniq (x # xs) = x # filter (\<lambda>y. y \<noteq> x) (uniq xs)"

lemma set_uniq [simp, js_set_simps]: "set (uniq xs) = set xs"
  by (induction xs) auto

lemma distinct_uniq [simp, js_set_simps]: "distinct (uniq xs)"
  by (induction xs) auto

lemma uniq_distinct [js_set_simps]: "distinct xs \<Longrightarrow> uniq xs = xs"
  by (induction xs) (auto simp: filter_id_conv)

lemma length_uniq_le: "length (uniq xs) \<le> length xs"
proof (induction xs)
  case (Cons x xs)
  have "length (filter (\<lambda>y. y \<noteq> x) (uniq xs)) \<le> length (uniq xs)"
    by (rule length_filter_le)
  also have "\<dots> \<le> length xs" by (rule Cons.IH)
  finally show ?case by simp
qed simp

lemma uniq_filter: "uniq (filter P xs) = filter P (uniq xs)"
proof (induction xs)
  case (Cons x xs)
  show ?case
  proof (cases "P x")
    case True
    with Cons show ?thesis by (simp add: conj_commute)
  next
    case False
    then have "filter P (filter (\<lambda>y. y \<noteq> x) (uniq xs)) = filter P (uniq xs)"
      by (induction xs) (auto intro: filter_cong)
    with False Cons show ?thesis by simp
  qed
qed simp

lemma find_sound: "find P xs = Some x \<Longrightarrow> x \<in> set xs \<and> P x"
  by (induction xs) (auto split: if_splits)

section \<open>JavaScript maps: association lists in insertion order\<close>

text \<open>
  A \<^verbatim>\<open>Map\<close> iterates in insertion order. \<^verbatim>\<open>set\<close> on a key that is present
  keeps its place; \<^verbatim>\<open>delete\<close> followed by \<^verbatim>\<open>set\<close> moves it to the end.
\<close>

type_synonym ('k, 'v) omap = "('k \<times> 'v) list"

definition omap_get :: "('k, 'v) omap \<Rightarrow> 'k \<Rightarrow> 'v option" where
  "omap_get m k = map_of m k"

fun omap_set :: "('k, 'v) omap \<Rightarrow> 'k \<Rightarrow> 'v \<Rightarrow> ('k, 'v) omap" where
  "omap_set [] k v = [(k, v)]"
| "omap_set ((k', v') # m) k v = (if k' = k then (k, v) # m else (k', v') # omap_set m k v)"

definition omap_del :: "('k, 'v) omap \<Rightarrow> 'k \<Rightarrow> ('k, 'v) omap" where
  "omap_del m k = filter (\<lambda>(k', v). k' \<noteq> k) m"

definition omap_keys :: "('k, 'v) omap \<Rightarrow> 'k list" where
  "omap_keys m = map fst m"

definition omap_ok :: "('k, 'v) omap \<Rightarrow> bool" where
  "omap_ok m = distinct (omap_keys m)"

lemma omap_keys_simps [simp]:
  "omap_keys [] = []" "omap_keys ((k, v) # m) = k # omap_keys m"
  by (simp_all add: omap_keys_def)

lemma omap_keys_append [simp]: "omap_keys (m @ n) = omap_keys m @ omap_keys n"
  by (simp add: omap_keys_def)

lemma length_omap_keys [simp]: "length (omap_keys m) = length m"
  by (simp add: omap_keys_def)

lemma omap_keys_set: "set (omap_keys (omap_set m k v)) = insert k (set (omap_keys m))"
  by (induction m k v rule: omap_set.induct) auto

lemma omap_keys_del: "omap_keys (omap_del m k) = filter (\<lambda>x. x \<noteq> k) (omap_keys m)"
  by (induction m) (auto simp: omap_del_def)

lemma omap_ok_set: "omap_ok m \<Longrightarrow> omap_ok (omap_set m k v)"
proof (induction m k v rule: omap_set.induct)
  case (2 k' v' m k v)
  then show ?case by (auto simp: omap_ok_def omap_keys_set)
qed (simp add: omap_ok_def)

lemma omap_ok_del: "omap_ok m \<Longrightarrow> omap_ok (omap_del m k)"
  by (simp add: omap_ok_def omap_keys_del)

lemma omap_get_set: "omap_get (omap_set m k v) k' = (if k' = k then Some v else omap_get m k')"
  by (induction m k v rule: omap_set.induct) (auto simp: omap_get_def)

lemma omap_get_del: "omap_get (omap_del m k) k' = (if k' = k then None else omap_get m k')"
  by (induction m) (auto simp: omap_get_def omap_del_def)

lemma omap_get_None: "omap_get m k = None \<longleftrightarrow> k \<notin> set (omap_keys m)"
  by (simp add: omap_get_def omap_keys_def map_of_eq_None_iff)

lemma omap_set_absent: "k \<notin> set (omap_keys m) \<Longrightarrow> omap_set m k v = m @ [(k, v)]"
  by (induction m k v rule: omap_set.induct) auto

lemma omap_set_present_keys: "k \<in> set (omap_keys m) \<Longrightarrow> omap_keys (omap_set m k v) = omap_keys m"
  by (induction m k v rule: omap_set.induct) auto

lemma omap_del_absent [simp]: "k \<notin> set (omap_keys m) \<Longrightarrow> omap_del m k = m"
  by (induction m) (auto simp: omap_del_def)

text \<open>The laws a client of an insertion-ordered map relies on.\<close>

locale ordered_map =
  fixes get :: "'m \<Rightarrow> 'k \<Rightarrow> 'v option"
    and put :: "'m \<Rightarrow> 'k \<Rightarrow> 'v \<Rightarrow> 'm"
    and del :: "'m \<Rightarrow> 'k \<Rightarrow> 'm"
    and keys :: "'m \<Rightarrow> 'k list"
    and ok :: "'m \<Rightarrow> bool"
  assumes get_put: "ok m \<Longrightarrow> get (put m k v) k' = (if k' = k then Some v else get m k')"
    and get_del: "ok m \<Longrightarrow> get (del m k) k' = (if k' = k then None else get m k')"
    and get_None: "ok m \<Longrightarrow> get m k = None \<longleftrightarrow> k \<notin> set (keys m)"
    and keys_put_new: "ok m \<Longrightarrow> k \<notin> set (keys m) \<Longrightarrow> keys (put m k v) = keys m @ [k]"
    and keys_put_old: "ok m \<Longrightarrow> k \<in> set (keys m) \<Longrightarrow> keys (put m k v) = keys m"
    and keys_del: "ok m \<Longrightarrow> keys (del m k) = filter (\<lambda>x. x \<noteq> k) (keys m)"
    and ok_put: "ok m \<Longrightarrow> ok (put m k v)"
    and ok_del: "ok m \<Longrightarrow> ok (del m k)"
begin

text \<open>The idiom \<^verbatim>\<open>m.delete(k); m.set(k, v)\<close>: the key becomes the most recent one.\<close>

lemma reinsert_keys: "ok m \<Longrightarrow> keys (put (del m k) k v) = filter (\<lambda>x. x \<noteq> k) (keys m) @ [k]"
  by (simp add: keys_put_new keys_del ok_del)

lemma reinsert_get: "ok m \<Longrightarrow> get (put (del m k) k v) k' = (if k' = k then Some v else get m k')"
  by (simp add: get_put get_del ok_del)

lemma reinsert_ok: "ok m \<Longrightarrow> ok (put (del m k) k v)"
  by (simp add: ok_put ok_del)

lemma reinsert_last: "ok m \<Longrightarrow> last (keys (put (del m k) k v)) = k"
  by (simp add: reinsert_keys)

end

interpretation om: ordered_map omap_get omap_set omap_del omap_keys omap_ok
  by unfold_locales
    (auto simp: omap_get_set omap_get_del omap_get_None omap_keys_del omap_ok_set omap_ok_del
      omap_set_absent omap_set_present_keys)

lemmas omap_laws [js_map_simps] =
  omap_get_set omap_get_del omap_get_None omap_ok_set omap_ok_del

section \<open>Numbers as text\<close>

definition digit_char :: "nat \<Rightarrow> char" where
  "digit_char d = char_of (48 + d)"

fun show_nat :: "nat \<Rightarrow> string" where
  "show_nat n = (if n < 10 then [digit_char n] else show_nat (n div 10) @ [digit_char (n mod 10)])"

declare show_nat.simps [simp del]

definition show_int :: "int \<Rightarrow> string" where
  "show_int i = (if i < 0 then CHR ''-'' # show_nat (nat (- i)) else show_nat (nat i))"

definition is_digit :: "char \<Rightarrow> bool" where
  "is_digit c = (48 \<le> (of_char c :: nat) \<and> (of_char c :: nat) \<le> 57)"

definition digit_val :: "char \<Rightarrow> nat" where
  "digit_val c = of_char c - 48"

fun read_digits :: "nat \<Rightarrow> string \<Rightarrow> nat" where
  "read_digits acc [] = acc"
| "read_digits acc (c # cs) = read_digits (10 * acc + digit_val c) cs"

lemma of_char_digit_char: "d < 10 \<Longrightarrow> (of_char (digit_char d) :: nat) = 48 + d"
  by (simp add: digit_char_def)

lemma is_digit_digit_char [simp]: "d < 10 \<Longrightarrow> is_digit (digit_char d)"
  by (simp add: is_digit_def of_char_digit_char)

lemma digit_val_digit_char [simp]: "d < 10 \<Longrightarrow> digit_val (digit_char d) = d"
  by (simp add: digit_val_def of_char_digit_char)

lemma show_nat_nonempty [simp]: "show_nat n \<noteq> []"
  by (subst show_nat.simps) simp

lemma show_nat_digits: "list_all is_digit (show_nat n)"
proof (induction n rule: show_nat.induct)
  case (1 n)
  show ?case
  proof (cases "n < 10")
    case True
    then show ?thesis by (simp add: show_nat.simps [of n])
  next
    case False
    with 1 show ?thesis by (simp add: show_nat.simps [of n])
  qed
qed

lemma read_digits_append: "read_digits acc (xs @ ys) = read_digits (read_digits acc xs) ys"
  by (induction xs arbitrary: acc) auto

lemma read_show_nat [simp]: "read_digits 0 (show_nat n) = n"
proof (induction n rule: show_nat.induct)
  case (1 n)
  show ?case
  proof (cases "n < 10")
    case True
    then show ?thesis by (simp add: show_nat.simps [of n])
  next
    case False
    with 1 show ?thesis by (simp add: show_nat.simps [of n] read_digits_append)
  qed
qed

lemma show_nat_inj: "show_nat a = show_nat b \<Longrightarrow> a = b"
  by (metis read_show_nat)

lemma dash_not_digit: "\<not> is_digit (CHR ''-'')"
  by (simp add: is_digit_def)

lemma show_int_inj: "show_int a = show_int b \<Longrightarrow> a = b"
proof -
  have no_dash: "CHR ''-'' \<notin> set (show_nat n)" for n
    using show_nat_digits [of n] dash_not_digit by (auto simp: list_all_iff)
  assume eq: "show_int a = show_int b"
  show ?thesis
  proof (cases "a < 0"; cases "b < 0")
    assume "a < 0" "b < 0"
    with eq have "nat (- a) = nat (- b)" by (auto simp: show_int_def dest: show_nat_inj)
    with \<open>a < 0\<close> \<open>b < 0\<close> show ?thesis by simp
  next
    assume "\<not> a < 0" "\<not> b < 0"
    with eq have "nat a = nat b" by (auto simp: show_int_def dest: show_nat_inj)
    with \<open>\<not> a < 0\<close> \<open>\<not> b < 0\<close> show ?thesis by simp
  next
    assume "a < 0" "\<not> b < 0"
    with eq no_dash [of "nat b"] show ?thesis by (metis show_int_def list.set_intros(1))
  next
    assume "\<not> a < 0" "b < 0"
    with eq no_dash [of "nat a"] show ?thesis by (metis show_int_def list.set_intros(1))
  qed
qed

section \<open>Strings\<close>

text \<open>\<^verbatim>\<open>s.split(c)\<close> for one character: always at least one piece.\<close>

fun split_on :: "char \<Rightarrow> string \<Rightarrow> string list" where
  "split_on c [] = [[]]"
| "split_on c (x # xs) =
     (if x = c then [] # split_on c xs
      else (case split_on c xs of [] \<Rightarrow> [[x]] | p # ps \<Rightarrow> (x # p) # ps))"

lemma split_on_nonempty [simp]: "split_on c s \<noteq> []"
  by (induction s) (auto split: list.splits)

lemma split_on_absent: "c \<notin> set s \<Longrightarrow> split_on c s = [s]"
  by (induction s) auto

lemma split_on_append: "c \<notin> set s \<Longrightarrow> split_on c (s @ c # t) = s # split_on c t"
  by (induction s) auto

lemma split_on_pieces: "p \<in> set (split_on c s) \<Longrightarrow> c \<notin> set p"
  by (induction s arbitrary: p) (auto split: list.splits if_splits)

text \<open>\<^verbatim>\<open>xs.join(sep)\<close>.\<close>

fun join_with :: "string \<Rightarrow> string list \<Rightarrow> string" where
  "join_with sep [] = []"
| "join_with sep [x] = x"
| "join_with sep (x # y # ys) = x @ sep @ join_with sep (y # ys)"

lemma join_split_on: "join_with [c] (split_on c s) = s"
proof (induction s)
  case (Cons x s)
  then show ?case
  proof (cases "split_on c s")
    case (Cons p ps)
    with Cons.IH show ?thesis by (cases ps) auto
  qed simp
qed simp

definition ws_char :: "char \<Rightarrow> bool" where
  "ws_char c = (let n = (of_char c :: nat) in n = 32 \<or> (9 \<le> n \<and> n \<le> 13))"

text \<open>\<^verbatim>\<open>trimStart\<close>, \<^verbatim>\<open>trimEnd\<close>, \<^verbatim>\<open>trim\<close>.\<close>

definition trim_start :: "string \<Rightarrow> string" where
  "trim_start s = dropWhile ws_char s"

definition trim_end :: "string \<Rightarrow> string" where
  "trim_end s = rev (dropWhile ws_char (rev s))"

definition trim :: "string \<Rightarrow> string" where
  "trim s = trim_end (trim_start s)"

lemma trim_end_Nil [simp]: "trim_end [] = []"
  by (simp add: trim_end_def)

lemma trim_end_idem: "trim_end (trim_end s) = trim_end s"
  by (simp add: trim_end_def dropWhile_idem)

lemma trim_end_id: "s = [] \<or> \<not> ws_char (last s) \<Longrightarrow> trim_end s = s"
proof -
  assume a: "s = [] \<or> \<not> ws_char (last s)"
  show ?thesis
  proof (cases s rule: rev_cases)
    case Nil
    then show ?thesis by simp
  next
    case (snoc ys y)
    with a show ?thesis by (simp add: trim_end_def)
  qed
qed

lemma trim_no_ws: "list_all (\<lambda>c. \<not> ws_char c) s \<Longrightarrow> trim s = s"
proof -
  assume a: "list_all (\<lambda>c. \<not> ws_char c) s"
  then have "dropWhile ws_char s = s" by (cases s) auto
  moreover have "s = [] \<or> \<not> ws_char (last s)" using a by (auto simp: list_all_iff)
  ultimately show ?thesis by (simp add: trim_def trim_start_def trim_end_id)
qed

text \<open>ASCII case mapping: \<^verbatim>\<open>toLowerCase\<close> and \<^verbatim>\<open>toUpperCase\<close>.\<close>

definition lower_char :: "char \<Rightarrow> char" where
  "lower_char c = (let n = (of_char c :: nat) in if 65 \<le> n \<and> n \<le> 90 then char_of (n + 32) else c)"

definition upper_char :: "char \<Rightarrow> char" where
  "upper_char c = (let n = (of_char c :: nat) in if 97 \<le> n \<and> n \<le> 122 then char_of (n - 32) else c)"

definition to_lower :: "string \<Rightarrow> string" where
  "to_lower = map lower_char"

definition to_upper :: "string \<Rightarrow> string" where
  "to_upper = map upper_char"

lemma lower_char_idem [simp]: "lower_char (lower_char c) = lower_char c"
  by (auto simp: lower_char_def Let_def)

lemma to_lower_idem [simp]: "to_lower (to_lower s) = to_lower s"
  by (simp add: to_lower_def)

lemma length_to_lower [simp]: "length (to_lower s) = length s"
  by (simp add: to_lower_def)

text \<open>\<^verbatim>\<open>s.startsWith(p)\<close>, \<^verbatim>\<open>s.endsWith(p)\<close>, \<^verbatim>\<open>s.includes(p)\<close>.\<close>

definition starts_with :: "string \<Rightarrow> string \<Rightarrow> bool" where
  "starts_with s p = (take (length p) s = p)"

definition ends_with :: "string \<Rightarrow> string \<Rightarrow> bool" where
  "ends_with s p = starts_with (rev s) (rev p)"

fun str_includes :: "string \<Rightarrow> string \<Rightarrow> bool" where
  "str_includes [] p = (p = [])"
| "str_includes (c # s) p = (starts_with (c # s) p \<or> str_includes s p)"

lemma starts_with_iff: "starts_with s p \<longleftrightarrow> (\<exists>t. s = p @ t)"
  by (metis append_eq_conv_conj append_take_drop_id starts_with_def)

lemma ends_with_iff: "ends_with s p \<longleftrightarrow> (\<exists>t. s = t @ p)"
  by (metis ends_with_def starts_with_iff rev_append rev_rev_ident)

lemma str_includes_iff: "str_includes s p \<longleftrightarrow> (\<exists>a b. s = a @ p @ b)"
proof (induction s)
  case (Cons c s)
  have "(\<exists>a b. c # s = a @ p @ b) \<longleftrightarrow> (\<exists>b. c # s = p @ b) \<or> (\<exists>a b. s = a @ p @ b)"
    by (metis append_Cons append_Nil neq_Nil_conv list.inject)
  with Cons show ?case by (simp add: starts_with_iff)
qed auto

end
