(* ===== verification/Js_Value.thy ===== *)
theory Js_Value
  imports Complex_Main Prelude "HOL-Library.Log_Nat"
begin

text \<open>
  The JavaScript values that rows hold, and what the sources use of the language's own
  library on them: \<^verbatim>\<open>Number(text)\<close>, \<^verbatim>\<open>String(value)\<close>,
  \<^verbatim>\<open>JSON.stringify\<close>, \<^verbatim>\<open>Date.prototype.toISOString\<close>.

  A number is an IEEE double: \<open>Num q\<close> with \<open>q\<close> the exact rational it stands for (both
  zeros are \<open>Num 0\<close>: no operation the sources use tells them apart), or one of the three
  special values. \<open>JDate\<close> holds milliseconds since the epoch (\<open>None\<close> is an invalid
  date), \<open>JBytes\<close> is a \<^verbatim>\<open>Buffer\<close>, \<open>JUnchanged\<close> the symbol
  \<^verbatim>\<open>UNCHANGED\<close>, the only symbol a row holds. Object properties are in
  enumeration order.
\<close>

section \<open>Values\<close>

datatype jsnum = NaN | PosInf | NegInf | Num rat

datatype jsval =
    JUndefined
  | JNull
  | JBool bool
  | JNum jsnum
  | JBigInt int
  | JStr string
  | JUnchanged
  | JDate "int option"
  | JBytes "nat list"
  | JArr "jsval list"
  | JObj "(string \<times> jsval) list"

type_synonym row = "(string \<times> jsval) list"

text \<open>\<^verbatim>\<open>row[c]\<close>: a property that is absent reads as \<^verbatim>\<open>undefined\<close>.\<close>

definition row_get :: "row \<Rightarrow> string \<Rightarrow> jsval" where
  "row_get r c = (case map_of r c of None \<Rightarrow> JUndefined | Some v \<Rightarrow> v)"

definition row_has :: "row \<Rightarrow> string \<Rightarrow> bool" where
  "row_has r c = (c \<in> set (map fst r))"

lemma row_get_absent: "\<not> row_has r c \<Longrightarrow> row_get r c = JUndefined"
proof -
  assume "\<not> row_has r c"
  then have "map_of r c = None" by (simp add: row_has_def map_of_eq_None_iff)
  then show ?thesis by (simp add: row_get_def)
qed

text \<open>\<^verbatim>\<open>v == null\<close>\<close>

definition is_nil :: "jsval \<Rightarrow> bool" where
  "is_nil v = (v = JNull \<or> v = JUndefined)"

lemma is_nil_simps [simp]:
  "is_nil JNull" "is_nil JUndefined" "\<not> is_nil (JBool b)" "\<not> is_nil (JNum n)"
  "\<not> is_nil (JBigInt i)" "\<not> is_nil (JStr s)" "\<not> is_nil JUnchanged" "\<not> is_nil (JDate d)"
  "\<not> is_nil (JBytes bs)" "\<not> is_nil (JArr vs)" "\<not> is_nil (JObj fs)"
  by (simp_all add: is_nil_def)

section \<open>Objects\<close>

text \<open>
  Assignment to a property. A property that is there keeps its place; a new one goes
  after the others, except that keys that are array indices come first, in order.
\<close>

definition array_index :: "string \<Rightarrow> nat option" where
  "array_index k =
     (if k \<noteq> [] \<and> list_all is_digit k \<and> (hd k \<noteq> CHR ''0'' \<or> k = ''0'') \<and> read_digits 0 k < 4294967295
      then Some (read_digits 0 k) else None)"

definition before_index :: "nat \<Rightarrow> string \<times> 'a \<Rightarrow> bool" where
  "before_index n e = (case array_index (fst e) of None \<Rightarrow> False | Some m \<Rightarrow> m < n)"

definition obj_set :: "(string \<times> 'a) list \<Rightarrow> string \<Rightarrow> 'a \<Rightarrow> (string \<times> 'a) list" where
  "obj_set r k v =
     (if k \<in> set (omap_keys r) then omap_set r k v
      else (case array_index k of
              None \<Rightarrow> r @ [(k, v)]
            | Some n \<Rightarrow> takeWhile (before_index n) r @ (k, v) # dropWhile (before_index n) r))"

definition obj_of_entries :: "(string \<times> 'a) list \<Rightarrow> (string \<times> 'a) list" where
  "obj_of_entries es = fold (\<lambda>(k, v) r. obj_set r k v) es []"

lemma map_of_obj_set: "map_of (obj_set r k v) = (map_of r)(k \<mapsto> v)"
proof (cases "k \<in> set (omap_keys r)")
  case True
  then show ?thesis
    using omap_get_set [of r k v] by (auto simp: obj_set_def omap_get_def fun_eq_iff)
next
  case False
  then have new: "map_of r k = None" by (simp add: omap_keys_def map_of_eq_None_iff)
  show ?thesis
  proof (cases "array_index k")
    case None
    with False new show ?thesis by (auto simp: obj_set_def map_add_def fun_eq_iff split: option.splits)
  next
    case (Some n)
    have parts: "map_of r x =
      (case map_of (takeWhile (before_index n) r) x of Some v \<Rightarrow> Some v | None \<Rightarrow> map_of (dropWhile (before_index n) r) x)" for x
      by (metis map_add_def map_of_append takeWhile_dropWhile_id map_add_None option.case_eq_if
          option.collapse map_add_Some_iff)
    with Some False new show ?thesis
      by (auto simp: obj_set_def map_add_def fun_eq_iff split: option.splits)
  qed
qed

lemma obj_set_keys: "set (omap_keys (obj_set r k v)) = insert k (set (omap_keys r))"
  by (metis (no_types) map_of_obj_set dom_fun_upd dom_map_of_conv_image_fst omap_keys_def set_map option.distinct(1))

lemma row_get_obj_set: "row_get (obj_set r k v) c = (if c = k then v else row_get r c)"
  by (simp add: row_get_def map_of_obj_set)

lemma row_has_obj_set: "row_has (obj_set r k v) c = (c = k \<or> row_has r c)"
  using obj_set_keys [of r k v] by (auto simp: row_has_def omap_keys_def)

lemmas obj_set_laws [js_map_simps] = map_of_obj_set obj_set_keys row_get_obj_set row_has_obj_set

section \<open>Numbers\<close>

fun is_finite :: "jsnum \<Rightarrow> bool" where
  "is_finite (Num q) = True"
| "is_finite _ = False"

text \<open>\<^verbatim>\<open>===\<close> and \<^verbatim>\<open><\<close>: false whenever a side is NaN.\<close>

fun num_eq :: "jsnum \<Rightarrow> jsnum \<Rightarrow> bool" where
  "num_eq NaN _ = False"
| "num_eq _ NaN = False"
| "num_eq a b = (a = b)"

fun num_less :: "jsnum \<Rightarrow> jsnum \<Rightarrow> bool" where
  "num_less NaN _ = False"
| "num_less _ NaN = False"
| "num_less (Num a) (Num b) = (a < b)"
| "num_less NegInf b = (b \<noteq> NegInf)"
| "num_less a PosInf = (a \<noteq> PosInf)"
| "num_less _ _ = False"

lemma num_less_trichotomy:
  "a \<noteq> NaN \<Longrightarrow> b \<noteq> NaN \<Longrightarrow> num_less a b \<or> num_eq a b \<or> num_less b a"
  by (cases a; cases b) auto

lemma num_less_irrefl [simp]: "\<not> num_less a a"
  by (cases a) auto

lemma num_less_asym: "num_less a b \<Longrightarrow> \<not> num_less b a"
  by (cases a; cases b) auto

lemma num_less_trans: "num_less a b \<Longrightarrow> num_less b c \<Longrightarrow> num_less a c"
  by (cases a; cases b; cases c) auto

lemma num_eq_iff: "num_eq a b \<longleftrightarrow> a = b \<and> a \<noteq> NaN"
  by (cases a; cases b) auto

lemma num_less_not_eq: "num_less a b \<Longrightarrow> \<not> num_eq a b"
  by (cases a; cases b) auto

text \<open>Round to nearest, ties to even, on 53 bits with the exponent range of a double.\<close>

definition pow2 :: "int \<Rightarrow> rat" where
  "pow2 e = (if 0 \<le> e then 2 ^ nat e else 1 / 2 ^ nat (- e))"

definition rat_log2 :: "rat \<Rightarrow> int" where
  "rat_log2 q = (case quotient_of q of (n, d) \<Rightarrow>
     (let k = int (floorlog 2 (nat n)) - int (floorlog 2 (nat d)) in if pow2 k \<le> q then k else k - 1))"

definition round_even :: "rat \<Rightarrow> int" where
  "round_even q =
     (let f = \<lfloor>q\<rfloor>; d = q - of_int f
      in if d < 1 / 2 then f else if 1 / 2 < d then f + 1 else if even f then f else f + 1)"

definition round64 :: "rat \<Rightarrow> jsnum" where
  "round64 q =
     (if q = 0 then Num 0
      else
        (let a = \<bar>q\<bar>; e = max (rat_log2 a - 52) (- 1074); v = of_int (round_even (a / pow2 e)) * pow2 e
         in if 2 ^ 1024 \<le> v then (if 0 < q then PosInf else NegInf)
            else Num (if 0 < q then v else - v)))"

section \<open>Number(text)\<close>

definition pow10 :: "int \<Rightarrow> rat" where
  "pow10 e = (if 0 \<le> e then 10 ^ nat e else 1 / 10 ^ nat (- e))"

definition all_digits :: "string \<Rightarrow> bool" where
  "all_digits s = (s \<noteq> [] \<and> list_all is_digit s)"

definition signed_int :: "string \<Rightarrow> int option" where
  "signed_int s =
     (let neg = (s \<noteq> [] \<and> hd s = CHR ''-''); pos = (s \<noteq> [] \<and> hd s = CHR ''+'');
          t = (if neg \<or> pos then tl s else s)
      in if all_digits t then Some (if neg then - int (read_digits 0 t) else int (read_digits 0 t))
         else None)"

text \<open>\<^verbatim>\<open>digits[.digits][e[sign]digits]\<close> or \<^verbatim>\<open>.digits...\<close>, unsigned.\<close>

definition decimal_literal :: "string \<Rightarrow> rat option" where
  "decimal_literal s =
     (let m = takeWhile (\<lambda>c. c \<noteq> CHR ''e'' \<and> c \<noteq> CHR ''E'') s; x = drop (length m) s;
          w = takeWhile is_digit m; r = drop (length w) m;
          f = (if r \<noteq> [] \<and> hd r = CHR ''.'' then tl r else []);
          ok = (w \<noteq> [] \<or> f \<noteq> []) \<and> list_all is_digit f \<and> (r = [] \<or> hd r = CHR ''.'');
          e = (case x of [] \<Rightarrow> Some 0 | _ # t \<Rightarrow> signed_int t)
      in if ok then
           (case e of None \<Rightarrow> None
            | Some k \<Rightarrow> Some (of_nat (read_digits 0 (w @ f)) * pow10 (k - int (length f))))
         else None)"

definition hex_digit :: "char \<Rightarrow> nat option" where
  "hex_digit c =
     (let n = of_char c in
      if 48 \<le> n \<and> n \<le> 57 then Some (n - 48)
      else if 97 \<le> n \<and> n \<le> 102 then Some (n - 87)
      else if 65 \<le> n \<and> n \<le> 70 then Some (n - 55) else None)"

fun read_radix :: "nat \<Rightarrow> nat \<Rightarrow> string \<Rightarrow> nat option" where
  "read_radix b acc [] = Some acc"
| "read_radix b acc (c # cs) =
     (case hex_digit c of None \<Rightarrow> None | Some d \<Rightarrow> if d < b then read_radix b (b * acc + d) cs else None)"

definition radix_literal :: "nat \<Rightarrow> string \<Rightarrow> jsnum" where
  "radix_literal b t =
     (if t = [] then NaN else case read_radix b 0 t of None \<Rightarrow> NaN | Some n \<Rightarrow> round64 (of_nat n))"

definition js_number_of_string :: "string \<Rightarrow> jsnum" where
  "js_number_of_string str =
     (let s = trim str in
      if s = [] then Num 0
      else if take 2 s = ''0x'' \<or> take 2 s = ''0X'' then radix_literal 16 (drop 2 s)
      else if take 2 s = ''0o'' \<or> take 2 s = ''0O'' then radix_literal 8 (drop 2 s)
      else if take 2 s = ''0b'' \<or> take 2 s = ''0B'' then radix_literal 2 (drop 2 s)
      else
        (let neg = (hd s = CHR ''-''); body = (if neg \<or> hd s = CHR ''+'' then tl s else s)
         in if body = ''Infinity'' then (if neg then NegInf else PosInf)
            else (case decimal_literal body of None \<Rightarrow> NaN
                  | Some q \<Rightarrow> round64 (if neg then - q else q))))"

section \<open>String(number)\<close>

text \<open>
  ECMAScript's \<^verbatim>\<open>Number::toString\<close>: the fewest digits that read back as the
  same double (and of those the closest), laid out by the position of the point. A round
  up to \<open>10 ^ k\<close> has one digit more and moves the point.
  \<open>shortest q n k\<close> tries \<open>k\<close> digits and more; 17 are always enough for a double.
\<close>

fun log10_up :: "nat \<Rightarrow> rat \<Rightarrow> int \<Rightarrow> int" where
  "log10_up 0 q n = n"
| "log10_up (Suc fuel) q n =
     (if pow10 n \<le> q then log10_up fuel q (n + 1)
      else if q < pow10 (n - 1) then log10_up fuel q (n - 1) else n)"

definition pick_digits :: "rat \<Rightarrow> int \<Rightarrow> nat \<Rightarrow> nat option" where
  "pick_digits q n k =
     (let scaled = q * pow10 (int k - n); lo = nat \<lfloor>scaled\<rfloor>; hi = lo + 1;
          good = (\<lambda>s. round64 (of_nat s * pow10 (n - int k)) = Num q)
      in if good lo \<and> (\<not> good hi \<or> scaled - of_nat lo \<le> of_nat hi - scaled) then Some lo
         else if good hi then Some hi else None)"

fun shortest :: "rat \<Rightarrow> int \<Rightarrow> nat \<Rightarrow> nat \<Rightarrow> nat \<times> nat" where
  "shortest q n k 0 = (nat \<lfloor>q * pow10 (int k - n)\<rfloor>, k)"
| "shortest q n k (Suc fuel) =
     (case pick_digits q n k of Some s \<Rightarrow> (s, k) | None \<Rightarrow> shortest q n (k + 1) fuel)"

definition zeros :: "nat \<Rightarrow> string" where
  "zeros n = replicate n (CHR ''0'')"

definition layout_digits :: "string \<Rightarrow> int \<Rightarrow> string" where
  "layout_digits ds n =
     (let k = int (length ds) in
      if k \<le> n \<and> n \<le> 21 then ds @ zeros (nat (n - k))
      else if 0 < n \<and> n \<le> 21 then take (nat n) ds @ ''.'' @ drop (nat n) ds
      else if - 6 < n \<and> n \<le> 0 then ''0.'' @ zeros (nat (- n)) @ ds
      else
        (let e = n - 1; es = (if e < 0 then ''-'' else ''+'') @ show_nat (nat \<bar>e\<bar>)
         in (case ds of [d] \<Rightarrow> [d] | d # rest \<Rightarrow> d # CHR ''.'' # rest | [] \<Rightarrow> []) @ ''e'' @ es))"

definition strip_zeros :: "string \<Rightarrow> string" where
  "strip_zeros s = rev (dropWhile (\<lambda>c. c = CHR ''0'') (rev s))"

definition positive_to_string :: "rat \<Rightarrow> string" where
  "positive_to_string q =
     (if of_int \<lfloor>q\<rfloor> = q \<and> q < 10 ^ 15 then show_nat (nat \<lfloor>q\<rfloor>)
      else
        (let n = log10_up 700 q 1; (s, k) = shortest q n 1 17; ds = show_nat s
         in layout_digits (strip_zeros ds) (n + int (length ds) - int k)))"

fun js_string_of_num :: "jsnum \<Rightarrow> string" where
  "js_string_of_num NaN = ''NaN''"
| "js_string_of_num PosInf = ''Infinity''"
| "js_string_of_num NegInf = ''-Infinity''"
| "js_string_of_num (Num q) =
     (if q = 0 then ''0''
      else if q < 0 then CHR ''-'' # positive_to_string (- q)
      else positive_to_string q)"


section \<open>Dates\<close>

text \<open>Days since the epoch to a civil date (proleptic Gregorian), and back.\<close>

definition civil_from_days :: "int \<Rightarrow> int \<times> int \<times> int" where
  "civil_from_days z0 =
     (let z = z0 + 719468; era = z div 146097; doe = z - era * 146097;
          yoe = (doe - doe div 1460 + doe div 36524 - doe div 146096) div 365;
          doy = doe - (365 * yoe + yoe div 4 - yoe div 100);
          mp = (5 * doy + 2) div 153; d = doy - (153 * mp + 2) div 5 + 1;
          m = (if mp < 10 then mp + 3 else mp - 9);
          y = yoe + era * 400 + (if m \<le> 2 then 1 else 0)
      in (y, m, d))"

definition days_from_civil :: "int \<Rightarrow> int \<Rightarrow> int \<Rightarrow> int" where
  "days_from_civil y0 m d =
     (let y = (if m \<le> 2 then y0 - 1 else y0); era = y div 400; yoe = y - era * 400;
          doy = (153 * (m + (if m > 2 then - 3 else 9)) + 2) div 5 + d - 1;
          doe = yoe * 365 + yoe div 4 - yoe div 100 + doy
      in era * 146097 + doe - 719468)"

definition pad_left :: "nat \<Rightarrow> string \<Rightarrow> string" where
  "pad_left n s = zeros (n - length s) @ s"

definition iso_year :: "int \<Rightarrow> string" where
  "iso_year y =
     (if 0 \<le> y \<and> y \<le> 9999 then pad_left 4 (show_nat (nat y))
      else (if y < 0 then ''-'' else ''+'') @ pad_left 6 (show_nat (nat \<bar>y\<bar>)))"

text \<open>\<^verbatim>\<open>new Date(ms).toISOString()\<close>\<close>

definition to_iso_string :: "int \<Rightarrow> string" where
  "to_iso_string ms =
     (let days = ms div 86400000; t = ms mod 86400000; (y, m, d) = civil_from_days days;
          p2 = (\<lambda>n. pad_left 2 (show_nat (nat n)))
      in iso_year y @ ''-'' @ p2 m @ ''-'' @ p2 d @ ''T'' @ p2 (t div 3600000) @ '':'' @
         p2 (t div 60000 mod 60) @ '':'' @ p2 (t div 1000 mod 60) @ ''.'' @
         pad_left 3 (show_nat (nat (t mod 1000))) @ ''Z'')"

section \<open>JSON.stringify\<close>

definition hex_char :: "nat \<Rightarrow> char" where
  "hex_char n = (if n < 10 then char_of (48 + n) else char_of (87 + n))"

definition json_escape_char :: "char \<Rightarrow> string" where
  "json_escape_char c =
     (let n = (of_char c :: nat) in
      if n = 34 then [char_of (92::nat), char_of (34::nat)]
      else if n = 92 then [char_of (92::nat), char_of (92::nat)]
      else if n = 8 then [char_of (92::nat), CHR ''b'']
      else if n = 9 then [char_of (92::nat), CHR ''t'']
      else if n = 10 then [char_of (92::nat), CHR ''n'']
      else if n = 12 then [char_of (92::nat), CHR ''f'']
      else if n = 13 then [char_of (92::nat), CHR ''r'']
      else if n < 32 then char_of (92::nat) # ''u00'' @ [hex_char (n div 16), hex_char (n mod 16)]
      else [c])"

definition json_quote :: "string \<Rightarrow> string" where
  "json_quote s = char_of (34::nat) # concat (map json_escape_char s) @ [char_of (34::nat)]"

text \<open>
  \<open>Throws\<close>: a bigint has no JSON form. \<open>Omitted\<close>: \<^verbatim>\<open>undefined\<close> and symbols,
  which vanish from an object and are \<^verbatim>\<open>null\<close> in an array. A Buffer has its own
  \<^verbatim>\<open>toJSON\<close>.
\<close>

datatype json_out = Throws | Omitted | JText string

definition json_commas :: "string list \<Rightarrow> string" where
  "json_commas = join_with '',''"

fun js_stringify :: "jsval \<Rightarrow> json_out"
  and json_items :: "jsval list \<Rightarrow> string list option"
  and json_fields :: "(string \<times> jsval) list \<Rightarrow> string list option" where
  "js_stringify JUndefined = Omitted"
| "js_stringify JUnchanged = Omitted"
| "js_stringify JNull = JText ''null''"
| "js_stringify (JBool b) = JText (if b then ''true'' else ''false'')"
| "js_stringify (JNum n) = JText (if is_finite n then js_string_of_num n else ''null'')"
| "js_stringify (JBigInt i) = Throws"
| "js_stringify (JStr s) = JText (json_quote s)"
| "js_stringify (JDate d) =
     JText (case d of None \<Rightarrow> ''null'' | Some ms \<Rightarrow> json_quote (to_iso_string ms))"
| "js_stringify (JBytes bs) =
     JText (''{'' @ json_quote ''type'' @ '':'' @ json_quote ''Buffer'' @ '','' @ json_quote ''data'' @
       '':['' @ json_commas (map show_nat bs) @ '']}'')"
| "js_stringify (JArr vs) =
     (case json_items vs of None \<Rightarrow> Throws | Some ts \<Rightarrow> JText (''['' @ json_commas ts @ '']''))"
| "js_stringify (JObj fs) =
     (case json_fields fs of None \<Rightarrow> Throws | Some ts \<Rightarrow> JText (''{'' @ json_commas ts @ ''}''))"
| "json_items [] = Some []"
| "json_items (v # vs) =
     (case js_stringify v of
        Throws \<Rightarrow> None
      | Omitted \<Rightarrow> map_option (\<lambda>ts. ''null'' # ts) (json_items vs)
      | JText t \<Rightarrow> map_option (\<lambda>ts. t # ts) (json_items vs))"
| "json_fields [] = Some []"
| "json_fields ((k, v) # fs) =
     (case js_stringify v of
        Throws \<Rightarrow> None
      | Omitted \<Rightarrow> json_fields fs
      | JText t \<Rightarrow> map_option (\<lambda>ts. (json_quote k @ '':'' @ t) # ts) (json_fields fs))"

section \<open>String(value)\<close>

text \<open>
  What depends on the host the code runs on: \<^verbatim>\<open>Date.parse\<close> (implementation-defined
  beyond ISO text, and in the process's own time zone when the text names none) and
  \<^verbatim>\<open>Date.prototype.toString\<close> (in that zone as well).
\<close>

record host =
  date_parse :: "string \<Rightarrow> int option"
  date_text :: "int option \<Rightarrow> string"
  utf8_text :: "nat list \<Rightarrow> string"

fun js_string :: "host \<Rightarrow> jsval \<Rightarrow> string" where
  "js_string h JUndefined = ''undefined''"
| "js_string h JNull = ''null''"
| "js_string h (JBool b) = (if b then ''true'' else ''false'')"
| "js_string h (JNum n) = js_string_of_num n"
| "js_string h (JBigInt i) = show_int i"
| "js_string h (JStr s) = s"
| "js_string h JUnchanged = ''Symbol(syncle.unchanged)''"
| "js_string h (JDate d) = date_text h d"
| "js_string h (JBytes bs) = utf8_text h bs"
| "js_string h (JArr vs) = json_commas (map (\<lambda>v. if is_nil v then [] else js_string h v) vs)"
| "js_string h (JObj fs) = ''[object Object]''"

text \<open>\<^verbatim>\<open>typeof v === 'object' && v !== null\<close>\<close>

fun is_object :: "jsval \<Rightarrow> bool" where
  "is_object (JDate _) = True"
| "is_object (JBytes _) = True"
| "is_object (JArr _) = True"
| "is_object (JObj _) = True"
| "is_object _ = False"

section \<open>Small integers\<close>

lemma round_even_int: "round_even (of_int i) = i"
  by (simp add: round_even_def)

lemma quotient_of_nat: "quotient_of (of_nat n) = (int n, 1)"
  by (simp add: of_nat_rat quotient_of_Fract Rat.normalize_def)

text \<open>An integer of at most 53 bits is a double.\<close>

lemma round64_of_nat:
  assumes "n < 2 ^ 53"
  shows "round64 (of_nat n) = Num (of_nat n)"
proof (cases "n = 0")
  case False
  let ?q = "of_nat n :: rat"
  have "floorlog 2 n \<le> 53" using floorlog_leI [of n 2 53] assms by simp
  moreover have "floorlog 2 1 = 1" by (simp add: floorlog_def)
  ultimately have "rat_log2 ?q \<le> 52"
    by (simp add: rat_log2_def quotient_of_nat Let_def)
  then have "max (rat_log2 ?q - 52) (- 1074) \<le> 0" by simp
  then obtain m where m: "max (rat_log2 ?q - 52) (- 1074) = - int m"
    by (metis nonneg_int_cases neg_0_le_iff_le minus_minus)
  have p: "pow2 (- int m) = 1 / 2 ^ m" by (cases "m = 0") (simp_all add: pow2_def)
  have "?q / pow2 (- int m) = of_int (int n * 2 ^ m)" by (simp add: p)
  then have "of_int (round_even (?q / pow2 (- int m))) * pow2 (- int m) = (?q * 2 ^ m) * (1 / 2 ^ m)"
    by (simp only: round_even_int p) simp
  also have "\<dots> = ?q" by simp
  finally have v: "of_int (round_even (?q / pow2 (- int m))) * pow2 (- int m) = ?q" .
  have "?q < 2 ^ 53" using assms by (metis of_nat_less_iff of_nat_numeral of_nat_power)
  also have "(2::rat) ^ 53 \<le> 2 ^ 1024" by (rule power_increasing) simp_all
  finally have "\<not> 2 ^ 1024 \<le> ?q" by simp
  with False m v show ?thesis by (simp add: round64_def Let_def)
qed (simp add: round64_def)

lemma digit_not_ws: "is_digit c \<Longrightarrow> \<not> ws_char c"
  by (auto simp: is_digit_def ws_char_def)

lemma show_nat_no_ws: "list_all (\<lambda>c. \<not> ws_char c) (show_nat n)"
  using show_nat_digits [of n] digit_not_ws by (auto simp: list_all_iff)

lemma decimal_literal_digits:
  assumes "list_all is_digit s" and "s \<noteq> []"
  shows "decimal_literal s = Some (of_nat (read_digits 0 s))"
proof -
  have e: "takeWhile (\<lambda>c. c \<noteq> CHR ''e'' \<and> c \<noteq> CHR ''E'') s = s"
    using assms(1) by (auto simp: list_all_iff is_digit_def takeWhile_eq_all_conv)
  have d: "takeWhile is_digit s = s" using assms(1) by (simp add: list_all_iff takeWhile_eq_all_conv)
  show ?thesis using assms by (simp add: decimal_literal_def e d Let_def pow10_def)
qed

lemma js_number_show_nat:
  assumes "n < 2 ^ 53"
  shows "js_number_of_string (show_nat n) = Num (of_nat n)"
proof -
  let ?s = "show_nat n"
  have digits: "list_all is_digit ?s" by (rule show_nat_digits)
  obtain c t where ct: "?s = c # t" using show_nat_nonempty by (meson list.exhaust)
  have c: "is_digit c" using digits ct by simp
  have t2: "d = CHR ''x'' \<or> d = CHR ''X'' \<or> d = CHR ''o'' \<or> d = CHR ''O'' \<or> d = CHR ''b'' \<or> d = CHR ''B'' \<Longrightarrow> \<not> is_digit d" for d
    by (auto simp: is_digit_def)
  have radix: "take 2 ?s \<noteq> ''0x''" "take 2 ?s \<noteq> ''0X''" "take 2 ?s \<noteq> ''0o''" "take 2 ?s \<noteq> ''0O''"
    "take 2 ?s \<noteq> ''0b''" "take 2 ?s \<noteq> ''0B''"
    using digits t2 ct by (cases t; auto)+
  have sign: "c \<noteq> CHR ''-''" "c \<noteq> CHR ''+''" "c \<noteq> CHR ''I''" using c by (auto simp: is_digit_def)
  have "hd ?s \<noteq> CHR ''-''" "hd ?s \<noteq> CHR ''+''" "?s \<noteq> ''Infinity''" using sign ct by auto
  then show ?thesis
    using radix decimal_literal_digits [OF digits show_nat_nonempty] round64_of_nat [OF assms]
    by (simp add: js_number_of_string_def trim_no_ws [OF show_nat_no_ws] Let_def)
qed

lemma round64_of_int:
  assumes "\<bar>i\<bar> < 2 ^ 53"
  shows "round64 (of_int i) = Num (of_int i)"
proof -
  define n where "n = nat \<bar>i\<bar>"
  have n: "round64 (of_nat n) = Num (of_nat n)"
    using assms by (intro round64_of_nat) (simp add: n_def nat_less_iff)
  have a: "of_nat n = \<bar>of_int i :: rat\<bar>" by (simp add: n_def)
  show ?thesis
  proof (cases "0 \<le> i")
    case True
    then show ?thesis using n a by simp
  next
    case False
    then have "(of_int i :: rat) = - of_nat n" "n \<noteq> 0" using a by (simp_all add: n_def)
    then show ?thesis using n by (simp add: round64_def Let_def split: if_splits)
  qed
qed

text \<open>An integer is rounded to itself without looking at its binary logarithm.\<close>

definition round64_other :: "rat \<Rightarrow> jsnum" where
  "round64_other q = round64 q"

lemma round64_other_code [code]:
  "round64_other q =
     (if q = 0 then Num 0
      else
        (let a = \<bar>q\<bar>; e = max (rat_log2 a - 52) (- 1074); v = of_int (round_even (a / pow2 e)) * pow2 e
         in if 2 ^ 1024 \<le> v then (if 0 < q then PosInf else NegInf)
            else Num (if 0 < q then v else - v)))"
  by (simp only: round64_other_def round64_def)

lemma round64_code [code]:
  "round64 q = (if q = of_int \<lfloor>q\<rfloor> \<and> \<bar>\<lfloor>q\<rfloor>\<bar> < 9007199254740992 then Num q else round64_other q)"
  using round64_of_int [of "\<lfloor>q\<rfloor>"] by (auto simp: round64_other_def)

end
