(* ===== verification/Json_Parse.thy ===== *)
theory Json_Parse
  imports Js_Value
begin

text \<open>
  \<^verbatim>\<open>JSON.parse\<close>, which payload templates and the \<^verbatim>\<open>json\<close> cast use.
  \<open>None\<close> is the \<^verbatim>\<open>SyntaxError\<close>. A \<^verbatim>\<open>\u\<close> escape above
  \<^verbatim>\<open>00ff\<close> has no character in the model's 8-bit strings and is refused.
\<close>

definition json_ws :: "char \<Rightarrow> bool" where
  "json_ws c = (let n = (of_char c :: nat) in n = 32 \<or> n = 9 \<or> n = 10 \<or> n = 13)"

definition skip_ws :: "string \<Rightarrow> string" where
  "skip_ws s = dropWhile json_ws s"

lemma length_skip_ws: "length (skip_ws s) \<le> length s"
  by (simp add: skip_ws_def length_dropWhile_le)

section \<open>Literals\<close>

definition simple_escape :: "char \<Rightarrow> char option" where
  "simple_escape c =
     (if c = CHR ''b'' then Some (char_of (8::nat)) else if c = CHR ''t'' then Some (char_of (9::nat))
      else if c = CHR ''n'' then Some (char_of (10::nat)) else if c = CHR ''f'' then Some (char_of (12::nat))
      else if c = CHR ''r'' then Some (char_of (13::nat))
      else if of_char c \<in> {34, 47, 92 :: nat} then Some c else None)"

definition hex4 :: "string \<Rightarrow> char option" where
  "hex4 s =
     (case read_radix 16 0 s of
        Some n \<Rightarrow> if length s = 4 \<and> n < 256 then Some (char_of n) else None
      | None \<Rightarrow> None)"

text \<open>The rest of a string literal, after its opening quote.\<close>

fun json_chars :: "string \<Rightarrow> (string \<times> string) option" where
  "json_chars [] = None"
| "json_chars (c # s) =
     (if of_char c = (34::nat) then Some ([], s)
      else if of_char c < (32::nat) then None
      else if of_char c = (92::nat) then
        (case s of
           [] \<Rightarrow> None
         | e # t \<Rightarrow>
             (if e = CHR ''u'' then
                (case hex4 (take 4 t) of
                   None \<Rightarrow> None
                 | Some x \<Rightarrow> map_option (\<lambda>(v, r). (x # v, r)) (json_chars (drop 4 t)))
              else
                (case simple_escape e of
                   None \<Rightarrow> None
                 | Some x \<Rightarrow> map_option (\<lambda>(v, r). (x # v, r)) (json_chars t))))
      else map_option (\<lambda>(v, r). (c # v, r)) (json_chars s))"

lemma json_chars_shorter: "json_chars s = Some (v, r) \<Longrightarrow> length r < length s"
proof (induction s arbitrary: v r rule: json_chars.induct)
  case (2 c s)
  show ?case
  proof (cases "of_char c = (34::nat) \<or> of_char c < (32::nat) \<or> of_char c \<noteq> (92::nat)")
    case True
    with 2 show ?thesis by (auto split: if_splits intro: less_SucI)
  next
    case bs: False
    then obtain e t where s: "s = e # t" using 2(4) by (cases s) auto
    show ?thesis
    proof (cases "e = CHR ''u''")
      case True
      with 2(4) bs s obtain x v' where x: "hex4 (take 4 t) = Some x" "json_chars (drop 4 t) = Some (v', r)"
        by (auto split: option.splits)
      then have "length r < length (drop 4 t)" using 2(1) [OF _ _ _ s True] bs by auto
      with s show ?thesis by simp
    next
      case False
      with 2(4) bs s obtain x v' where x: "simple_escape e = Some x" "json_chars t = Some (v', r)"
        by (auto split: option.splits)
      then have "length r < length t" using 2(2) [OF _ _ _ s False] bs by auto
      with s show ?thesis by simp
    qed
  qed
qed simp

definition number_char :: "char \<Rightarrow> bool" where
  "number_char c = (is_digit c \<or> c \<in> {CHR ''+'', CHR ''-'', CHR ''.'', CHR ''e'', CHR ''E''})"

text \<open>JSON's grammar is narrower than \<^verbatim>\<open>Number(text)\<close>: no \<^verbatim>\<open>+\<close>, no leading zero, digits on both sides of the point.\<close>

definition json_number_ok :: "string \<Rightarrow> bool" where
  "json_number_ok s =
     (let t = (if s \<noteq> [] \<and> hd s = CHR ''-'' then tl s else s);
          w = takeWhile is_digit t; r = drop (length w) t
      in w \<noteq> [] \<and> (hd w \<noteq> CHR ''0'' \<or> length w = 1) \<and> decimal_literal t \<noteq> None \<and>
         (r = [] \<or> hd r \<noteq> CHR ''.'' \<or> (tl r \<noteq> [] \<and> is_digit (hd (tl r)))))"

definition json_number :: "string \<Rightarrow> (jsval \<times> string) option" where
  "json_number s =
     (let w = takeWhile number_char s
      in if json_number_ok w then Some (JNum (js_number_of_string w), drop (length w) s) else None)"

definition literal :: "string \<Rightarrow> jsval \<Rightarrow> string \<Rightarrow> (jsval \<times> string) option" where
  "literal w v s = (if starts_with s w then Some (v, drop (length w) s) else None)"

lemma json_number_shorter: "json_number s = Some (v, r) \<Longrightarrow> length r < length s"
proof -
  assume a: "json_number s = Some (v, r)"
  then have r: "r = drop (length (takeWhile number_char s)) s" and ok: "json_number_ok (takeWhile number_char s)"
    by (auto simp: json_number_def Let_def split: if_splits)
  have "takeWhile number_char s \<noteq> []"
  proof
    assume "takeWhile number_char s = []"
    with ok show False by (simp add: json_number_ok_def)
  qed
  with r show ?thesis by (cases s) (auto split: if_splits)
qed

lemma literal_shorter: "w \<noteq> [] \<Longrightarrow> literal w v s = Some (x, r) \<Longrightarrow> length r < length s"
  by (cases s) (auto simp: literal_def starts_with_def split: if_splits)

section \<open>Values\<close>

lemma skip_ws_Cons: "skip_ws s = c # t \<Longrightarrow> length t < length s"
  using length_skip_ws [of s] by simp

text \<open>
  The tests that a value left less text than it was given always hold
  (\<open>json_value_shorter\<close>); they make the recursion visibly terminate.
\<close>

function (sequential) json_value :: "string \<Rightarrow> (jsval \<times> string) option"
  and json_elems :: "string \<Rightarrow> (jsval list \<times> string) option"
  and json_members :: "string \<Rightarrow> ((string \<times> jsval) list \<times> string) option" where
  "json_value s0 =
     (let s = skip_ws s0 in
      (case s of
         [] \<Rightarrow> None
       | c # t \<Rightarrow>
           (if of_char c = (34::nat) then map_option (\<lambda>(v, r). (JStr v, r)) (json_chars t)
            else if c = CHR ''['' then
              (case skip_ws t of
                 [] \<Rightarrow> None
               | d # u \<Rightarrow> (if d = CHR '']'' then Some (JArr [], u)
                          else map_option (\<lambda>(vs, r). (JArr vs, r)) (json_elems t)))
            else if c = CHR ''{'' then
              (case skip_ws t of
                 [] \<Rightarrow> None
               | d # u \<Rightarrow> (if d = CHR ''}'' then Some (JObj [], u)
                          else map_option (\<lambda>(ms, r). (JObj (obj_of_entries ms), r)) (json_members t)))
            else if c = CHR ''t'' then literal ''true'' (JBool True) s
            else if c = CHR ''f'' then literal ''false'' (JBool False) s
            else if c = CHR ''n'' then literal ''null'' JNull s
            else json_number s)))"
| "json_elems s =
     (case json_value s of
        None \<Rightarrow> None
      | Some (v, r) \<Rightarrow>
          (case skip_ws r of
             [] \<Rightarrow> None
           | c # t \<Rightarrow>
               (if c = CHR '']'' then Some ([v], t)
                else if c = CHR '','' \<and> length t < length s then
                  map_option (\<lambda>(vs, r). (v # vs, r)) (json_elems t)
                else None)))"
| "json_members s =
     (case skip_ws s of
        [] \<Rightarrow> None
      | q # s1 \<Rightarrow>
          (if of_char q \<noteq> (34::nat) then None
           else
             (case json_chars s1 of
                None \<Rightarrow> None
              | Some (k, s2) \<Rightarrow>
                  (case skip_ws s2 of
                     [] \<Rightarrow> None
                   | col # s3 \<Rightarrow>
                       (if col \<noteq> CHR '':'' \<or> length s \<le> length s3 then None
                        else
                          (case json_value s3 of
                             None \<Rightarrow> None
                           | Some (v, r) \<Rightarrow>
                               (case skip_ws r of
                                  [] \<Rightarrow> None
                                | c # t \<Rightarrow>
                                    (if c = CHR ''}'' then Some ([(k, v)], t)
                                     else if c = CHR '','' \<and> length t < length s then
                                       map_option (\<lambda>(ms, r). ((k, v) # ms, r)) (json_members t)
                                     else None))))))))"
  by pat_completeness auto

termination
  by (relation "measure (case_sum (\<lambda>s. 2 * length s) (case_sum (\<lambda>s. 2 * length s + 1) (\<lambda>s. 2 * length s + 1)))")
    (auto dest: skip_ws_Cons skip_ws_Cons [OF sym])

declare json_value.simps [simp del] json_elems.simps [simp del] json_members.simps [simp del]

lemma json_value_shorter:
  "json_value s = Some (v, r) \<Longrightarrow> length r < length s"
  "json_elems s = Some (vs, r) \<Longrightarrow> length r < length s"
  "json_members s = Some (ms, r) \<Longrightarrow> length r < length s"
proof (induction s and s and s arbitrary: v r and vs r and ms r
    rule: json_value_json_elems_json_members.induct)
  case (1 s)
  note parsed = 1(3)
  obtain c t where s: "skip_ws s = c # t"
    using parsed by (cases "skip_ws s") (auto simp: json_value.simps [of s])
  have le: "length (skip_ws s) \<le> length s" by (rule length_skip_ws)
  have "length r < length (skip_ws s)"
    using parsed s 1(1) [OF refl s] 1(2) [OF refl s] json_chars_shorter [of t] json_number_shorter [of "c # t"]
      skip_ws_Cons [of t] literal_shorter [of _ _ "c # t"]
    by (fastforce simp: json_value.simps [of s] Let_def split: if_splits list.splits)
  with le show ?case by simp
next
  case (2 s)
  note parsed = 2(3)
  obtain v' r' where v': "json_value s = Some (v', r')"
    using parsed by (auto simp: json_elems.simps [of s] split: option.splits)
  then have "length r' < length s" using 2(1) by blast
  moreover obtain c t where r': "skip_ws r' = c # t"
    using parsed v' by (cases "skip_ws r'") (auto simp: json_elems.simps [of s])
  ultimately have t: "length t < length s" using skip_ws_Cons [OF r'] by simp
  show ?case
  proof (cases "c = CHR '']''")
    case True
    with parsed v' r' t show ?thesis by (simp add: json_elems.simps [of s])
  next
    case False
    with parsed v' r' t obtain ws where "json_elems t = Some (ws, r)" and c: "c = CHR '',''"
      by (auto simp: json_elems.simps [of s] split: if_splits)
    with 2(2) [OF v' refl r' False] t show ?thesis by fastforce
  qed
next
  case (3 s)
  note parsed = 3(3)
  obtain q s1 where q: "skip_ws s = q # s1" "of_char q = (34::nat)"
    using parsed by (cases "skip_ws s") (auto simp: json_members.simps [of s] split: if_splits)
  obtain k s2 where k: "json_chars s1 = Some (k, s2)"
    using parsed q by (auto simp: json_members.simps [of s] split: option.splits)
  obtain col s3 where col: "skip_ws s2 = col # s3"
    using parsed q k by (cases "skip_ws s2") (auto simp: json_members.simps [of s])
  have ok: "\<not> (col \<noteq> CHR '':'' \<or> length s \<le> length s3)"
    using parsed q k col by (simp add: json_members.simps [of s] split: if_split_asm)
  obtain v' r' where v': "json_value s3 = Some (v', r')"
    using parsed q k col ok by (auto simp: json_members.simps [of s] split: option.splits)
  have "length r' < length s3" using 3(1) [OF q(1) _ k refl col ok] q(2) v' by blast
  moreover obtain c t where r': "skip_ws r' = c # t"
    using parsed q k col ok v' by (cases "skip_ws r'") (auto simp: json_members.simps [of s])
  ultimately have t: "length t < length s" using skip_ws_Cons [OF r'] ok by simp
  show ?case
  proof (cases "c = CHR ''}''")
    case True
    with parsed q k col ok v' r' t show ?thesis by (simp add: json_members.simps [of s])
  next
    case False
    with parsed q k col ok v' r' t obtain ws where "json_members t = Some (ws, r)" and c: "c = CHR '',''"
      by (auto simp: json_members.simps [of s] split: if_splits)
    with 3(2) [OF q(1) _ k refl col ok v' refl r' False] q(2) t show ?thesis by fastforce
  qed
qed

definition json_parse :: "string \<Rightarrow> jsval option" where
  "json_parse s = (case json_value s of Some (v, r) \<Rightarrow> if skip_ws r = [] then Some v else None | None \<Rightarrow> None)"

end
