(* ===== verification/Template.thy ===== *)
theory Template
  imports Json_Parse "HOL-Library.Sublist"
begin

text \<open>
  Payload templates, \<^verbatim>\<open>packages/core/src/bridges/transform.ts\<close>: a JSON document with
  \<^verbatim>\<open>{{column}}\<close> tokens, substituted on the parsed tree. The scanner for tokens is
  shared with the column transforms. A \<^verbatim>\<open>Set\<close> of warnings is the list of what was
  added, made distinct where the code reads it.
\<close>

section \<open>Tokens\<close>

text \<open>\<^verbatim>\<open>[\w$]\<close>\<close>

definition word_char :: "char \<Rightarrow> bool" where
  "word_char c =
     (let n = (of_char c :: nat) in
      (48 \<le> n \<and> n \<le> 57) \<or> (65 \<le> n \<and> n \<le> 90) \<or> (97 \<le> n \<and> n \<le> 122) \<or> n = 95 \<or> n = 36)"

text \<open>
  A match of \<^verbatim>\<open>\{\{\s*([\w$]+)\s*\}\}\<close> at the start of the text: the name and what
  follows. Blanks and name characters are disjoint, so there is one way to match.
\<close>

definition token_at :: "string \<Rightarrow> (string \<times> string) option" where
  "token_at s =
     (if take 2 s = ''{{'' then
        (let t = dropWhile ws_char (drop 2 s); name = takeWhile word_char t;
             r = dropWhile ws_char (drop (length name) t)
         in if name \<noteq> [] \<and> take 2 r = ''}}'' then Some (name, drop 2 r) else None)
      else None)"

lemma token_at_shorter: "token_at s = Some (n, r) \<Longrightarrow> length r < length s"
proof -
  assume a: "token_at s = Some (n, r)"
  let ?t = "dropWhile ws_char (drop 2 s)"
  let ?u = "drop (length n) ?t"
  from a have r: "r = drop 2 (dropWhile ws_char ?u)" and s: "take 2 s = ''{{''"
    by (auto simp: token_at_def Let_def split: if_splits)
  have "length r \<le> length (dropWhile ws_char ?u)" by (simp add: r)
  also have "\<dots> \<le> length ?u" by (rule length_dropWhile_le)
  also have "\<dots> \<le> length ?t" by simp
  also have "\<dots> \<le> length (drop 2 s)" by (rule length_dropWhile_le)
  also have "\<dots> < length s" using s by (cases s) auto
  finally show ?thesis .
qed

text \<open>The text between matches, character by character, and the matched names.\<close>

function pieces :: "string \<Rightarrow> (char + string) list" where
  "pieces s =
     (case token_at s of
        Some (name, r) \<Rightarrow> Inr name # pieces r
      | None \<Rightarrow> (case s of [] \<Rightarrow> [] | c # t \<Rightarrow> Inl c # pieces t))"
  by pat_completeness auto
termination by (relation "measure length") (auto dest: token_at_shorter)

declare pieces.simps [simp del]

definition token_names :: "string \<Rightarrow> string list" where
  "token_names s = List.map_filter (\<lambda>p. case p of Inr n \<Rightarrow> Some n | Inl _ \<Rightarrow> None) (pieces s)"

text \<open>\<^verbatim>\<open>WHOLE_TOKEN\<close>: the text is one token and nothing else.\<close>

definition whole_token :: "string \<Rightarrow> string option" where
  "whole_token s = (case token_at s of Some (n, []) \<Rightarrow> Some n | _ \<Rightarrow> None)"

definition templateColumns :: "string option \<Rightarrow> string list" where
  "templateColumns t =
     uniq (filter (\<lambda>n. hd n \<noteq> CHR ''$'') (token_names (case t of None \<Rightarrow> [] | Some s \<Rightarrow> s)))"

section \<open>Configuration\<close>

record transform_config =
  tpl_template :: string
  tpl_fields :: "string list option"
  tpl_rename :: "(string \<times> string) list option"
  tpl_wrapKey :: "string option"

record transform_context =
  tc_table :: string
  tc_now :: string
  tc_index :: int

datatype render_error = Bad_template | Not_serializable

type_synonym render_result = "render_error + jsval \<times> string list"

definition FORBIDDEN_KEYS :: "string list" where
  "FORBIDDEN_KEYS = [''__proto__'', ''constructor'', ''prototype'']"

section \<open>Scope\<close>

definition projectRow :: "row \<Rightarrow> transform_config \<Rightarrow> row" where
  "projectRow r cfg =
     (let kept = (case tpl_fields cfg of
                    None \<Rightarrow> r
                  | Some fs \<Rightarrow> if fs = [] then r else filter (\<lambda>(k, v). k \<in> set fs) r);
          named = (case tpl_rename cfg of
                     None \<Rightarrow> kept
                   | Some m \<Rightarrow> map (\<lambda>(k, v). (case map_of m k of None \<Rightarrow> k | Some k' \<Rightarrow> k', v)) kept)
      in obj_of_entries named)"

definition buildScope :: "row \<Rightarrow> transform_config \<Rightarrow> transform_context \<Rightarrow> row" where
  "buildScope r cfg ctx =
     obj_set (obj_set (obj_set (obj_set r ''$row'' (JObj (projectRow r cfg)))
       ''$table'' (JStr (tc_table ctx))) ''$now'' (JStr (tc_now ctx)))
       ''$index'' (JNum (Num (of_int (tc_index ctx))))"

text \<open>
  \<^verbatim>\<open>stringify\<close>: \<open>None\<close> when \<^verbatim>\<open>JSON.stringify\<close> throws. A value that is
  not an object needs nothing of the host.
\<close>

definition no_host :: host where
  "no_host = \<lparr>date_parse = (\<lambda>_. None), date_text = (\<lambda>_. []), utf8_text = (\<lambda>_. [])\<rparr>"

definition stringify_value :: "jsval \<Rightarrow> string option" where
  "stringify_value v =
     (if is_nil v then Some []
      else if is_object v then (case js_stringify v of JText t \<Rightarrow> Some t | _ \<Rightarrow> None)
      else Some (js_string no_host v))"

section \<open>Substitution\<close>

fun interpolate :: "row \<Rightarrow> (char + string) list \<Rightarrow> (string \<times> string list) option" where
  "interpolate scope [] = Some ([], [])"
| "interpolate scope (Inl c # ps) = map_option (\<lambda>(t, w). (c # t, w)) (interpolate scope ps)"
| "interpolate scope (Inr n # ps) =
     (if row_has scope n then
        (case stringify_value (row_get scope n) of
           None \<Rightarrow> None
         | Some x \<Rightarrow> map_option (\<lambda>(t, w). (x @ t, w)) (interpolate scope ps))
      else map_option (\<lambda>(t, w). (t, n # w)) (interpolate scope ps))"

definition substitute_text :: "row \<Rightarrow> string \<Rightarrow> (jsval \<times> string list) option" where
  "substitute_text scope s =
     (case whole_token s of
        Some n \<Rightarrow> Some (if row_has scope n then (row_get scope n, []) else (JNull, [n]))
      | None \<Rightarrow> map_option (\<lambda>(t, w). (JStr t, w)) (interpolate scope (pieces s)))"

fun substitute :: "row \<Rightarrow> jsval \<Rightarrow> (jsval \<times> string list) option"
  and substitute_items :: "row \<Rightarrow> jsval list \<Rightarrow> (jsval list \<times> string list) option"
  and substitute_fields ::
    "row \<Rightarrow> (string \<times> jsval) list \<Rightarrow> row \<Rightarrow> (row \<times> string list) option" where
  "substitute scope (JStr s) = substitute_text scope s"
| "substitute scope (JArr vs) = map_option (\<lambda>(xs, w). (JArr xs, w)) (substitute_items scope vs)"
| "substitute scope (JObj fs) = map_option (\<lambda>(r, w). (JObj r, w)) (substitute_fields scope fs [])"
| "substitute scope v = Some (v, [])"
| "substitute_items scope [] = Some ([], [])"
| "substitute_items scope (v # vs) =
     (case substitute scope v of
        None \<Rightarrow> None
      | Some (x, w) \<Rightarrow> map_option (\<lambda>(xs, w'). (x # xs, w @ w')) (substitute_items scope vs))"
| "substitute_fields scope [] out = Some (out, [])"
| "substitute_fields scope ((k, v) # fs) out =
     (case interpolate scope (pieces k) of
        None \<Rightarrow> None
      | Some (key, w) \<Rightarrow>
          (if key \<in> set FORBIDDEN_KEYS then
             map_option (\<lambda>(r, w'). (r, w @ w')) (substitute_fields scope fs out)
           else
             (case substitute scope v of
                None \<Rightarrow> None
              | Some (x, w1) \<Rightarrow>
                  map_option (\<lambda>(r, w'). (r, w @ w1 @ w')) (substitute_fields scope fs (obj_set out key x)))))"

definition parseTemplate :: "string \<Rightarrow> jsval option" where
  "parseTemplate t = (if whole_token (trim t) \<noteq> None then Some (JStr (trim t)) else json_parse t)"

definition wrap :: "jsval \<Rightarrow> transform_config \<Rightarrow> jsval" where
  "wrap body cfg =
     (case tpl_wrapKey cfg of None \<Rightarrow> body | Some k \<Rightarrow> if k = [] then body else JObj [(k, body)])"

definition finish_render ::
  "transform_config \<Rightarrow> (jsval \<times> string list) option \<Rightarrow> render_result" where
  "finish_render cfg out =
     (case out of None \<Rightarrow> Inl Not_serializable | Some (v, w) \<Rightarrow> Inr (wrap v cfg, uniq w))"

definition renderRow :: "row \<Rightarrow> transform_config \<Rightarrow> transform_context \<Rightarrow> render_result" where
  "renderRow r cfg ctx =
     (case parseTemplate (tpl_template cfg) of
        None \<Rightarrow> Inl Bad_template
      | Some tree \<Rightarrow> finish_render cfg (substitute (buildScope r cfg ctx) tree))"

fun render_items ::
  "jsval \<Rightarrow> transform_config \<Rightarrow> transform_context \<Rightarrow> row list \<Rightarrow> (jsval list \<times> string list) option"
where
  "render_items tree cfg ctx [] = Some ([], [])"
| "render_items tree cfg ctx (r # rs) =
     (case substitute (buildScope r cfg ctx) tree of
        None \<Rightarrow> None
      | Some (x, w) \<Rightarrow>
          map_option (\<lambda>(xs, w'). (x # xs, w @ w'))
            (render_items tree cfg (ctx\<lparr>tc_index := tc_index ctx + 1\<rparr>) rs))"

definition renderBatch ::
  "row list \<Rightarrow> transform_config \<Rightarrow> int \<Rightarrow> transform_context \<Rightarrow> render_result" where
  "renderBatch rs cfg startIndex ctx =
     (case parseTemplate (tpl_template cfg) of
        None \<Rightarrow> Inl Bad_template
      | Some tree \<Rightarrow>
          finish_render cfg (map_option (\<lambda>(xs, w). (JArr xs, w))
            (render_items tree cfg (ctx\<lparr>tc_index := startIndex\<rparr>) rs)))"

section \<open>What a template names\<close>

lemma not_brace: "ws_char c \<Longrightarrow> c \<noteq> CHR ''{''" "word_char c \<Longrightarrow> c \<noteq> CHR ''{''"
  by (auto simp: ws_char_def word_char_def)

lemma takeWhile_no_brace:
  "CHR ''{'' \<notin> set (takeWhile ws_char t)" "CHR ''{'' \<notin> set (takeWhile word_char t)"
  by (auto dest!: set_takeWhileD dest: not_brace)

text \<open>A match holds no opening brace after its first two characters.\<close>

lemma token_at_form:
  assumes "token_at s = Some (n, r)"
  obtains u where "s = ''{{'' @ u @ ''}}'' @ r" and "CHR ''{'' \<notin> set u" and "u \<noteq> []"
proof -
  let ?t = "drop 2 s"
  let ?t' = "dropWhile ws_char ?t"
  let ?r = "drop (length n) ?t'"
  let ?r' = "dropWhile ws_char ?r"
  have n: "n = takeWhile word_char ?t'" and ne: "n \<noteq> []" and s: "take 2 s = ''{{''"
    and c: "take 2 ?r' = ''}}''" and r: "r = drop 2 ?r'"
    using assms by (auto simp: token_at_def Let_def split: if_splits)
  have "?t' = n @ ?r" by (simp add: n dropWhile_eq_drop [symmetric])
  then have "?t = takeWhile ws_char ?t @ n @ takeWhile ws_char ?r @ ''}}'' @ r"
    using c r by (metis append_take_drop_id takeWhile_dropWhile_id)
  then have "s = ''{{'' @ (takeWhile ws_char ?t @ n @ takeWhile ws_char ?r) @ ''}}'' @ r"
    using s by (metis append.assoc append_take_drop_id)
  moreover have "CHR ''{'' \<notin> set (takeWhile ws_char ?t @ n @ takeWhile ws_char ?r)"
    using takeWhile_no_brace(1) [of ?t] takeWhile_no_brace(2) [of ?t'] takeWhile_no_brace(1) [of ?r]
    by (simp add: n)
  ultimately show ?thesis using ne that by blast
qed

lemma token_at_append: "token_at s = Some (n, r) \<Longrightarrow> token_at (s @ x) = Some (n, r @ x)"
proof -
  assume a: "token_at s = Some (n, r)"
  let ?t = "dropWhile ws_char (drop 2 s)"
  let ?r = "drop (length n) ?t"
  have n: "n = takeWhile word_char ?t" and ne: "n \<noteq> []" and s: "take 2 s = ''{{''"
    and c: "take 2 (dropWhile ws_char ?r) = ''}}''" and r: "r = drop 2 (dropWhile ws_char ?r)"
    using a by (auto simp: token_at_def Let_def split: if_splits)
  have two: "2 \<le> length s" "2 \<le> length (dropWhile ws_char ?r)"
    using arg_cong [OF s, of length] arg_cong [OF c, of length] by simp_all
  have drop_app: "dropWhile P (xs @ ys) = dropWhile P xs @ ys" if "dropWhile P xs \<noteq> []"
    for P and xs ys :: string
    using that by (induction xs) auto
  have t_ne: "?t \<noteq> []" using n ne by (metis takeWhile.simps(1))
  then have t: "dropWhile ws_char (drop 2 (s @ x)) = ?t @ x" using two drop_app by simp
  have r_ne: "dropWhile ws_char ?r \<noteq> []" using two(2) by (metis list.size(3) not_numeral_le_zero)
  have "?r = dropWhile word_char ?t" by (simp add: n dropWhile_eq_drop)
  then have "dropWhile word_char ?t \<noteq> []" using r_ne by (metis dropWhile.simps(1))
  then have "takeWhile word_char (?t @ x) = n"
    using n by (metis dropWhile_eq_Nil_conv takeWhile_append1)
  moreover have "length n \<le> length ?t" by (metis n length_takeWhile_le)
  then have "dropWhile ws_char (drop (length n) (?t @ x)) = dropWhile ws_char ?r @ x"
    using drop_app [OF r_ne] by simp
  ultimately show ?thesis using ne s c r t two
    by (simp add: token_at_def Let_def)
qed

lemma token_names_simps:
  "token_at s = Some (n, r) \<Longrightarrow> token_names s = n # token_names r"
  "token_at (c # t) = None \<Longrightarrow> token_names (c # t) = token_names t"
  "token_names [] = []"
  by (subst token_names_def, subst pieces.simps, simp add: List.map_filter_simps token_names_def)+
     (simp add: token_names_def pieces.simps [of "[]"] token_at_def List.map_filter_simps)

lemma token_names_iff: "n \<in> set (token_names s) \<longleftrightarrow> (\<exists>a b r. s = a @ b \<and> token_at b = Some (n, r))"
proof (induction s rule: pieces.induct)
  case (1 s)
  show ?case
  proof (cases "token_at s")
    case None
    show ?thesis
    proof (cases s)
      case Nil
      then show ?thesis by (simp add: token_names_simps token_at_def)
    next
      case (Cons c t)
      have "(\<exists>a b r. c # t = a @ b \<and> token_at b = Some (n, r)) \<longleftrightarrow> (\<exists>a b r. t = a @ b \<and> token_at b = Some (n, r))"
        using None Cons by (metis append_eq_Cons_conv option.distinct(1))
      with 1(1) [OF None Cons] None Cons show ?thesis by (simp add: token_names_simps)
    qed
  next
    case (Some p)
    obtain m r where p: "p = (m, r)" by force
    with Some have m: "token_at s = Some (m, r)" by simp
    then obtain u where u: "s = ''{{'' @ u @ ''}}'' @ r" "CHR ''{'' \<notin> set u" "u \<noteq> []" by (rule token_at_form)
    have "(\<exists>a b r'. s = a @ b \<and> token_at b = Some (n, r')) \<longleftrightarrow>
      n = m \<or> (\<exists>a b r'. r = a @ b \<and> token_at b = Some (n, r'))" (is "?L \<longleftrightarrow> ?R")
    proof
      assume ?R
      then show ?L using m u by (metis append_Nil append.assoc)
    next
      assume ?L
      then obtain a b r' where ab: "s = a @ b" "token_at b = Some (n, r')" by blast
      obtain u' where b: "b = ''{{'' @ u' @ ''}}'' @ r'" using token_at_form [OF ab(2)] by blast
      show ?R
      proof (cases "a = []")
        case True
        with ab m show ?thesis by simp
      next
        case False
        then obtain x a1 where a1: "a = x # a1" by (cases a) auto
        have "tl s = a1 @ b" by (simp add: ab(1) a1)
        moreover have "tl s = CHR ''{'' # u @ ''}}'' @ r" by (simp add: u(1))
        ultimately have e: "a1 @ b = CHR ''{'' # u @ ''}}'' @ r" by simp
        obtain y v where y: "u = y # v" using u(3) by (cases u) auto
        have "a1 \<noteq> []" using e b u(2) y by auto
        then obtain z a2 where a2: "a1 = z # a2" by (cases a1) auto
        have e2: "a2 @ b = (u @ ''}}'') @ r" using e a2 by simp
        then obtain w where "a2 = (u @ ''}}'') @ w \<and> w @ b = r \<or> a2 @ w = u @ ''}}'' \<and> b = w @ r"
          unfolding append_eq_append_conv2 [of a2 b "u @ ''}}''" r] by blast
        then show ?thesis
        proof
          assume "a2 = (u @ ''}}'') @ w \<and> w @ b = r"
          with ab(2) show ?thesis by blast
        next
          assume w: "a2 @ w = u @ ''}}'' \<and> b = w @ r"
          have "set w \<subseteq> set (u @ ''}}'')" using w by (metis Un_upper2 set_append)
          then have "CHR ''{'' \<notin> set w" using u(2) by auto
          then have "w = []" using w b by (cases w) auto
          then have "r = [] @ b" using w by simp
          with ab(2) show ?thesis by blast
        qed
      qed
    qed
    with 1(2) [OF Some p [symmetric]] m show ?thesis by (simp add: token_names_simps)
  qed
qed

lemma token_names_sublist: "sublist w s \<Longrightarrow> set (token_names w) \<subseteq> set (token_names s)"
proof
  fix n
  assume "sublist w s" and n: "n \<in> set (token_names w)"
  then obtain x y where s: "s = x @ w @ y" by (auto simp: sublist_def)
  from n obtain a b r where ab: "w = a @ b" "token_at b = Some (n, r)" by (auto simp: token_names_iff)
  then have "s = (x @ a) @ (b @ y) \<and> token_at (b @ y) = Some (n, r @ y)"
    using s token_at_append [OF ab(2)] by simp
  then show "n \<in> set (token_names s)" unfolding token_names_iff by blast
qed

section \<open>The strings of a parsed document stand in its text\<close>

fun tree_strings :: "jsval \<Rightarrow> string list"
  and tree_items :: "jsval list \<Rightarrow> string list"
  and tree_fields :: "(string \<times> jsval) list \<Rightarrow> string list" where
  "tree_strings (JStr s) = [s]"
| "tree_strings (JArr vs) = tree_items vs"
| "tree_strings (JObj fs) = tree_fields fs"
| "tree_strings v = []"
| "tree_items [] = []"
| "tree_items (v # vs) = tree_strings v @ tree_items vs"
| "tree_fields [] = []"
| "tree_fields ((k, v) # fs) = k # tree_strings v @ tree_fields fs"

lemma tree_fields_iff:
  "w \<in> set (tree_fields fs) \<longleftrightarrow> (\<exists>k v. (k, v) \<in> set fs \<and> (w = k \<or> w \<in> set (tree_strings v)))"
proof (induction fs)
  case (Cons f fs)
  obtain k v where "f = (k, v)" by force
  with Cons show ?case by (simp only: tree_fields.simps set_append list.set Un_iff insert_iff prod.inject) blast
qed simp

lemma omap_set_entries: "set (omap_set r k v) \<subseteq> insert (k, v) (set r)"
  by (induction r k v rule: omap_set.induct) auto

lemma obj_set_entries: "set (obj_set r k v) \<subseteq> insert (k, v) (set r)"
  using omap_set_entries [of r k v]
  by (auto simp: obj_set_def split: option.splits dest: set_takeWhileD set_dropWhileD)

lemma obj_of_entries_entries: "set (obj_of_entries es) \<subseteq> set es"
proof -
  have "set (fold (\<lambda>(k, v) r. obj_set r k v) es r) \<subseteq> set es \<union> set r" for r
  proof (induction es arbitrary: r)
    case (Cons e es)
    obtain k v where e: "e = (k, v)" by force
    have "set (fold (\<lambda>(k, v) r. obj_set r k v) es (obj_set r k v)) \<subseteq> set es \<union> set (obj_set r k v)"
      by (rule Cons.IH)
    with obj_set_entries [of r k v] e show ?case by auto
  qed simp
  from this [of "[]"] show ?thesis by (simp add: obj_of_entries_def)
qed

lemma json_chars_plain: "json_chars s = Some (v, r) \<Longrightarrow> char_of (92::nat) \<notin> set s \<Longrightarrow> \<exists>q. s = v @ q # r"
proof (induction s arbitrary: v r)
  case (Cons c s)
  then have bs: "(of_char c :: nat) \<noteq> 92" by (metis char_of_char list.set_intros(1))
  with Cons show ?case by (force split: if_splits)
qed simp

lemma suffix_skip_ws: "suffix (skip_ws s) s"
  by (simp add: skip_ws_def suffix_dropWhile)

lemma suffix_skip: "skip_ws r = c # t \<Longrightarrow> suffix r s \<Longrightarrow> suffix t s"
  by (metis suffix_ConsI suffix_order.trans suffix_skip_ws suffix_order.refl suffix_ConsD)

lemma suffix_clean: "suffix r s \<Longrightarrow> c \<notin> set s \<Longrightarrow> c \<notin> set r"
  using set_mono_suffix by blast

definition occur_in :: "string \<Rightarrow> string list \<Rightarrow> bool" where
  "occur_in s ws = (\<forall>w \<in> set ws. sublist w s)"

lemma occur_in_simps [simp]:
  "occur_in s []" "occur_in s (w # ws) \<longleftrightarrow> sublist w s \<and> occur_in s ws"
  "occur_in s (us @ ws) \<longleftrightarrow> occur_in s us \<and> occur_in s ws"
  by (auto simp: occur_in_def)

lemma occur_in_mono: "suffix r s \<Longrightarrow> occur_in r ws \<Longrightarrow> occur_in s ws"
  by (meson suffix_imp_sublist sublist_order.order.trans occur_in_def)

lemma occur_in_fields: "occur_in s (tree_fields ms) \<Longrightarrow> occur_in s (tree_fields (obj_of_entries ms))"
  using obj_of_entries_entries [of ms] by (fastforce simp: occur_in_def tree_fields_iff)

lemma json_number_leaf: "json_number s = Some (v, r) \<Longrightarrow> tree_strings v = [] \<and> suffix r s"
  by (auto simp: json_number_def Let_def suffix_drop split: if_splits)

lemma literal_leaf: "literal w v s = Some (x, r) \<Longrightarrow> x = v \<and> suffix r s"
  by (auto simp: literal_def suffix_drop split: if_splits)

lemma json_value_strings:
  "json_value s = Some (v, r) \<Longrightarrow> char_of (92::nat) \<notin> set s \<Longrightarrow> suffix r s \<and> occur_in s (tree_strings v)"
  "json_elems s = Some (vs, r) \<Longrightarrow> char_of (92::nat) \<notin> set s \<Longrightarrow> suffix r s \<and> occur_in s (tree_items vs)"
  "json_members s = Some (ms, r) \<Longrightarrow> char_of (92::nat) \<notin> set s \<Longrightarrow> suffix r s \<and> occur_in s (tree_fields ms)"
proof (induction s and s and s arbitrary: v r and vs r and ms r
    rule: json_value_json_elems_json_members.induct)
  case (1 s)
  note parsed = 1(3)
  obtain c t where s: "skip_ws s = c # t"
    using parsed by (cases "skip_ws s") (auto simp: json_value.simps [of s])
  have t: "suffix t s" by (rule suffix_skip [OF s]) simp
  have clean: "char_of (92::nat) \<notin> set t" by (rule suffix_clean [OF t 1(4)])
  have ct: "suffix (c # t) s" using suffix_skip_ws [of s] s by simp
  consider (str) "of_char c = (34::nat)" | (arr) "of_char c \<noteq> (34::nat)" "c = CHR ''[''"
    | (obj) "of_char c \<noteq> (34::nat)" "c \<noteq> CHR ''[''" "c = CHR ''{''"
    | (leaf) "of_char c \<noteq> (34::nat)" "c \<noteq> CHR ''[''" "c \<noteq> CHR ''{''" by blast
  then show ?case
  proof cases
    case str
    with parsed s obtain w where w: "json_chars t = Some (w, r)" "v = JStr w"
      by (auto simp: json_value.simps [of s])
    then obtain q where q: "t = w @ q # r" using json_chars_plain clean by blast
    then have "sublist w t" "suffix r t" by (auto simp: sublist_def suffix_def)
    then have "suffix r s" "sublist w s"
      using t by (meson suffix_imp_sublist sublist_order.order.trans suffix_order.trans)+
    then show ?thesis using w by simp
  next
    case arr
    then obtain d u where d: "skip_ws t = d # u"
      using parsed s by (cases "skip_ws t") (auto simp: json_value.simps [of s])
    show ?thesis
    proof (cases "d = CHR '']''")
      case True
      with parsed s arr d have "v = JArr []" "r = u" by (auto simp: json_value.simps [of s])
      with suffix_skip [OF d t] show ?thesis by simp
    next
      case False
      with parsed s arr d obtain ws where "json_elems t = Some (ws, r)" "v = JArr ws"
        by (auto simp: json_value.simps [of s])
      with 1(1) [OF refl s arr d False _ clean] t show ?thesis
        by (auto intro: occur_in_mono suffix_order.trans)
    qed
  next
    case obj
    then obtain d u where d: "skip_ws t = d # u"
      using parsed s by (cases "skip_ws t") (auto simp: json_value.simps [of s])
    show ?thesis
    proof (cases "d = CHR ''}''")
      case True
      with parsed s obj d have "v = JObj []" "r = u" by (auto simp: json_value.simps [of s])
      with suffix_skip [OF d t] show ?thesis by simp
    next
      case False
      with parsed s obj d obtain ms where "json_members t = Some (ms, r)" "v = JObj (obj_of_entries ms)"
        by (auto simp: json_value.simps [of s])
      with 1(2) [OF refl s obj d False _ clean] t show ?thesis
        by (auto intro: occur_in_mono suffix_order.trans occur_in_fields)
    qed
  next
    case leaf
    then have "(let s = c # t
       in if c = CHR ''t'' then literal ''true'' (JBool True) s
          else if c = CHR ''f'' then literal ''false'' (JBool False) s
          else if c = CHR ''n'' then literal ''null'' JNull s else json_number s) = Some (v, r)"
      using parsed by (simp add: json_value.simps [of s] s)
    then have "tree_strings v = [] \<and> suffix r (c # t)"
      unfolding Let_def
      by (auto dest!: literal_leaf json_number_leaf split: if_split_asm simp del: suffix_Cons)
    with ct show ?thesis using suffix_order.trans by auto
  qed
next
  case (2 s)
  note parsed = 2(3)
  obtain v' r' where v': "json_value s = Some (v', r')"
    using parsed by (auto simp: json_elems.simps [of s] split: option.splits)
  then have IH: "suffix r' s" "occur_in s (tree_strings v')" using 2(1) 2(4) by blast+
  obtain c t where r': "skip_ws r' = c # t"
    using parsed v' by (cases "skip_ws r'") (auto simp: json_elems.simps [of s])
  have t: "suffix t s" by (rule suffix_skip [OF r' IH(1)])
  show ?case
  proof (cases "c = CHR '']''")
    case True
    with parsed v' r' t IH show ?thesis by (auto simp: json_elems.simps [of s])
  next
    case False
    with parsed v' r' obtain ws where ws: "json_elems t = Some (ws, r)" "vs = v' # ws"
      and c: "c = CHR '','' \<and> length t < length s"
      by (auto simp: json_elems.simps [of s] split: if_splits)
    with 2(2) [OF v' refl r' False c ws(1) suffix_clean [OF t 2(4)]] t IH show ?thesis
      by (auto intro: occur_in_mono suffix_order.trans)
  qed
next
  case (3 s)
  note parsed = 3(3)
  obtain q s1 where q: "skip_ws s = q # s1" "of_char q = (34::nat)"
    using parsed by (cases "skip_ws s") (auto simp: json_members.simps [of s] split: if_splits)
  have s1: "suffix s1 s" by (rule suffix_skip [OF q(1)]) simp
  obtain k s2 where k: "json_chars s1 = Some (k, s2)"
    using parsed q by (auto simp: json_members.simps [of s] split: option.splits)
  then obtain q' where "s1 = k @ q' # s2" using json_chars_plain suffix_clean [OF s1 3(4)] by blast
  then have "sublist k s1" "suffix s2 s1" by (auto simp: sublist_def suffix_def)
  then have ks: "sublist k s" and s2: "suffix s2 s"
    using s1 by (meson suffix_imp_sublist sublist_order.order.trans suffix_order.trans)+
  obtain col s3 where col: "skip_ws s2 = col # s3"
    using parsed q k by (cases "skip_ws s2") (auto simp: json_members.simps [of s])
  have s3: "suffix s3 s" by (rule suffix_skip [OF col s2])
  have ok: "\<not> (col \<noteq> CHR '':'' \<or> length s \<le> length s3)"
    using parsed q k col by (simp add: json_members.simps [of s] split: if_split_asm)
  obtain v' r' where v': "json_value s3 = Some (v', r')"
    using parsed q k col ok by (auto simp: json_members.simps [of s] split: option.splits)
  have IH: "suffix r' s3" "occur_in s3 (tree_strings v')"
    using 3(1) [OF q(1) _ k refl col ok v' suffix_clean [OF s3 3(4)]] q(2) by auto
  then have r's: "suffix r' s" and vs: "occur_in s (tree_strings v')"
    using s3 by (auto intro: occur_in_mono suffix_order.trans)
  obtain c t where r': "skip_ws r' = c # t"
    using parsed q k col ok v' by (cases "skip_ws r'") (auto simp: json_members.simps [of s])
  have t: "suffix t s" by (rule suffix_skip [OF r' r's])
  show ?case
  proof (cases "c = CHR ''}''")
    case True
    with parsed q k col ok v' r' have "ms = [(k, v')]" "r = t" by (simp_all add: json_members.simps [of s])
    with t ks vs show ?thesis by simp
  next
    case False
    with parsed q k col ok v' r' obtain ws where ws: "json_members t = Some (ws, r)" "ms = (k, v') # ws"
      and c: "c = CHR '','' \<and> length t < length s"
      by (auto simp: json_members.simps [of s] split: if_splits)
    have "suffix r t \<and> occur_in t (tree_fields ws)"
      using 3(2) [OF q(1) _ k refl col ok v' refl r' False c ws(1) suffix_clean [OF t 3(4)]] q(2) by blast
    with ws t ks vs show ?thesis by (auto intro: occur_in_mono suffix_order.trans)
  qed
qed

lemma sublist_trim: "sublist (trim s) s"
proof -
  have "suffix (trim_start s) s" by (simp add: trim_start_def suffix_dropWhile)
  moreover have "prefix (trim_end t) t" for t
    by (metis prefix_def rev_append rev_rev_ident suffix_def suffix_dropWhile trim_end_def)
  ultimately show ?thesis
    by (metis prefix_imp_sublist sublist_order.order.trans suffix_imp_sublist trim_def)
qed

lemma template_strings:
  assumes "parseTemplate t = Some tree" and "char_of (92::nat) \<notin> set t"
  shows "occur_in t (tree_strings tree)"
proof (cases "whole_token (trim t) = None")
  case True
  with assms obtain r where "json_value t = Some (tree, r)"
    by (auto simp: parseTemplate_def json_parse_def split: option.splits if_splits prod.splits)
  with json_value_strings(1) assms(2) show ?thesis by blast
next
  case False
  with assms show ?thesis by (auto simp: parseTemplate_def sublist_trim)
qed

section \<open>What a rendered body depends on\<close>

definition agree_on :: "row \<Rightarrow> row \<Rightarrow> string \<Rightarrow> bool" where
  "agree_on r1 r2 n = (row_has r1 n = row_has r2 n \<and> row_get r1 n = row_get r2 n)"

lemma interpolate_cong:
  "(\<And>n. Inr n \<in> set ps \<Longrightarrow> agree_on s1 s2 n) \<Longrightarrow> interpolate s1 ps = interpolate s2 ps"
proof (induction s1 ps rule: interpolate.induct)
  case (3 scope n ps)
  have "agree_on scope s2 n" by (simp add: 3(3))
  with 3 show ?case by (auto simp: agree_on_def split: option.splits)
qed (auto intro: agree_on_def)

lemma token_names_pieces: "set (token_names s) = {n. Inr n \<in> set (pieces s)}"
proof -
  have "set (List.map_filter (\<lambda>p. case p of Inr n \<Rightarrow> Some n | Inl _ \<Rightarrow> None) ps) = {n. Inr n \<in> set ps}"
    for ps :: "(char + string) list"
    by (induction ps) (auto simp: List.map_filter_simps split: sum.splits)
  then show ?thesis by (simp add: token_names_def)
qed

lemma whole_token_name: "whole_token s = Some n \<Longrightarrow> n \<in> set (token_names s)"
  unfolding token_names_iff whole_token_def
  by (auto split: option.splits list.splits prod.splits intro: exI [of _ "[]"])

lemma substitute_text_cong:
  assumes "\<And>n. n \<in> set (token_names s) \<Longrightarrow> agree_on s1 s2 n"
  shows "interpolate s1 (pieces s) = interpolate s2 (pieces s)"
    and "substitute_text s1 s = substitute_text s2 s"
proof -
  show i: "interpolate s1 (pieces s) = interpolate s2 (pieces s)"
    by (rule interpolate_cong) (simp add: assms token_names_pieces)
  show "substitute_text s1 s = substitute_text s2 s"
    using i assms [OF whole_token_name]
    by (auto simp: substitute_text_def agree_on_def split: option.splits)
qed

lemma substitute_cong:
  "(\<And>s n. s \<in> set (tree_strings v) \<Longrightarrow> n \<in> set (token_names s) \<Longrightarrow> agree_on s1 s2 n) \<Longrightarrow>
     substitute s1 v = substitute s2 v"
  "(\<And>s n. s \<in> set (tree_items vs) \<Longrightarrow> n \<in> set (token_names s) \<Longrightarrow> agree_on s1 s2 n) \<Longrightarrow>
     substitute_items s1 vs = substitute_items s2 vs"
  "(\<And>s n. s \<in> set (tree_fields fs) \<Longrightarrow> n \<in> set (token_names s) \<Longrightarrow> agree_on s1 s2 n) \<Longrightarrow>
     substitute_fields s1 fs out = substitute_fields s2 fs out"
proof (induction s1 v and s1 vs and s1 fs out
    rule: substitute_substitute_items_substitute_fields.induct)
  case (1 scope s)
  then show ?case by (auto intro: substitute_text_cong)
next
  case (6 scope v vs)
  have "substitute scope v = substitute s2 v" by (rule 6(1)) (auto intro!: 6(3))
  moreover have "substitute_items scope vs = substitute_items s2 vs"
    if "substitute scope v = Some (x, w)" for x w
    by (rule 6(2) [OF that refl]) (auto intro!: 6(3))
  ultimately show ?case by (auto split: option.splits)
next
  case (8 scope k v fs out)
  have k: "interpolate scope (pieces k) = interpolate s2 (pieces k)"
    by (rule substitute_text_cong) (auto intro!: 8(4))
  show ?case
  proof (cases "interpolate scope (pieces k)")
    case None
    with k show ?thesis by simp
  next
    case (Some p)
    obtain key w where p: "p = (key, w)" by force
    note key = Some [unfolded p]
    show ?thesis
    proof (cases "key \<in> set FORBIDDEN_KEYS")
      case True
      have "substitute_fields scope fs out = substitute_fields s2 fs out"
        by (rule 8(1) [OF key refl True]) (auto intro!: 8(4))
      with True key k show ?thesis by simp
    next
      case False
      have v: "substitute scope v = substitute s2 v"
        by (rule 8(2) [OF key refl False]) (auto intro!: 8(4))
      have "substitute_fields scope fs (obj_set out key x) = substitute_fields s2 fs (obj_set out key x)"
        if "substitute scope v = Some (x, w1)" for x w1
        by (rule 8(3) [OF key refl False that refl]) (auto intro!: 8(4))
      with False key k v show ?thesis by (auto split: option.splits)
    qed
  qed
qed auto

lemma token_name_nonempty: "n \<in> set (token_names s) \<Longrightarrow> n \<noteq> []"
  by (auto simp: token_names_iff token_at_def Let_def split: if_splits)

text \<open>
  What a payload holds of a row is what its template names: two rows that agree on the
  columns \<^verbatim>\<open>templateColumns\<close> reports (and have no column whose name starts with
  \<^verbatim>\<open>$\<close>) are rendered to the same body, warnings and errors, unless the template asks
  for the whole row. The template has no backslash: an escape could hide a token from the scan
  of its text.
\<close>
theorem render_uses_only_template_columns:
  assumes columns: "\<forall>c \<in> set (templateColumns (Some (tpl_template cfg))). agree_on r1 r2 c"
    and builtins: "\<forall>c. c \<noteq> [] \<and> hd c = CHR ''$'' \<longrightarrow> agree_on r1 r2 c"
    and no_row: "''$row'' \<notin> set (token_names (tpl_template cfg))"
    and plain: "char_of (92::nat) \<notin> set (tpl_template cfg)"
  shows "renderRow r1 cfg ctx = renderRow r2 cfg ctx"
proof (cases "parseTemplate (tpl_template cfg)")
  case None
  then show ?thesis by (simp add: renderRow_def)
next
  case (Some tree)
  have "agree_on (buildScope r1 cfg ctx) (buildScope r2 cfg ctx) n"
    if s: "s \<in> set (tree_strings tree)" and n: "n \<in> set (token_names s)" for s n
  proof -
    have "sublist s (tpl_template cfg)"
      using template_strings [OF Some plain] s by (simp add: occur_in_def)
    then have named: "n \<in> set (token_names (tpl_template cfg))"
      using n token_names_sublist by blast
    have "agree_on r1 r2 n"
    proof (cases "hd n = CHR ''$''")
      case True
      then show ?thesis using builtins token_name_nonempty [OF named] by blast
    next
      case False
      then show ?thesis using columns named by (simp add: templateColumns_def)
    qed
    with named no_row show ?thesis
      by (auto simp: agree_on_def buildScope_def row_get_obj_set row_has_obj_set)
  qed
  then have "substitute (buildScope r1 cfg ctx) tree = substitute (buildScope r2 cfg ctx) tree"
    by (intro substitute_cong(1)) blast
  with Some show ?thesis by (simp add: renderRow_def)
qed

definition email_config :: transform_config where
  "email_config = \<lparr>tpl_template = ''{{ email }}'', tpl_fields = None, tpl_rename = None, tpl_wrapKey = Some ''data''\<rparr>"

definition orders_context :: transform_context where
  "orders_context = \<lparr>tc_table = ''orders'', tc_now = ''2024-01-01T00:00:00.000Z'', tc_index = 0\<rparr>"

theorem render_uses_only_template_columns_witness:
  "renderRow [(''email'', JStr ''a''), (''secret'', JStr ''x'')] email_config orders_context =
     renderRow [(''email'', JStr ''a'')] email_config orders_context \<and>
   renderRow [(''email'', JStr ''a'')] email_config orders_context = Inr (JObj [(''data'', JStr ''a'')], [])"
proof
  show "renderRow [(''email'', JStr ''a''), (''secret'', JStr ''x'')] email_config orders_context =
     renderRow [(''email'', JStr ''a'')] email_config orders_context"
  proof (rule render_uses_only_template_columns)
    show "\<forall>c \<in> set (templateColumns (Some (tpl_template email_config))).
        agree_on [(''email'', JStr ''a''), (''secret'', JStr ''x'')] [(''email'', JStr ''a'')] c"
      by code_simp
    show "''$row'' \<notin> set (token_names (tpl_template email_config))" by code_simp
    show "char_of (92::nat) \<notin> set (tpl_template email_config)" by code_simp
    show "\<forall>c. c \<noteq> [] \<and> hd c = CHR ''$'' \<longrightarrow>
        agree_on [(''email'', JStr ''a''), (''secret'', JStr ''x'')] [(''email'', JStr ''a'')] c"
      by (auto simp: agree_on_def row_has_def row_get_def)
  qed
  show "renderRow [(''email'', JStr ''a'')] email_config orders_context = Inr (JObj [(''data'', JStr ''a'')], [])"
    by code_simp
qed

section \<open>A batch is its rows\<close>

lemma uniq_append: "uniq (xs @ ys) = uniq xs @ filter (\<lambda>y. y \<notin> set xs) (uniq ys)"
proof (induction xs)
  case (Cons x xs)
  have "filter (\<lambda>y. y \<noteq> x) (filter (\<lambda>y. y \<notin> set xs) (uniq ys)) = filter (\<lambda>y. y \<notin> set (x # xs)) (uniq ys)"
    unfolding filter_filter by (rule filter_cong) auto
  with Cons show ?case by simp
qed simp

lemma uniq_uniq: "uniq (uniq xs) = uniq xs"
  by (simp add: uniq_distinct)

definition bodies :: "render_result list \<Rightarrow> jsval list" where
  "bodies xs = List.map_filter (\<lambda>x. case x of Inr (b, _) \<Rightarrow> Some b | Inl _ \<Rightarrow> None) xs"

definition all_warnings :: "render_result list \<Rightarrow> string list" where
  "all_warnings xs = concat (map (\<lambda>x. case x of Inr (_, w) \<Rightarrow> w | Inl _ \<Rightarrow> []) xs)"

definition first_error :: "render_result list \<Rightarrow> render_error option" where
  "first_error xs = (case List.map_filter (\<lambda>x. case x of Inl e \<Rightarrow> Some e | Inr _ \<Rightarrow> None) xs of [] \<Rightarrow> None | e # _ \<Rightarrow> Some e)"

lemma row_list_simps [simp]:
  "bodies [] = []" "bodies (Inl e # xs) = bodies xs" "bodies (Inr (b, w) # xs) = b # bodies xs"
  "all_warnings [] = []" "all_warnings (Inr (b, w) # xs) = w @ all_warnings xs"
  "first_error [] = None" "first_error (Inl e # xs) = Some e" "first_error (Inr r # xs) = first_error xs"
  by (simp_all add: bodies_def all_warnings_def first_error_def List.map_filter_simps)

definition row_alone :: "transform_config \<Rightarrow> transform_context \<Rightarrow> int \<Rightarrow> row \<Rightarrow> render_result" where
  "row_alone cfg ctx i r = renderRow r (cfg\<lparr>tpl_wrapKey := None\<rparr>) (ctx\<lparr>tc_index := i\<rparr>)"

fun rows_alone :: "transform_config \<Rightarrow> transform_context \<Rightarrow> int \<Rightarrow> row list \<Rightarrow> render_result list" where
  "rows_alone cfg ctx i [] = []"
| "rows_alone cfg ctx i (r # rs) = row_alone cfg ctx i r # rows_alone cfg ctx (i + 1) rs"

lemma buildScope_wrap [simp]: "buildScope r (cfg\<lparr>tpl_wrapKey := k\<rparr>) ctx = buildScope r cfg ctx"
  by (simp add: buildScope_def projectRow_def)

lemma row_alone_tree:
  "parseTemplate (tpl_template cfg) = Some tree \<Longrightarrow>
   row_alone cfg ctx i r =
     (case substitute (buildScope r cfg (ctx\<lparr>tc_index := i\<rparr>)) tree of
        None \<Rightarrow> Inl Not_serializable | Some (v, w) \<Rightarrow> Inr (v, uniq w))"
  by (simp add: row_alone_def renderRow_def finish_render_def wrap_def split: option.splits)

lemma render_items_rows:
  assumes "parseTemplate (tpl_template cfg) = Some tree"
  shows "map_option (\<lambda>(xs, w). (xs, uniq w)) (render_items tree cfg (ctx\<lparr>tc_index := i\<rparr>) rs) =
    (if first_error (rows_alone cfg ctx i rs) = None
     then Some (bodies (rows_alone cfg ctx i rs), uniq (all_warnings (rows_alone cfg ctx i rs)))
     else None)"
proof (induction rs arbitrary: i)
  case (Cons r rs)
  show ?case
  proof (cases "substitute (buildScope r cfg (ctx\<lparr>tc_index := i\<rparr>)) tree")
    case None
    then show ?thesis by (simp add: row_alone_tree [OF assms])
  next
    case (Some p)
    obtain x w where p: "p = (x, w)" by force
    have IH: "map_option (\<lambda>(xs, w). (xs, uniq w)) (render_items tree cfg (ctx\<lparr>tc_index := i + 1\<rparr>) rs) =
      (if first_error (rows_alone cfg ctx (i + 1) rs) = None
       then Some (bodies (rows_alone cfg ctx (i + 1) rs), uniq (all_warnings (rows_alone cfg ctx (i + 1) rs)))
       else None)" by (rule Cons.IH)
    with Some p show ?thesis
      by (cases "render_items tree cfg (ctx\<lparr>tc_index := i + 1\<rparr>) rs")
        (auto simp: row_alone_tree [OF assms] uniq_append uniq_uniq split: if_splits)
  qed
qed simp

lemma first_error_same:
  "parseTemplate (tpl_template cfg) = Some tree \<Longrightarrow> first_error (rows_alone cfg ctx i rs) \<noteq> None \<Longrightarrow>
     first_error (rows_alone cfg ctx i rs) = Some Not_serializable"
proof (induction rs arbitrary: i)
  case (Cons r rs)
  then show ?case
    by (cases "substitute (buildScope r cfg (ctx\<lparr>tc_index := i\<rparr>)) tree") (simp_all add: row_alone_tree split: prod.splits)
qed simp

text \<open>
  A batch body is the array of the bodies its rows would have alone, each with its own
  \<^verbatim>\<open>$index\<close>, wrapped once as a whole; its warnings are the rows' warnings without
  repetition; and it fails exactly when one of the rows alone would, with that row's error.
\<close>
theorem renderBatch_is_rows:
  assumes "rs \<noteq> []"
  shows "renderBatch rs cfg startIndex ctx =
    (let rows = rows_alone cfg ctx startIndex rs
     in case first_error rows of
          Some e \<Rightarrow> Inl e
        | None \<Rightarrow> Inr (wrap (JArr (bodies rows)) cfg, uniq (all_warnings rows)))"
proof (cases "parseTemplate (tpl_template cfg)")
  case None
  then show ?thesis using assms
    by (cases rs) (simp_all add: renderBatch_def row_alone_def renderRow_def Let_def)
next
  case (Some tree)
  note items = render_items_rows [OF Some, where ctx = ctx and i = startIndex and rs = rs]
  show ?thesis
  proof (cases "first_error (rows_alone cfg ctx startIndex rs)")
    case None
    with items obtain xs w where "render_items tree cfg (ctx\<lparr>tc_index := startIndex\<rparr>) rs = Some (xs, w)"
      "xs = bodies (rows_alone cfg ctx startIndex rs)" "uniq w = uniq (all_warnings (rows_alone cfg ctx startIndex rs))"
      by (auto split: option.splits)
    with None Some show ?thesis by (simp add: renderBatch_def finish_render_def Let_def)
  next
    case (Some e)
    then have "e = Not_serializable" 
      using first_error_same [OF \<open>parseTemplate _ = Some tree\<close>, where ctx = ctx and i = startIndex and rs = rs] by simp
    moreover have "render_items tree cfg (ctx\<lparr>tc_index := startIndex\<rparr>) rs = None"
      using items Some by (simp split: option.splits)
    ultimately show ?thesis using Some \<open>parseTemplate _ = Some tree\<close>
      by (simp add: renderBatch_def finish_render_def Let_def)
  qed
qed

theorem renderBatch_is_rows_witness:
  "renderBatch [[(''email'', JStr ''a'')], [(''id'', JNull)]] email_config 7 orders_context =
     Inr (JObj [(''data'', JArr [JStr ''a'', JNull])], [''email''])"
proof -
  have "[[(''email'', JStr ''a'')], [(''id'', JNull)]] \<noteq> ([] :: row list)" by simp
  from renderBatch_is_rows [OF this, of email_config 7 orders_context]
  show ?thesis by (rule trans) code_simp
qed

section \<open>Values cannot change the shape of a payload\<close>

text \<open>
  What a rendered node may be, given its template node: a string that is one token may
  become anything, any other string a string; arrays keep their length and order, objects
  have no key that reparents them and no field the template has not, everything else stays.
\<close>

inductive fits :: "jsval \<Rightarrow> jsval \<Rightarrow> bool" where
  hole: "whole_token s \<noteq> None \<Longrightarrow> fits (JStr s) v"
| mixed: "whole_token s = None \<Longrightarrow> fits (JStr s) (JStr t)"
| array: "list_all2 fits vs xs \<Longrightarrow> fits (JArr vs) (JArr xs)"
| object: "\<forall>(k, x) \<in> set r. k \<notin> set FORBIDDEN_KEYS \<and> (\<exists>k' v. (k', v) \<in> set fs \<and> fits v x) \<Longrightarrow>
     fits (JObj fs) (JObj r)"
| atom: "tree_strings v = [] \<Longrightarrow> (\<forall>vs. v \<noteq> JArr vs) \<Longrightarrow> (\<forall>fs. v \<noteq> JObj fs) \<Longrightarrow> fits v v"

inductive_cases fits_textE: "fits (JStr s) v"

lemma substitute_fits:
  "substitute scope v = Some (x, w) \<Longrightarrow> fits v x"
  "substitute_items scope vs = Some (xs, w) \<Longrightarrow> list_all2 fits vs xs"
  "substitute_fields scope fs out = Some (r, w) \<Longrightarrow>
     (\<forall>(k, x) \<in> set out. k \<notin> set FORBIDDEN_KEYS \<and> Q x) \<Longrightarrow>
     (\<forall>(k, x) \<in> set r. k \<notin> set FORBIDDEN_KEYS \<and> (Q x \<or> (\<exists>k' v. (k', v) \<in> set fs \<and> fits v x)))"
proof (induction scope v and scope vs and scope fs out arbitrary: x w and xs w and r w Q
    rule: substitute_substitute_items_substitute_fields.induct)
  case (1 scope s)
  then show ?case
    by (cases "whole_token s") (auto simp: substitute_text_def intro: fits.intros)
next
  case (3 scope fs)
  then obtain r where r: "substitute_fields scope fs [] = Some (r, w)" "x = JObj r" by auto
  with 3(1) [of r w "\<lambda>_. False"] show ?case by (auto intro!: fits.object)
next
  case (8 scope k v fs out)
  then obtain key w0 where key: "interpolate scope (pieces k) = Some (key, w0)"
    by (auto split: option.splits)
  show ?case
  proof (cases "key \<in> set FORBIDDEN_KEYS")
    case True
    with 8(4) key obtain w' where "substitute_fields scope fs out = Some (r, w')" by auto
    from 8(1) [OF key refl True this 8(5)] show ?thesis by (simp add: case_prod_beta) blast
  next
    case False
    with 8(4) key obtain y w1 where y: "substitute scope v = Some (y, w1)" by (auto split: option.splits)
    with False 8(4) key obtain w' where w': "substitute_fields scope fs (obj_set out key y) = Some (r, w')"
      by auto
    have "fits v y" by (rule 8(2) [OF key refl False y])
    have "\<forall>(k, x) \<in> set (obj_set out key y). k \<notin> set FORBIDDEN_KEYS \<and> (Q x \<or> fits v x)"
      using obj_set_entries [of out key y] 8(5) False \<open>fits v y\<close> by auto
    from 8(3) [OF key refl False y refl w' this] show ?thesis by (simp add: case_prod_beta) blast
  qed
qed (auto intro: fits.intros split: option.splits)



end
