(* ===== verification/Column_Transforms.thy ===== *)
theory Column_Transforms
  imports Template
begin

text \<open>
  Column transforms, \<^verbatim>\<open>packages/core/src/bridges/column-transforms.ts\<close>, and their
  use on whole batches, \<^verbatim>\<open>apps/api/src/bridges/row-shaping.ts\<close>: what happens to a row's
  values between being read and being delivered. SHA-256 is not under \<^verbatim>\<open>src/\<close>: it is
  the function \<open>ct_hash\<close> of the context. \<open>None\<close> is an exception thrown on a value with
  no text (an invalid date, a bigint inside an object). No column is called
  \<^verbatim>\<open>__proto__\<close>.
\<close>

section \<open>Configuration\<close>

datatype mask_mode = Redact | Partial | Hash_value | Mask_null
datatype cast_type = To_string | To_number | To_integer | To_boolean | To_date | To_json
datatype cast_policy = Cast_fail | Cast_null | Cast_keep
datatype text_op = Trim_text | Lower_text | Upper_text

record mask_spec =
  mk_mode :: mask_mode
  mk_keepStart :: nat
  mk_keepEnd :: nat
  mk_fill :: string
  mk_salt :: "string option"

datatype column_transform =
    Mask (tf_column: string) mask_spec
  | Cast (tf_column: string) cast_type cast_policy
  | Text_step (tf_column: string) text_op
  | Default_step (tf_column: string) jsval
  | Set_step (tf_column: string) string

record column_transform_context =
  ct_host :: host
  ct_table :: string
  ct_now :: string
  ct_hash :: "string \<Rightarrow> string"
  ct_keysOnly :: bool

record column_transform_result =
  cr_row :: row
  cr_warnings :: "string list"
  cr_errors :: "string list"

section \<open>Values as text\<close>

definition isMarker :: "jsval \<Rightarrow> bool" where
  "isMarker v = (v = JUnchanged)"

definition ct_text :: "jsval \<Rightarrow> string option" where
  "ct_text v =
     (if is_nil v then Some []
      else case v of
             JStr s \<Rightarrow> Some s
           | JDate d \<Rightarrow> map_option to_iso_string d
           | _ \<Rightarrow> stringify_value v)"

section \<open>Mask\<close>

text \<open>\<^verbatim>\<open>fill.repeat(n).slice(0, n)\<close>\<close>

definition fill_to :: "string \<Rightarrow> nat \<Rightarrow> string" where
  "fill_to fill n = take n (concat (replicate n fill))"

definition mask_value :: "jsval \<Rightarrow> mask_spec \<Rightarrow> column_transform_context \<Rightarrow> jsval option" where
  "mask_value v t ctx =
     (if is_nil v then Some v
      else if mk_mode t = Mask_null then Some JNull
      else
        map_option (\<lambda>s. JStr
          (case mk_mode t of
             Hash_value \<Rightarrow> ct_hash ctx ((case mk_salt t of None \<Rightarrow> [] | Some x \<Rightarrow> x) @ s)
           | Redact \<Rightarrow> fill_to (mk_fill t) 8
           | _ \<Rightarrow>
               (let n = mk_keepStart t + mk_keepEnd t
                in if length s \<le> n then fill_to (mk_fill t) (max 1 (length s))
                   else take (mk_keepStart t) s @ fill_to (mk_fill t) (length s - n) @
                        drop (length s - mk_keepEnd t) s))) (ct_text v))"

section \<open>Cast\<close>

definition TRUE_TEXTS :: "string list" where
  "TRUE_TEXTS = [''true'', ''t'', ''yes'', ''y'', ''1'', ''on'']"

definition FALSE_TEXTS :: "string list" where
  "FALSE_TEXTS = [''false'', ''f'', ''no'', ''n'', ''0'', ''off'', '''']"

datatype cast_outcome = Cast_ok jsval | Cast_failed

definition math_trunc :: "rat \<Rightarrow> int" where
  "math_trunc q = (if q < 0 then \<lceil>q\<rceil> else \<lfloor>q\<rfloor>)"

text \<open>\<^verbatim>\<open>new Date(number)\<close>: truncated, and invalid more than 8.64e15 ms away.\<close>

definition time_clip :: "jsnum \<Rightarrow> int option" where
  "time_clip n =
     (case n of
        Num q \<Rightarrow> if \<bar>q\<bar> \<le> 8640000000000000 then Some (math_trunc q) else None
      | _ \<Rightarrow> None)"

definition epoch_ms :: "jsnum \<Rightarrow> jsnum" where
  "epoch_ms n = (case n of Num q \<Rightarrow> if \<bar>q\<bar> < 100000000000 then round64 (q * 1000) else n | _ \<Rightarrow> n)"

fun number_outcome :: "bool \<Rightarrow> jsnum \<Rightarrow> string \<Rightarrow> cast_outcome" where
  "number_outcome integer (Num q) t =
     (if trim t = [] then Cast_failed
      else Cast_ok (JNum (Num (if integer then of_int (math_trunc q) else q))))"
| "number_outcome integer _ t = Cast_failed"

definition cast_number :: "jsval \<Rightarrow> bool \<Rightarrow> cast_outcome option" where
  "cast_number v integer =
     (case v of
        JBool b \<Rightarrow> Some (Cast_ok (JNum (Num (if b then 1 else 0))))
      | JBigInt i \<Rightarrow> Some (Cast_ok v)
      | JNum n \<Rightarrow> map_option (number_outcome integer n) (ct_text v)
      | _ \<Rightarrow> map_option (\<lambda>t. number_outcome integer (js_number_of_string (trim t)) t) (ct_text v))"

definition cast_boolean :: "jsval \<Rightarrow> cast_outcome option" where
  "cast_boolean v =
     (case v of
        JBool b \<Rightarrow> Some (Cast_ok v)
      | JNum n \<Rightarrow> Some (Cast_ok (JBool (n \<noteq> Num 0)))
      | _ \<Rightarrow>
          map_option (\<lambda>t. let s = to_lower (trim t) in
            if s \<in> set TRUE_TEXTS then Cast_ok (JBool True)
            else if s \<in> set FALSE_TEXTS then Cast_ok (JBool False) else Cast_failed) (ct_text v))"

definition date_outcome :: "int option \<Rightarrow> cast_outcome" where
  "date_outcome d = (case d of None \<Rightarrow> Cast_failed | Some ms \<Rightarrow> Cast_ok (JStr (to_iso_string ms)))"

definition cast_date :: "host \<Rightarrow> jsval \<Rightarrow> cast_outcome option" where
  "cast_date h v =
     (case v of
        JDate d \<Rightarrow> Some (date_outcome d)
      | JNum n \<Rightarrow> Some (date_outcome (time_clip (epoch_ms n)))
      | _ \<Rightarrow> map_option (\<lambda>t. date_outcome (date_parse h (trim t))) (ct_text v))"

definition cast_json :: "jsval \<Rightarrow> cast_outcome option" where
  "cast_json v =
     Some (case v of
        JStr s \<Rightarrow> (case json_parse s of Some x \<Rightarrow> Cast_ok x | None \<Rightarrow> Cast_failed)
      | _ \<Rightarrow> Cast_ok v)"

definition cast_value :: "host \<Rightarrow> jsval \<Rightarrow> cast_type \<Rightarrow> cast_outcome option" where
  "cast_value h v to =
     (if is_nil v then Some (Cast_ok v)
      else case to of
             To_string \<Rightarrow> map_option (\<lambda>t. Cast_ok (JStr t)) (ct_text v)
           | To_number \<Rightarrow> cast_number v False
           | To_integer \<Rightarrow> cast_number v True
           | To_boolean \<Rightarrow> cast_boolean v
           | To_date \<Rightarrow> cast_date h v
           | To_json \<Rightarrow> cast_json v)"

fun cast_name :: "cast_type \<Rightarrow> string" where
  "cast_name To_string = ''string''" | "cast_name To_number = ''number''"
| "cast_name To_integer = ''integer''" | "cast_name To_boolean = ''boolean''"
| "cast_name To_date = ''date''" | "cast_name To_json = ''json''"

section \<open>Set\<close>

fun set_text :: "string \<Rightarrow> row \<Rightarrow> (char + string) list \<Rightarrow> (string \<times> string list) option" where
  "set_text col scope [] = Some ([], [])"
| "set_text col scope (Inl c # ps) = map_option (\<lambda>(t, w). (c # t, w)) (set_text col scope ps)"
| "set_text col scope (Inr n # ps) =
     (if row_has scope n \<and> \<not> isMarker (row_get scope n) then
        (case ct_text (row_get scope n) of
           None \<Rightarrow> None
         | Some x \<Rightarrow> map_option (\<lambda>(t, w). (x @ t, w)) (set_text col scope ps))
      else map_option (\<lambda>(t, w). (t, (''set '' @ col @ '': no column '' @ json_quote n) # w)) (set_text col scope ps))"

section \<open>The steps\<close>

text \<open>One step of the \<^verbatim>\<open>for\<close> loop.\<close>

definition put_column :: "column_transform_result \<Rightarrow> string \<Rightarrow> jsval \<Rightarrow> column_transform_result" where
  "put_column st c v = st\<lparr>cr_row := obj_set (cr_row st) c v\<rparr>"

definition cast_problem :: "string \<Rightarrow> string \<Rightarrow> cast_type \<Rightarrow> string" where
  "cast_problem c t to = ''cast '' @ c @ '': '' @ json_quote (take 40 t) @ '' is not a '' @ cast_name to"

definition cast_step ::
  "string \<Rightarrow> cast_type \<Rightarrow> cast_policy \<Rightarrow> column_transform_context \<Rightarrow> column_transform_result \<Rightarrow>
     column_transform_result option" where
  "cast_step c to policy ctx st =
     (case cast_value (ct_host ctx) (row_get (cr_row st) c) to of
        None \<Rightarrow> None
      | Some (Cast_ok v) \<Rightarrow> Some (put_column st c v)
      | Some Cast_failed \<Rightarrow>
          (case ct_text (row_get (cr_row st) c) of
             None \<Rightarrow> None
           | Some t \<Rightarrow>
               (let problem = cast_problem c t to
                in Some (case policy of
                     Cast_fail \<Rightarrow> st\<lparr>cr_errors := cr_errors st @ [problem]\<rparr>
                   | Cast_null \<Rightarrow>
                       put_column (st\<lparr>cr_warnings := cr_warnings st @ [problem @ ''; written as NULL'']\<rparr>) c JNull
                   | Cast_keep \<Rightarrow>
                       st\<lparr>cr_warnings := cr_warnings st @ [problem @ ''; left as it was'']\<rparr>))))"

definition set_step ::
  "string \<Rightarrow> string \<Rightarrow> column_transform_context \<Rightarrow> column_transform_result \<Rightarrow>
     column_transform_result option" where
  "set_step c template ctx st =
     (if c \<in> set FORBIDDEN_KEYS then Some st
      else
        (let scope = obj_set (obj_set (cr_row st) ''$now'' (JStr (ct_now ctx))) ''$table'' (JStr (ct_table ctx));
             typed = (case whole_token template of
                        None \<Rightarrow> None
                      | Some n \<Rightarrow> if row_has scope n \<and> \<not> isMarker (row_get scope n)
                                  then Some (row_get scope n) else None)
         in case typed of
              Some v \<Rightarrow> Some (put_column st c v)
            | None \<Rightarrow>
                map_option (\<lambda>(t, w). put_column (st\<lparr>cr_warnings := cr_warnings st @ w\<rparr>) c (JStr t))
                  (set_text c scope (pieces template))))"

definition text_change :: "text_op \<Rightarrow> string \<Rightarrow> string" where
  "text_change op s = (case op of Trim_text \<Rightarrow> trim s | Lower_text \<Rightarrow> to_lower s | Upper_text \<Rightarrow> to_upper s)"

definition apply_step ::
  "column_transform_context \<Rightarrow> column_transform \<Rightarrow> column_transform_result \<Rightarrow>
     column_transform_result option" where
  "apply_step ctx t st =
     (let c = tf_column t; v = row_get (cr_row st) c; present = row_has (cr_row st) c
      in if present \<and> isMarker v then Some st
         else
           (case t of
              Mask _ m \<Rightarrow> if present then map_option (put_column st c) (mask_value v m ctx) else Some st
            | Text_step _ op \<Rightarrow>
                Some (case v of JStr s \<Rightarrow> if present then put_column st c (JStr (text_change op s)) else st
                      | _ \<Rightarrow> st)
            | Cast _ to policy \<Rightarrow> if present then cast_step c to policy ctx st else Some st
            | Default_step _ d \<Rightarrow>
                Some (if ct_keysOnly ctx then st
                      else if \<not> present \<or> is_nil v then put_column st c d else st)
            | Set_step _ template \<Rightarrow> if ct_keysOnly ctx then Some st else set_step c template ctx st))"

fun apply_steps ::
  "column_transform_context \<Rightarrow> column_transform list \<Rightarrow> column_transform_result \<Rightarrow>
     column_transform_result option" where
  "apply_steps ctx [] st = Some st"
| "apply_steps ctx (t # ts) st =
     (case apply_step ctx t st of None \<Rightarrow> None | Some st' \<Rightarrow> apply_steps ctx ts st')"

definition applyColumnTransforms ::
  "row \<Rightarrow> column_transform list option \<Rightarrow> column_transform_context \<Rightarrow> column_transform_result option"
where
  "applyColumnTransforms r ts ctx =
     apply_steps ctx (case ts of None \<Rightarrow> [] | Some xs \<Rightarrow> xs)
       \<lparr>cr_row = r, cr_warnings = [], cr_errors = []\<rparr>"

section \<open>What the steps read, add and make of a column\<close>

definition step_reads :: "column_transform \<Rightarrow> string list" where
  "step_reads t = (case t of
     Set_step _ template \<Rightarrow> filter (\<lambda>n. hd n \<noteq> CHR ''$'') (token_names template)
   | _ \<Rightarrow> [tf_column t])"

definition columnsRead :: "column_transform list \<Rightarrow> string list" where
  "columnsRead ts = uniq (concat (map step_reads ts))"

fun adds_column :: "column_transform \<Rightarrow> bool" where
  "adds_column (Set_step _ _) = True"
| "adds_column (Default_step _ _) = True"
| "adds_column _ = False"

fun columnsAdded :: "column_transform list \<Rightarrow> string list \<Rightarrow> string list" where
  "columnsAdded [] known = []"
| "columnsAdded (t # ts) known =
     (if adds_column t \<and> tf_column t \<notin> set known
      then tf_column t # columnsAdded ts (tf_column t # known)
      else columnsAdded ts known)"

datatype planned = Has_type string | Copy_of string

fun cast_target :: "cast_type \<Rightarrow> string" where
  "cast_target To_string = ''text''" | "cast_target To_number = ''double precision''"
| "cast_target To_integer = ''bigint''" | "cast_target To_boolean = ''boolean''"
| "cast_target To_date = ''timestamptz''" | "cast_target To_json = ''jsonb''"

fun plan_step :: "column_transform \<Rightarrow> (string \<rightharpoonup> planned) \<Rightarrow> (string \<rightharpoonup> planned)" where
  "plan_step (Mask c m) p = (if mk_mode m \<noteq> Mask_null then p(c \<mapsto> Has_type ''text'') else p)"
| "plan_step (Cast c to _) p = p(c \<mapsto> Has_type (cast_target to))"
| "plan_step (Set_step c template) p =
     (case whole_token template of
        None \<Rightarrow> p(c \<mapsto> Has_type ''text'')
      | Some origin \<Rightarrow>
          (if hd origin = CHR ''$'' then p(c \<mapsto> Has_type ''text'')
           else p(c \<mapsto> (case p origin of None \<Rightarrow> Copy_of origin | Some x \<Rightarrow> x))))"
| "plan_step _ p = p"

definition plan :: "column_transform list \<Rightarrow> (string \<rightharpoonup> planned)" where
  "plan ts = fold plan_step ts (\<lambda>_. None)"

definition transformedType :: "column_transform list \<Rightarrow> string \<Rightarrow> string option" where
  "transformedType ts c = (case plan ts c of Some (Has_type t) \<Rightarrow> Some t | _ \<Rightarrow> None)"

definition copiedColumn :: "column_transform list \<Rightarrow> string \<Rightarrow> string option" where
  "copiedColumn ts c = (case plan ts c of Some (Copy_of o') \<Rightarrow> Some o' | _ \<Rightarrow> None)"

fun step_nulls :: "column_transform \<Rightarrow> bool" where
  "step_nulls (Mask _ m) = (mk_mode m = Mask_null)"
| "step_nulls (Cast _ _ policy) = (policy = Cast_null)"
| "step_nulls _ = False"

definition canBecomeNull :: "column_transform list \<Rightarrow> string \<Rightarrow> bool" where
  "canBecomeNull ts c = list_ex (\<lambda>t. tf_column t = c \<and> step_nulls t) ts"

section \<open>Shaping the rows of a batch\<close>

datatype cdc_operation = Op_insert | Op_update | Op_delete | Op_truncate

record shaped_rows =
  sh_rows :: "row list"
  sh_warnings :: "string list"
  sh_errors :: "string list"

fun shape_each ::
  "column_transform list \<Rightarrow> column_transform_context \<Rightarrow> row list \<Rightarrow> shaped_rows option" where
  "shape_each ts ctx [] = Some \<lparr>sh_rows = [], sh_warnings = [], sh_errors = []\<rparr>"
| "shape_each ts ctx (r # rs) =
     (case applyColumnTransforms r (Some ts) ctx of
        None \<Rightarrow> None
      | Some x \<Rightarrow>
          map_option (\<lambda>s. \<lparr>sh_rows = cr_row x # sh_rows s, sh_warnings = cr_warnings x @ sh_warnings s,
                           sh_errors = cr_errors x @ sh_errors s\<rparr>) (shape_each ts ctx rs))"

definition shapeRows ::
  "host \<Rightarrow> (string \<Rightarrow> string) \<Rightarrow> column_transform list option \<Rightarrow> row list \<Rightarrow> string \<Rightarrow> string \<Rightarrow>
     cdc_operation option \<Rightarrow> shaped_rows option" where
  "shapeRows h sha256 transforms rs table now op =
     (let ts = (case transforms of None \<Rightarrow> [] | Some xs \<Rightarrow> xs)
      in if ts = [] \<or> op = Some Op_truncate
         then Some \<lparr>sh_rows = rs, sh_warnings = [], sh_errors = []\<rparr>
         else
           map_option (\<lambda>s. s\<lparr>sh_warnings := uniq (sh_warnings s), sh_errors := uniq (sh_errors s)\<rparr>)
             (shape_each ts \<lparr>ct_host = h, ct_table = table, ct_now = now, ct_hash = sha256,
                             ct_keysOnly = (op = Some Op_delete)\<rparr> rs))"

section \<open>What a step touches\<close>

lemma put_column_row [simp]: "cr_row (put_column st c v) = obj_set (cr_row st) c v"
  "cr_warnings (put_column st c v) = cr_warnings st" "cr_errors (put_column st c v) = cr_errors st"
  by (simp_all add: put_column_def)

lemma row_at_simps [simp]:
  "row_get (obj_set r k v) c = (if c = k then v else row_get r c)"
  "row_has (obj_set r k v) c = (c = k \<or> row_has r c)"
  by (simp_all add: row_get_obj_set row_has_obj_set)

lemma cast_step_frame:
  "cast_step c to policy ctx st = Some st' \<Longrightarrow> row_has (cr_row st) c \<Longrightarrow>
     (\<forall>d. d \<noteq> c \<longrightarrow> row_get (cr_row st') d = row_get (cr_row st) d) \<and>
     (\<forall>d. row_has (cr_row st') d = row_has (cr_row st) d)"
  by (auto simp: cast_step_def Let_def split: option.splits cast_outcome.splits cast_policy.splits)

lemma set_step_frame:
  "set_step c tpl ctx st = Some st' \<Longrightarrow>
     (\<forall>d. d \<noteq> c \<longrightarrow> row_get (cr_row st') d = row_get (cr_row st) d \<and> row_has (cr_row st') d = row_has (cr_row st) d)"
  by (auto simp: set_step_def Let_def split: option.splits if_splits)

lemma apply_step_frame:
  assumes "apply_step ctx t st = Some st'" and "d \<noteq> tf_column t"
  shows "row_get (cr_row st') d = row_get (cr_row st) d \<and> row_has (cr_row st') d = row_has (cr_row st) d"
proof (cases t)
  case (Cast c to policy)
  with assms cast_step_frame [of c to policy ctx st st'] show ?thesis
    by (auto simp: apply_step_def Let_def split: if_splits)
next
  case (Set_step c tpl)
  with assms set_step_frame [of c tpl ctx st st'] show ?thesis
    by (auto simp: apply_step_def Let_def split: if_splits)
qed (use assms in \<open>auto simp: apply_step_def Let_def split: if_splits jsval.splits\<close>)

lemma apply_steps_frame:
  "apply_steps ctx ts st = Some st' \<Longrightarrow> d \<notin> tf_column ` set ts \<Longrightarrow>
     row_get (cr_row st') d = row_get (cr_row st) d \<and> row_has (cr_row st') d = row_has (cr_row st) d"
proof (induction ctx ts st rule: apply_steps.induct)
  case (2 ctx t ts st)
  then obtain st1 where st1: "apply_step ctx t st = Some st1" by (auto split: option.splits)
  with 2 have "row_get (cr_row st') d = row_get (cr_row st1) d \<and> row_has (cr_row st') d = row_has (cr_row st1) d"
    by auto
  moreover have "d \<noteq> tf_column t" using 2(3) by auto
  ultimately show ?case using apply_step_frame [OF st1] by simp
qed simp

text \<open>
  Transforms touch only the columns their steps name: every other column keeps its value,
  and is there exactly when it was.
\<close>
theorem transforms_touch_only_their_columns:
  assumes "applyColumnTransforms r (Some ts) ctx = Some out" and "d \<notin> tf_column ` set ts"
  shows "row_get (cr_row out) d = row_get r d \<and> row_has (cr_row out) d = row_has r d"
  using assms apply_steps_frame [of ctx ts _ out d] by (fastforce simp: applyColumnTransforms_def)

definition sample_context :: column_transform_context where
  "sample_context = \<lparr>ct_host = no_host, ct_table = ''users'', ct_now = ''2024-01-01T00:00:00.000Z'',
     ct_hash = (\<lambda>s. ''#'' @ s), ct_keysOnly = False\<rparr>"

definition sample_mask :: mask_spec where
  "sample_mask = \<lparr>mk_mode = Partial, mk_keepStart = 1, mk_keepEnd = 2, mk_fill = ''*'', mk_salt = None\<rparr>"

definition sample_row :: row where
  "sample_row = [(''id'', JNum (Num 7)), (''mail'', JStr ''a@b.io''), (''age'', JStr '' 41 ''), (''big'', JUnchanged)]"

definition sample_steps :: "column_transform list" where
  "sample_steps = [Mask ''mail'' sample_mask, Cast ''age'' To_integer Cast_fail, Set_step ''copy'' ''{{age}}'',
     Text_step ''big'' Upper_text, Default_step ''note'' JNull, Set_step ''label'' ''{{id}}/{{$table}}'']"

lemma sample_result:
  "applyColumnTransforms sample_row (Some sample_steps) sample_context =
     Some \<lparr>cr_row = [(''id'', JNum (Num 7)), (''mail'', JStr ''a***io''), (''age'', JNum (Num 41)),
       (''big'', JUnchanged), (''copy'', JNum (Num 41)), (''note'', JNull), (''label'', JStr ''7/users'')],
       cr_warnings = [], cr_errors = []\<rparr>"
  by code_simp

theorem transforms_touch_only_their_columns_witness:
  "row_get [(''id'', JNum (Num 7)), (''mail'', JStr ''a***io''), (''age'', JNum (Num 41)),
       (''big'', JUnchanged), (''copy'', JNum (Num 41)), (''note'', JNull), (''label'', JStr ''7/users'')] ''id''
     = JNum (Num 7)"
proof -
  have "''id'' \<notin> tf_column ` set sample_steps" by (simp add: sample_steps_def)
  from transforms_touch_only_their_columns [OF sample_result this]
  show ?thesis by (simp add: sample_row_def row_get_def)
qed

lemma apply_step_marker:
  assumes "apply_step ctx t st = Some st'" and "row_has (cr_row st) c" and "row_get (cr_row st) c = JUnchanged"
  shows "row_has (cr_row st') c \<and> row_get (cr_row st') c = JUnchanged"
proof (cases "tf_column t = c")
  case True
  with assms have "st' = st" by (simp add: apply_step_def Let_def isMarker_def)
  with assms show ?thesis by simp
next
  case False
  with apply_step_frame [OF assms(1), of c] assms show ?thesis by auto
qed

lemma apply_steps_marker:
  "apply_steps ctx ts st = Some st' \<Longrightarrow> row_has (cr_row st) c \<Longrightarrow> row_get (cr_row st) c = JUnchanged \<Longrightarrow>
     row_has (cr_row st') c \<and> row_get (cr_row st') c = JUnchanged"
proof (induction ctx ts st rule: apply_steps.induct)
  case (2 ctx t ts st)
  then show ?case by (auto split: option.splits dest: apply_step_marker)
qed simp

text \<open>
  A column the change did not carry is still marked so after any transforms: no step reads
  a value into it, so the destination's copy is left alone.
\<close>
theorem unchanged_columns_pass_through:
  assumes "applyColumnTransforms r (Some ts) ctx = Some out"
    and "row_has r c" and "row_get r c = JUnchanged"
  shows "row_has (cr_row out) c \<and> row_get (cr_row out) c = JUnchanged"
  using assms apply_steps_marker [of ctx ts _ out c] by (fastforce simp: applyColumnTransforms_def)

theorem unchanged_columns_pass_through_witness:
  "row_get [(''id'', JNum (Num 7)), (''mail'', JStr ''a***io''), (''age'', JNum (Num 41)),
       (''big'', JUnchanged), (''copy'', JNum (Num 41)), (''note'', JNull), (''label'', JStr ''7/users'')] ''big''
     = JUnchanged"
proof -
  have "row_has sample_row ''big''" "row_get sample_row ''big'' = JUnchanged" by code_simp+
  from unchanged_columns_pass_through [OF sample_result this] show ?thesis by simp
qed

lemma apply_step_keys:
  assumes "apply_step ctx t st = Some st'" and "ct_keysOnly ctx"
  shows "row_has (cr_row st') c = row_has (cr_row st) c"
proof (cases t)
  case (Cast d to policy)
  with assms cast_step_frame [of d to policy ctx st st'] show ?thesis
    by (auto simp: apply_step_def Let_def split: if_splits)
qed (use assms in \<open>auto simp: apply_step_def Let_def split: if_splits jsval.splits\<close>)

lemma apply_steps_keys:
  "apply_steps ctx ts st = Some st' \<Longrightarrow> ct_keysOnly ctx \<Longrightarrow> row_has (cr_row st') c = row_has (cr_row st) c"
proof (induction ctx ts st rule: apply_steps.induct)
  case (2 ctx t ts st)
  then show ?case by (auto split: option.splits simp: apply_step_keys)
qed simp

lemma shape_each_keys:
  "shape_each ts ctx rs = Some out \<Longrightarrow> ct_keysOnly ctx \<Longrightarrow>
     list_all2 (\<lambda>r r'. \<forall>c. row_has r' c = row_has r c) rs (sh_rows out)"
proof (induction ts ctx rs arbitrary: out rule: shape_each.induct)
  case (2 ts ctx r rs)
  then obtain x s where x: "applyColumnTransforms r (Some ts) ctx = Some x" and s: "shape_each ts ctx rs = Some s"
    and out: "sh_rows out = cr_row x # sh_rows s"
    by (auto split: option.splits)
  have "\<forall>c. row_has (cr_row x) c = row_has r c"
    using apply_steps_keys [of ctx ts "\<lparr>cr_row = r, cr_warnings = [], cr_errors = []\<rparr>" x] x 2(3)
    by (simp add: applyColumnTransforms_def)
  with 2(1) [OF x s 2(3)] out show ?case by simp
qed simp

text \<open>
  Nothing is invented for a row that is being removed: shaping a batch of deletes computes no
  column and fills no default, so each row keeps exactly the columns it had, in the order of
  the batch.
\<close>
theorem delete_rows_gain_no_column:
  assumes "shapeRows h sha256 ts rs table now (Some Op_delete) = Some out"
  shows "list_all2 (\<lambda>r r'. \<forall>c. row_has r' c = row_has r c) rs (sh_rows out)"
proof (cases "(case ts of None \<Rightarrow> [] | Some xs \<Rightarrow> xs) = []")
  case True
  with assms show ?thesis by (auto simp: shapeRows_def Let_def list_all2_same)
next
  case False
  with assms obtain s where "shape_each (case ts of None \<Rightarrow> [] | Some xs \<Rightarrow> xs)
      \<lparr>ct_host = h, ct_table = table, ct_now = now, ct_hash = sha256, ct_keysOnly = True\<rparr> rs = Some s"
    and "sh_rows out = sh_rows s"
    by (auto simp: shapeRows_def Let_def split: option.splits)
  with shape_each_keys [of _ _ rs s] show ?thesis by auto
qed

theorem delete_rows_gain_no_column_witness:
  "list_all2 (\<lambda>r r'. \<forall>c. row_has r' c = row_has r c) [[(''mail'', JStr ''a@b.io'')]] [[(''mail'', JStr ''a***io'')]]"
proof -
  have "shapeRows no_host (\<lambda>s. s) (Some [Mask ''mail'' sample_mask, Set_step ''label'' ''x'']) [[(''mail'', JStr ''a@b.io'')]]
      ''users'' '''' (Some Op_delete)
    = Some \<lparr>sh_rows = [[(''mail'', JStr ''a***io'')]], sh_warnings = [], sh_errors = []\<rparr>"
    by code_simp
  from delete_rows_gain_no_column [OF this] show ?thesis by simp
qed

section \<open>The planned type of a column is the type its values have\<close>

definition value_fits :: "string \<Rightarrow> jsval \<Rightarrow> bool" where
  "value_fits ty v =
     (if is_nil v \<or> v = JUnchanged then True
      else if ty = ''text'' \<or> ty = ''timestamptz'' then (case v of JStr s \<Rightarrow> True | _ \<Rightarrow> False)
      else if ty = ''boolean'' then (case v of JBool b \<Rightarrow> True | _ \<Rightarrow> False)
      else if ty = ''bigint'' then
        (case v of JBigInt i \<Rightarrow> True | JNum (Num q) \<Rightarrow> of_int \<lfloor>q\<rfloor> = q | _ \<Rightarrow> False)
      else if ty = ''double precision'' then
        (case v of JBigInt i \<Rightarrow> True | JNum (Num q) \<Rightarrow> True | _ \<Rightarrow> False)
      else True)"

lemma value_fits_nil [simp]: "value_fits ty JNull" "value_fits ty JUndefined" "value_fits ty JUnchanged"
  by (simp_all add: value_fits_def)

lemma value_fits_text: "value_fits ''text'' (JStr s)" "value_fits ''timestamptz'' (JStr s)"
  by (simp_all add: value_fits_def)

lemma text_keeps_fit: "value_fits ty (JStr s) \<Longrightarrow> value_fits ty (JStr s')"
  by (auto simp: value_fits_def split: if_splits)

lemma mask_value_fits: "mask_value v m ctx = Some x \<Longrightarrow> mk_mode m \<noteq> Mask_null \<Longrightarrow> value_fits ''text'' x"
  by (auto simp: mask_value_def value_fits_def split: if_splits)

lemma math_trunc_integral: "of_int \<lfloor>of_int (math_trunc q) :: rat\<rfloor> = (of_int (math_trunc q) :: rat)"
  by simp

lemma number_outcome_fits:
  "number_outcome i n t = Cast_ok x \<Longrightarrow> value_fits (if i then ''bigint'' else ''double precision'') x"
  by (cases n) (auto simp: value_fits_def split: if_splits)

lemma cast_number_fits:
  "cast_number v i = Some (Cast_ok x) \<Longrightarrow> value_fits (if i then ''bigint'' else ''double precision'') x"
proof (cases v)
  case (JBool b)
  then show "cast_number v i = Some (Cast_ok x) \<Longrightarrow> ?thesis" by (cases b) (auto simp: cast_number_def value_fits_def)
next
  case (JBigInt b)
  then show "cast_number v i = Some (Cast_ok x) \<Longrightarrow> ?thesis" by (auto simp: cast_number_def value_fits_def)
qed (auto simp: cast_number_def dest: number_outcome_fits)

lemma cast_boolean_fits: "cast_boolean v = Some (Cast_ok x) \<Longrightarrow> value_fits ''boolean'' x"
  by (auto simp: cast_boolean_def value_fits_def Let_def split: jsval.splits if_splits)

lemma cast_date_fits: "cast_date h v = Some (Cast_ok x) \<Longrightarrow> value_fits ''timestamptz'' x"
  by (auto simp: cast_date_def date_outcome_def value_fits_def split: jsval.splits option.splits)

lemma cast_value_fits:
  assumes "cast_value h v to = Some (Cast_ok x)"
  shows "value_fits (cast_target to) x"
proof (cases "is_nil v")
  case True
  with assms show ?thesis by (auto simp: cast_value_def is_nil_def)
next
  case False
  with assms show ?thesis
    using cast_number_fits [of v False x] cast_number_fits [of v True x] cast_boolean_fits [of v x]
      cast_date_fits [of h v x] value_fits_text
    by (cases to) (auto simp: cast_value_def, simp add: value_fits_def)
qed

text \<open>
  The hypotheses: the row is not a delete's, no column is one of the three forbidden names or
  starts with \<^verbatim>\<open>$\<close>, and no step fills a default (which may be of any type).
\<close>

definition plain_column :: "string \<Rightarrow> bool" where
  "plain_column c = (c \<noteq> [] \<and> hd c \<noteq> CHR ''$'' \<and> c \<notin> set FORBIDDEN_KEYS)"

fun typed_step :: "column_transform \<Rightarrow> bool" where
  "typed_step (Default_step c v) = False"
| "typed_step t = plain_column (tf_column t)"

definition well_typed :: "(string \<rightharpoonup> planned) \<Rightarrow> row \<Rightarrow> bool" where
  "well_typed p r =
     ((\<forall>c ty. p c = Some (Has_type ty) \<longrightarrow> value_fits ty (row_get r c)) \<and>
      (\<forall>c. row_has r c \<longrightarrow> c = [] \<or> hd c \<noteq> CHR ''$''))"

lemma set_text_clean:
  "set_text c scope ps = Some (t, []) \<Longrightarrow> Inr n \<in> set ps \<Longrightarrow> row_has scope n \<and> \<not> isMarker (row_get scope n)"
  by (induction c scope ps arbitrary: t rule: set_text.induct) (auto split: if_splits option.splits)

lemma whole_token_pieces: "whole_token s = Some n \<Longrightarrow> Inr n \<in> set (pieces s)"
  by (subst pieces.simps) (auto simp: whole_token_def split: option.splits list.splits)

lemma set_step_fits:
  assumes st: "set_step c tpl ctx st = Some st'" and c: "plain_column c"
    and quiet: "cr_warnings st' = cr_warnings st" and wt: "well_typed p (cr_row st)"
  shows "well_typed (plan_step (Set_step c tpl) p) (cr_row st')"
proof -
  let ?scope = "obj_set (obj_set (cr_row st) ''$now'' (JStr (ct_now ctx))) ''$table'' (JStr (ct_table ctx))"
  have c': "c \<notin> set FORBIDDEN_KEYS" "c \<noteq> []" "hd c \<noteq> CHR ''$''" using c by (auto simp: plain_column_def)
  show ?thesis
  proof (cases "\<exists>n. whole_token tpl = Some n \<and> row_has ?scope n \<and> \<not> isMarker (row_get ?scope n)")
    case True
    then obtain n where n: "whole_token tpl = Some n" "row_has ?scope n" "\<not> isMarker (row_get ?scope n)" by blast
    have st': "st' = put_column st c (row_get ?scope n)"
      using st n c' by (simp add: set_step_def Let_def del: row_at_simps)
    have ne: "n \<noteq> []" using token_name_nonempty whole_token_name n(1) by blast
    show ?thesis
    proof (cases "hd n = CHR ''$''")
      case True
      then have "n = ''$now'' \<or> n = ''$table''" using n(2) wt ne by (auto simp: well_typed_def)
      then have "\<exists>s. row_get ?scope n = JStr s" by auto
      with wt st' n(1) True c' show ?thesis by (auto simp: well_typed_def value_fits_text)
    next
      case False
      then have "row_get ?scope n = row_get (cr_row st) n" by auto
      with wt st' n(1) False c' show ?thesis
        by (auto simp: well_typed_def split: option.splits if_splits)
    qed
  next
    case False
    then have whole: "(case whole_token tpl of None \<Rightarrow> None
        | Some n \<Rightarrow> if row_has ?scope n \<and> \<not> isMarker (row_get ?scope n) then Some (row_get ?scope n) else None) = None"
      by (auto split: option.splits)
    then obtain t w where t: "set_text c ?scope (pieces tpl) = Some (t, w)"
      and st': "st' = put_column (st\<lparr>cr_warnings := cr_warnings st @ w\<rparr>) c (JStr t)"
      using st c' by (auto simp: set_step_def Let_def whole simp del: row_at_simps)
    have "w = []" using quiet st' by simp
    then have "whole_token tpl = None"
      using False set_text_clean t whole_token_pieces by (metis option.exhaust)
    with wt st' c' show ?thesis by (auto simp: well_typed_def value_fits_text)
  qed
qed

lemma apply_step_fits:
  assumes st: "apply_step ctx t st = Some st'" and t: "typed_step t" and live: "\<not> ct_keysOnly ctx"
    and quiet: "cr_warnings st' = cr_warnings st" "cr_errors st' = cr_errors st"
    and wt: "well_typed p (cr_row st)"
  shows "well_typed (plan_step t p) (cr_row st')"
proof (cases "row_has (cr_row st) (tf_column t) \<and> isMarker (row_get (cr_row st) (tf_column t))")
  case True
  then have "st' = st" using st by (simp add: apply_step_def Let_def)
  with True wt show ?thesis
    by (cases t) (auto simp: well_typed_def isMarker_def split: option.splits)
next
  case False
  note nomark = False
  show ?thesis
  proof (cases t)
    case (Mask c m)
    show ?thesis
    proof (cases "row_has (cr_row st) c")
      case True
      with st nomark Mask obtain x where x: "mask_value (row_get (cr_row st) c) m ctx = Some x" "st' = put_column st c x"
        by (auto simp: apply_step_def Let_def)
      have "mk_mode m = Mask_null \<Longrightarrow> is_nil x"
        using x(1) by (auto simp: mask_value_def split: if_splits)
      with x wt Mask True mask_value_fits [OF x(1)] show ?thesis
        by (auto simp: well_typed_def is_nil_def)
    next
      case no: False
      with st Mask have "st' = st" by (auto simp: apply_step_def Let_def)
      with wt Mask row_get_absent [OF no] show ?thesis by (auto simp: well_typed_def)
    qed
  next
    case (Cast c to policy)
    show ?thesis
    proof (cases "row_has (cr_row st) c")
      case True
      with st nomark Cast have cs: "cast_step c to policy ctx st = Some st'" by (auto simp: apply_step_def Let_def)
      with quiet obtain x where x: "cast_value (ct_host ctx) (row_get (cr_row st) c) to = Some (Cast_ok x)"
        "st' = put_column st c x"
        by (auto simp: cast_step_def Let_def split: option.splits cast_outcome.splits cast_policy.splits)
      with wt Cast True cast_value_fits [OF x(1)] show ?thesis by (auto simp: well_typed_def)
    next
      case no: False
      with st Cast have "st' = st" by (auto simp: apply_step_def Let_def)
      with wt Cast row_get_absent [OF no] show ?thesis by (auto simp: well_typed_def)
    qed
  next
    case (Text_step c op)
    with st nomark have "st' = st \<or> (\<exists>s. row_has (cr_row st) c \<and> row_get (cr_row st) c = JStr s \<and>
        st' = put_column st c (JStr (text_change op s)))"
      by (auto simp: apply_step_def Let_def split: jsval.splits if_splits)
    with wt Text_step show ?thesis by (auto simp: well_typed_def intro: text_keeps_fit) (metis text_keeps_fit)+
  next
    case (Set_step c tpl)
    with st nomark live have "set_step c tpl ctx st = Some st'" by (auto simp: apply_step_def Let_def)
    from set_step_fits [OF this _ quiet(1) wt] Set_step t show ?thesis by (simp del: plan_step.simps)
  qed (use t in auto)
qed

definition logged :: "column_transform_result \<Rightarrow> column_transform_result \<Rightarrow> bool" where
  "logged st st' = (prefix (cr_warnings st) (cr_warnings st') \<and> prefix (cr_errors st) (cr_errors st'))"

lemma apply_step_logs: "apply_step ctx t st = Some st' \<Longrightarrow> logged st st'"
  by (cases t)
    (auto simp: logged_def apply_step_def cast_step_def set_step_def Let_def
      split: if_splits option.splits jsval.splits cast_outcome.splits cast_policy.splits)

lemma apply_steps_logs: "apply_steps ctx ts st = Some st' \<Longrightarrow> logged st st'"
proof (induction ctx ts st rule: apply_steps.induct)
  case (2 ctx t ts st)
  then show ?case
    by (auto split: option.splits dest!: apply_step_logs simp: logged_def
        intro: prefix_order.trans)
qed (simp add: logged_def)

lemma apply_steps_fits:
  "apply_steps ctx ts st = Some st' \<Longrightarrow> cr_warnings st' = cr_warnings st \<Longrightarrow> cr_errors st' = cr_errors st \<Longrightarrow>
     list_all typed_step ts \<Longrightarrow> \<not> ct_keysOnly ctx \<Longrightarrow> well_typed p (cr_row st) \<Longrightarrow>
     well_typed (fold plan_step ts p) (cr_row st')"
proof (induction ctx ts st arbitrary: p rule: apply_steps.induct)
  case (2 ctx t ts st)
  then obtain st1 where st1: "apply_step ctx t st = Some st1" "apply_steps ctx ts st1 = Some st'"
    by (auto split: option.splits)
  then have "logged st st1" "logged st1 st'" by (auto intro: apply_step_logs apply_steps_logs)
  then have quiet: "cr_warnings st1 = cr_warnings st" "cr_errors st1 = cr_errors st"
    "cr_warnings st' = cr_warnings st1" "cr_errors st' = cr_errors st1"
    using 2(3,4) by (auto simp: logged_def intro: prefix_order.antisym)
  have "well_typed (plan_step t p) (cr_row st1)"
    using apply_step_fits [OF st1(1) _ 2(6) quiet(1,2) 2(7)] 2(5) by simp
  from 2(1) [OF st1 quiet(3,4) _ 2(6) this] 2(5) show ?case by simp
qed simp


definition typed_sample :: "column_transform list" where
  "typed_sample = [Cast ''age'' To_integer Cast_fail, Mask ''mail'' sample_mask, Set_step ''copy'' ''{{age}}'']"


section \<open>Null\<close>

lemma apply_step_non_null:
  assumes "apply_step ctx t st = Some st'" and "\<not> is_nil (row_get (cr_row st) c)"
    and "tf_column t = c \<Longrightarrow> \<not> step_nulls t \<and> (case t of Set_step _ _ \<Rightarrow> False | Cast _ To_json _ \<Rightarrow> False | _ \<Rightarrow> True)"
  shows "\<not> is_nil (row_get (cr_row st') c)"
proof (cases "tf_column t = c")
  case False
  with apply_step_frame [OF assms(1), of c] assms(2) show ?thesis by simp
next
  case True
  have cast: "cast_value h v to = Some (Cast_ok x) \<Longrightarrow> \<not> is_nil v \<Longrightarrow> to \<noteq> To_json \<Longrightarrow> \<not> is_nil x" for h v to x
    by (auto simp: cast_value_def cast_number_def cast_boolean_def cast_date_def date_outcome_def Let_def
        split: cast_type.splits jsval.splits option.splits if_splits elim!: number_outcome.elims)
  from True assms show ?thesis
    by (cases t)
      (auto simp: apply_step_def Let_def cast_step_def mask_value_def
        split: if_splits option.splits jsval.splits cast_outcome.splits cast_policy.splits cast_type.splits
        dest: cast row_get_absent)
qed

text \<open>
  \<^verbatim>\<open>canBecomeNull\<close> is right about steps that rewrite a column in place: a column that
  holds a value, and that no step computes (\<^verbatim>\<open>set\<close>) or parses as JSON, still holds one
  after the transforms, unless \<^verbatim>\<open>canBecomeNull\<close> says it may not.
\<close>
theorem non_null_columns_stay_non_null:
  assumes "applyColumnTransforms r (Some ts) ctx = Some out"
    and "\<not> is_nil (row_get r c)" and "\<not> canBecomeNull ts c"
    and "\<forall>t \<in> set ts. tf_column t = c \<longrightarrow> (case t of Set_step _ _ \<Rightarrow> False | Cast _ To_json _ \<Rightarrow> False | _ \<Rightarrow> True)"
  shows "\<not> is_nil (row_get (cr_row out) c)"
proof -
  have "apply_steps ctx ts st = Some out \<Longrightarrow> \<not> is_nil (row_get (cr_row st) c) \<Longrightarrow>
     (\<forall>t \<in> set ts. tf_column t = c \<longrightarrow> \<not> step_nulls t \<and> (case t of Set_step _ _ \<Rightarrow> False | Cast _ To_json _ \<Rightarrow> False | _ \<Rightarrow> True)) \<Longrightarrow>
     \<not> is_nil (row_get (cr_row out) c)" for st
  proof (induction ctx ts st rule: apply_steps.induct)
    case (2 ctx t ts st)
    then obtain st1 where "apply_step ctx t st = Some st1" "apply_steps ctx ts st1 = Some out"
      by (auto split: option.splits)
    with 2 apply_step_non_null [of ctx t st st1 c] show ?case by auto
  qed simp
  with assms show ?thesis by (auto simp: applyColumnTransforms_def canBecomeNull_def list_ex_iff)
qed

theorem non_null_columns_stay_non_null_witness:
  "\<not> is_nil (row_get [(''age'', JNum (Num 41)), (''mail'', JNull)] ''age'')"
proof -
  let ?ts = "[Cast ''age'' To_integer Cast_fail, Cast ''mail'' To_integer Cast_null]"
  have res: "applyColumnTransforms [(''age'', JStr '' 41 ''), (''mail'', JStr ''n'')] (Some ?ts) sample_context =
    Some \<lparr>cr_row = [(''age'', JNum (Num 41)), (''mail'', JNull)],
          cr_warnings = [''cast mail: '' @ json_quote ''n'' @ '' is not a integer; written as NULL''], cr_errors = []\<rparr>"
    by code_simp
  have "\<not> is_nil (row_get [(''age'', JStr '' 41 ''), (''mail'', JStr ''n'')] ''age'')" by (simp add: row_get_def)
  moreover have "\<not> canBecomeNull ?ts ''age''" by (simp add: canBecomeNull_def)
  ultimately show ?thesis using non_null_columns_stay_non_null [OF res] by simp
qed

definition nulled_copy :: "column_transform list" where
  "nulled_copy = [Mask ''a'' (sample_mask\<lparr>mk_mode := Mask_null\<rparr>), Set_step ''b'' ''{{a}}'']"

text \<open>
  The gap in \<^verbatim>\<open>canBecomeNull\<close>. With the steps \<open>mask a to null; set b from a\<close>,
  \<^verbatim>\<open>b\<close> is typed as a copy of \<^verbatim>\<open>a\<close>, with \<^verbatim>\<open>a\<close>'s nullability, and
  \<^verbatim>\<open>canBecomeNull\<close> denies that it can be null; yet \<^verbatim>\<open>b\<close> is null in every row.
\<close>
theorem copy_of_nulled_column:
  "copiedColumn nulled_copy ''b'' = Some ''a'' \<and> transformedType nulled_copy ''b'' = None \<and>
   \<not> canBecomeNull nulled_copy ''b'' \<and>
   map_option (\<lambda>x. row_get (cr_row x) ''b'')
     (applyColumnTransforms [(''a'', JNum (Num 1))] (Some nulled_copy) sample_context) = Some JNull"
proof (intro conjI)
  show "copiedColumn nulled_copy ''b'' = Some ''a''" by code_simp
  show "transformedType nulled_copy ''b'' = None" by code_simp
  show "\<not> canBecomeNull nulled_copy ''b''" by code_simp
  show "map_option (\<lambda>x. row_get (cr_row x) ''b'')
     (applyColumnTransforms [(''a'', JNum (Num 1))] (Some nulled_copy) sample_context) = Some JNull" by code_simp
qed

section \<open>What the result depends on\<close>

definition same_on :: "string set \<Rightarrow> column_transform_result \<Rightarrow> column_transform_result \<Rightarrow> bool" where
  "same_on S a b =
     ((\<forall>c \<in> S. agree_on (cr_row a) (cr_row b) c) \<and> cr_warnings a = cr_warnings b \<and> cr_errors a = cr_errors b)"

lemma same_on_get: "same_on S a b \<Longrightarrow> c \<in> S \<Longrightarrow> row_get (cr_row a) c = row_get (cr_row b) c"
  "same_on S a b \<Longrightarrow> c \<in> S \<Longrightarrow> row_has (cr_row a) c = row_has (cr_row b) c"
  by (auto simp: same_on_def agree_on_def)

lemma same_on_put: "same_on S a b \<Longrightarrow> same_on S (put_column a c v) (put_column b c v)"
  by (auto simp: same_on_def agree_on_def)

lemma same_on_log:
  "same_on S a b \<Longrightarrow> same_on S (a\<lparr>cr_warnings := cr_warnings a @ w\<rparr>) (b\<lparr>cr_warnings := cr_warnings b @ w\<rparr>)"
  "same_on S a b \<Longrightarrow> same_on S (a\<lparr>cr_errors := cr_errors a @ w\<rparr>) (b\<lparr>cr_errors := cr_errors b @ w\<rparr>)"
  by (auto simp: same_on_def)

lemma set_text_cong:
  "(\<And>n. Inr n \<in> set ps \<Longrightarrow> agree_on s1 s2 n) \<Longrightarrow> set_text c s1 ps = set_text c s2 ps"
proof (induction c s1 ps rule: set_text.induct)
  case (3 col scope n ps)
  have "agree_on scope s2 n" by (simp add: 3(3))
  with 3 show ?case by (auto simp: agree_on_def split: option.splits)
qed (auto intro: agree_on_def)

lemma cast_step_same:
  assumes "same_on S a b" and "c \<in> S"
  shows "rel_option (same_on S) (cast_step c to policy ctx a) (cast_step c to policy ctx b)"
proof -
  note v = same_on_get(1) [OF assms]
  show ?thesis
    using assms(1) unfolding cast_step_def v
    by (auto simp: Let_def split: option.splits cast_outcome.splits cast_policy.splits
        intro!: same_on_put same_on_log)
qed

lemma set_step_same:
  assumes "same_on S a b" and "set (token_names tpl) \<subseteq> S"
  shows "rel_option (same_on S) (set_step c tpl ctx a) (set_step c tpl ctx b)"
proof -
  let ?scope = "\<lambda>st. obj_set (obj_set (cr_row st) ''$now'' (JStr (ct_now ctx))) ''$table'' (JStr (ct_table ctx))"
  have agree: "agree_on (?scope a) (?scope b) n" if "n \<in> set (token_names tpl)" for n
    using assms that by (auto simp: same_on_def agree_on_def)
  have filled: "set_text c (?scope a) (pieces tpl) = set_text c (?scope b) (pieces tpl)"
    by (rule set_text_cong) (simp add: agree token_names_pieces)
  have typed: "(case whole_token tpl of None \<Rightarrow> None
      | Some n \<Rightarrow> if row_has (?scope a) n \<and> \<not> isMarker (row_get (?scope a) n) then Some (row_get (?scope a) n) else None) =
    (case whole_token tpl of None \<Rightarrow> None
      | Some n \<Rightarrow> if row_has (?scope b) n \<and> \<not> isMarker (row_get (?scope b) n) then Some (row_get (?scope b) n) else None)"
    using agree [OF whole_token_name] by (auto simp: agree_on_def split: option.splits simp del: row_at_simps)
  have either: "rel_option (same_on S)
      (case ty of Some v \<Rightarrow> Some (put_column a c v)
        | None \<Rightarrow> map_option (\<lambda>(t, w). put_column (a\<lparr>cr_warnings := cr_warnings a @ w\<rparr>) c (JStr t)) x)
      (case ty of Some v \<Rightarrow> Some (put_column b c v)
        | None \<Rightarrow> map_option (\<lambda>(t, w). put_column (b\<lparr>cr_warnings := cr_warnings b @ w\<rparr>) c (JStr t)) x)" for ty x
    using assms(1) by (cases ty; cases x) (auto intro!: same_on_put same_on_log)
  show ?thesis
  proof (cases "c \<in> set FORBIDDEN_KEYS")
    case True
    with assms(1) show ?thesis by (simp add: set_step_def)
  next
    case False
    show ?thesis unfolding set_step_def Let_def typed filled if_not_P [OF False] by (rule either)
  qed
qed

lemma apply_step_same:
  assumes "same_on S a b" and "tf_column t \<in> S"
    and "\<And>c tpl. t = Set_step c tpl \<Longrightarrow> set (token_names tpl) \<subseteq> S"
  shows "rel_option (same_on S) (apply_step ctx t a) (apply_step ctx t b)"
proof -
  note v = same_on_get [OF assms(1,2)]
  show ?thesis
  proof (cases t)
    case (Cast c to policy)
    with assms v cast_step_same [of S a b c to policy ctx] show ?thesis
      by (auto simp: apply_step_def Let_def)
  next
    case (Set_step c tpl)
    with assms v set_step_same [of S a b tpl c ctx] show ?thesis
      by (auto simp: apply_step_def Let_def)
  next
    case (Mask c m)
    with assms v show ?thesis
      by (auto simp: apply_step_def Let_def option.rel_map intro!: same_on_put option.rel_refl)
  next
    case (Text_step c op)
    with assms v show ?thesis
      by (auto simp: apply_step_def Let_def split: jsval.splits intro!: same_on_put)
  next
    case (Default_step c d)
    with assms v show ?thesis
      by (auto simp: apply_step_def Let_def intro!: same_on_put)
  qed
qed

lemma apply_steps_same:
  "same_on S a b \<Longrightarrow> \<forall>t \<in> set ts. tf_column t \<in> S \<and> (\<forall>c tpl. t = Set_step c tpl \<longrightarrow> set (token_names tpl) \<subseteq> S) \<Longrightarrow>
     rel_option (same_on S) (apply_steps ctx ts a) (apply_steps ctx ts b)"
proof (induction ts arbitrary: a b)
  case (Cons t ts)
  have "rel_option (same_on S) (apply_step ctx t a) (apply_step ctx t b)"
    by (rule apply_step_same) (use Cons.prems in auto)
  with Cons show ?case by (cases "apply_step ctx t a"; cases "apply_step ctx t b") auto
qed simp

definition read_or_written :: "column_transform list \<Rightarrow> string set" where
  "read_or_written ts = set (columnsRead ts) \<union> tf_column ` set ts \<union> {c. c \<noteq> [] \<and> hd c = CHR ''$''}"

lemma read_or_written_names: "Set_step c tpl \<in> set ts \<Longrightarrow> set (token_names tpl) \<subseteq> read_or_written ts"
proof
  fix n
  assume step: "Set_step c tpl \<in> set ts" and n: "n \<in> set (token_names tpl)"
  show "n \<in> read_or_written ts"
  proof (cases "hd n = CHR ''$''")
    case True
    then show ?thesis using token_name_nonempty [OF n] by (simp add: read_or_written_def)
  next
    case False
    then have "n \<in> set (step_reads (Set_step c tpl))" using n by (simp add: step_reads_def)
    with step show ?thesis unfolding read_or_written_def columnsRead_def by fastforce
  qed
qed

text \<open>
  \<^verbatim>\<open>columnsRead\<close> misses nothing: two rows that agree on the columns it reports and on
  those the steps write are transformed alike - the same columns (those and any other the
  rows agreed on), the same warnings, the same errors.
\<close>
theorem transforms_read_only_columnsRead:
  assumes "\<forall>c \<in> read_or_written ts \<union> S. agree_on r1 r2 c"
  shows "rel_option (same_on (read_or_written ts \<union> S))
    (applyColumnTransforms r1 (Some ts) ctx) (applyColumnTransforms r2 (Some ts) ctx)"
proof -
  have steps: "\<forall>t \<in> set ts. tf_column t \<in> read_or_written ts \<union> S \<and>
      (\<forall>c tpl. t = Set_step c tpl \<longrightarrow> set (token_names tpl) \<subseteq> read_or_written ts \<union> S)"
    using read_or_written_names by (auto simp: read_or_written_def)
  show ?thesis unfolding applyColumnTransforms_def
    by (rule apply_steps_same) (use assms steps in \<open>auto simp: same_on_def\<close>)
qed

theorem transforms_read_only_columnsRead_witness:
  "rel_option (same_on (read_or_written sample_steps \<union> {}))
    (applyColumnTransforms sample_row (Some sample_steps) sample_context)
    (applyColumnTransforms (sample_row @ [(''other'', JNull)]) (Some sample_steps) sample_context)"
proof -
  have "agree_on sample_row (sample_row @ [(''other'', JNull)]) c" if "c \<noteq> ''other''" for c
    using that by (simp add: agree_on_def row_has_def row_get_def map_of_append map_add_def split: option.splits)
  moreover have "''other'' \<notin> read_or_written sample_steps"
  proof -
    have "''other'' \<notin> set (columnsRead sample_steps)" by code_simp
    then show ?thesis by (simp add: read_or_written_def sample_steps_def)
  qed
  ultimately have "\<forall>c \<in> read_or_written sample_steps \<union> {}. agree_on sample_row (sample_row @ [(''other'', JNull)]) c"
    by (metis Un_empty_right)
  then show ?thesis by (rule transforms_read_only_columnsRead)
qed

end
