(* ===== verification/Row_Codec.thy ===== *)
theory Row_Codec
  imports Js_Value
begin

text \<open>
  The lossless row codec of the dead-letter queue and the spool,
  \<^verbatim>\<open>apps/api/src/bridges/row-codec.ts\<close>, on JSON trees: \<^verbatim>\<open>JSON.stringify\<close>
  and \<^verbatim>\<open>JSON.parse\<close> are inverse to each other on the trees the codec builds (their
  numbers are finite), so the text form adds nothing. Values that are not plain data (the
  drivers' wrapper classes) are not in the value type, and no key is \<^verbatim>\<open>__proto__\<close>.
\<close>

section \<open>JSON trees and base64\<close>

datatype json =
    JsonNull
  | JsonBool bool
  | JsonNum jsnum
  | JsonStr string
  | JsonArr "json list"
  | JsonObj "(string \<times> json) list"

text \<open>\<^verbatim>\<open>Buffer.toString('base64')\<close> and \<^verbatim>\<open>Buffer.from(text, 'base64')\<close>:
  decoding stops at the padding and passes over what is not in the alphabet.\<close>

definition b64_char :: "nat \<Rightarrow> char" where
  "b64_char n =
     (if n < 26 then char_of (65 + n) else if n < 52 then char_of (71 + n)
      else if n < 62 then char_of (n - 4) else if n = 62 then CHR ''+'' else CHR ''/'')"

definition b64_val :: "char \<Rightarrow> nat option" where
  "b64_val c =
     (let n = (of_char c :: nat) in
      if 65 \<le> n \<and> n \<le> 90 then Some (n - 65)
      else if 97 \<le> n \<and> n \<le> 122 then Some (n - 71)
      else if 48 \<le> n \<and> n \<le> 57 then Some (n + 4)
      else if n = 43 \<or> n = 45 then Some 62
      else if n = 47 \<or> n = 95 then Some 63 else None)"

fun b64_encode :: "nat list \<Rightarrow> string" where
  "b64_encode [] = []"
| "b64_encode [a] = [b64_char (a div 4), b64_char (a mod 4 * 16), CHR ''='', CHR ''='']"
| "b64_encode [a, b] =
     [b64_char (a div 4), b64_char (a mod 4 * 16 + b div 16), b64_char (b mod 16 * 4), CHR ''='']"
| "b64_encode (a # b # c # rest) =
     [b64_char (a div 4), b64_char (a mod 4 * 16 + b div 16), b64_char (b mod 16 * 4 + c div 64),
      b64_char (c mod 64)] @ b64_encode rest"

fun b64_groups :: "nat list \<Rightarrow> nat list" where
  "b64_groups (p # q # r # s # rest) =
     [p * 4 + q div 16, q mod 16 * 16 + r div 4, r mod 4 * 64 + s] @ b64_groups rest"
| "b64_groups [p, q, r] = [p * 4 + q div 16, q mod 16 * 16 + r div 4]"
| "b64_groups [p, q] = [p * 4 + q div 16]"
| "b64_groups _ = []"

definition b64_payload :: "string \<Rightarrow> nat list" where
  "b64_payload s = List.map_filter b64_val (takeWhile (\<lambda>c. c \<noteq> CHR ''='') s)"

definition b64_decode :: "string \<Rightarrow> nat list" where
  "b64_decode s = b64_groups (b64_payload s)"

section \<open>Encoding\<close>

definition TAGS :: "string list" where
  "TAGS = [''$bytes'', ''$date'', ''$bigint'', ''$literal'', ''$unchanged'']"

fun looksLikeTag :: "(string \<times> 'a) list \<Rightarrow> bool" where
  "looksLikeTag [(k, v)] = (k \<in> set TAGS)"
| "looksLikeTag _ = False"

fun encodeValue :: "jsval \<Rightarrow> json" where
  "encodeValue JUnchanged = JsonObj [(''$unchanged'', JsonBool True)]"
| "encodeValue JNull = JsonNull"
| "encodeValue JUndefined = JsonNull"
| "encodeValue (JBigInt i) = JsonObj [(''$bigint'', JsonStr (show_int i))]"
| "encodeValue (JNum n) =
     (if is_finite n then JsonNum n else JsonObj [(''$literal'', JsonStr (js_string_of_num n))])"
| "encodeValue (JStr s) = JsonStr s"
| "encodeValue (JBool b) = JsonBool b"
| "encodeValue (JDate d) =
     (case d of None \<Rightarrow> JsonNull | Some ms \<Rightarrow> JsonObj [(''$date'', JsonStr (to_iso_string ms))])"
| "encodeValue (JBytes bs) = JsonObj [(''$bytes'', JsonStr (b64_encode bs))]"
| "encodeValue (JArr vs) = JsonArr (map encodeValue vs)"
| "encodeValue (JObj fs) =
     (let out = map (\<lambda>(k, v). (k, encodeValue v)) fs
      in if looksLikeTag fs then JsonObj [(''$literal'', JsonObj out)] else JsonObj out)"

section \<open>Decoding\<close>

text \<open>\<^verbatim>\<open>BigInt(text)\<close>; \<open>None\<close> is its SyntaxError.\<close>

definition js_bigint_of_string :: "string \<Rightarrow> int option" where
  "js_bigint_of_string str =
     (let s = trim str; radix = (\<lambda>b. if drop 2 s = [] then None else map_option int (read_radix b 0 (drop 2 s)))
      in if s = [] then Some 0
         else if take 2 s = ''0x'' \<or> take 2 s = ''0X'' then radix 16
         else if take 2 s = ''0o'' \<or> take 2 s = ''0O'' then radix 8
         else if take 2 s = ''0b'' \<or> take 2 s = ''0B'' then radix 2
         else signed_int s)"

fun option_all :: "'a option list \<Rightarrow> 'a list option" where
  "option_all [] = Some []"
| "option_all (x # xs) =
     (case x of None \<Rightarrow> None | Some v \<Rightarrow> map_option (\<lambda>vs. v # vs) (option_all xs))"

definition with_keys :: "string list \<Rightarrow> jsval option list \<Rightarrow> jsval option" where
  "with_keys ks vs = map_option (\<lambda>xs. JObj (zip ks xs)) (option_all vs)"

text \<open>
  \<^verbatim>\<open>decodeValue\<close>; \<open>None\<close> is the exception of \<^verbatim>\<open>BigInt\<close>. An object whose only
  key is a tag is read as the tag if the payload has the tag's type, and as plain data
  otherwise.
\<close>

fun decodeValue :: "host \<Rightarrow> json \<Rightarrow> jsval option" where
  "decodeValue h JsonNull = Some JNull"
| "decodeValue h (JsonBool b) = Some (JBool b)"
| "decodeValue h (JsonNum n) = Some (JNum n)"
| "decodeValue h (JsonStr s) = Some (JStr s)"
| "decodeValue h (JsonArr vs) = map_option JArr (option_all (map (decodeValue h) vs))"
| "decodeValue h (JsonObj [(tag, JsonStr p)]) =
     (if tag = ''$unchanged'' then Some JUnchanged
      else if tag = ''$bytes'' then Some (JBytes (b64_decode p))
      else if tag = ''$date'' then Some (JDate (date_parse h p))
      else if tag = ''$bigint'' then map_option JBigInt (js_bigint_of_string p)
      else if tag = ''$literal'' \<and> p = ''NaN'' then Some (JNum NaN)
      else if tag = ''$literal'' \<and> p = ''Infinity'' then Some (JNum PosInf)
      else if tag = ''$literal'' \<and> p = ''-Infinity'' then Some (JNum NegInf)
      else Some (JObj [(tag, JStr p)]))"
| "decodeValue h (JsonObj [(tag, JsonObj fs)]) =
     (if tag = ''$unchanged'' then Some JUnchanged
      else if tag = ''$literal'' then with_keys (map fst fs) (map (\<lambda>(k, v). decodeValue h v) fs)
      else map_option (\<lambda>v. JObj [(tag, v)]) (decodeValue h (JsonObj fs)))"
| "decodeValue h (JsonObj fs) =
     (if (case fs of [(tag, p)] \<Rightarrow> tag = ''$unchanged'' | _ \<Rightarrow> False) then Some JUnchanged
      else with_keys (map fst fs) (map (\<lambda>(k, v). decodeValue h v) fs))"

definition is_plain_object :: "jsval \<Rightarrow> bool" where
  "is_plain_object v = (case v of JObj _ \<Rightarrow> True | _ \<Rightarrow> False)"

definition encodeRows :: "row list \<Rightarrow> json" where
  "encodeRows rows = JsonArr (map (\<lambda>r. encodeValue (JObj r)) rows)"

text \<open>\<open>None\<close> is any of the exceptions: not a list, a row that is not an object, a bad bigint.\<close>

definition decodeRows :: "host \<Rightarrow> json \<Rightarrow> row list option" where
  "decodeRows h j =
     (case j of
        JsonArr js \<Rightarrow>
          option_all (map (\<lambda>r. case decodeValue h r of Some (JObj fs) \<Rightarrow> Some fs | _ \<Rightarrow> None) js)
      | _ \<Rightarrow> None)"

text \<open>
  \<^verbatim>\<open>rowsForDisplay\<close>; \<open>None\<close> is \<^verbatim>\<open>toISOString\<close>'s RangeError on a date that
  does not exist.
\<close>

fun show_value :: "jsval \<Rightarrow> jsval option" where
  "show_value JUnchanged = Some (JStr ''<unchanged>'')"
| "show_value (JBigInt i) = Some (JStr (show_int i))"
| "show_value (JDate d) = map_option (\<lambda>ms. JStr (to_iso_string ms)) d"
| "show_value (JBytes bs) = Some (JStr (CHR ''<'' # show_nat (length bs) @ '' bytes>''))"
| "show_value (JNum n) = Some (if is_finite n then JNum n else JStr (js_string_of_num n))"
| "show_value (JArr vs) = map_option JArr (option_all (map show_value vs))"
| "show_value (JObj fs) = with_keys (map fst fs) (map (\<lambda>(k, v). show_value v) fs)"
| "show_value v = Some v"

definition rowsForDisplay :: "host \<Rightarrow> json \<Rightarrow> jsval list option" where
  "rowsForDisplay h j =
     (case decodeRows h j of None \<Rightarrow> None | Some rows \<Rightarrow> option_all (map (\<lambda>r. show_value (JObj r)) rows))"

section \<open>The pieces are inverse to each other\<close>

lemma b64_val_char: "n < 64 \<Longrightarrow> b64_val (b64_char n) = Some n"
  by (auto simp: b64_val_def b64_char_def Let_def)

lemma b64_char_not_pad: "n < 64 \<Longrightarrow> b64_char n \<noteq> CHR ''=''"
proof
  assume "n < 64" "b64_char n = CHR ''=''"
  moreover have "b64_val (CHR ''='') = None" by (simp add: b64_val_def)
  ultimately show False using b64_val_char [of n] by simp
qed

lemma b64_payload_simps:
  "b64_payload [] = []" "b64_payload (CHR ''='' # s) = []"
  "n < 64 \<Longrightarrow> b64_payload (b64_char n # s) = n # b64_payload s"
  by (simp_all add: b64_payload_def b64_char_not_pad b64_val_char)

lemma sextets:
  assumes "a < (256::nat)" "b < 256" "c < 256"
  shows "a div 4 < 64" "a mod 4 * 16 + b div 16 < 64" "b mod 16 * 4 + c div 64 < 64" "c mod 64 < 64"
    "a mod 4 * 16 < 64" "b mod 16 * 4 < 64"
    "a div 4 * 4 + (a mod 4 * 16 + b div 16) div 16 = a"
    "(a mod 4 * 16 + b div 16) mod 16 * 16 + (b mod 16 * 4 + c div 64) div 4 = b"
    "(b mod 16 * 4 + c div 64) mod 4 * 64 + c mod 64 = c"
    "a div 4 * 4 + (a mod 4 * 16) div 16 = a"
    "(a mod 4 * 16 + b div 16) mod 16 * 16 + (b mod 16 * 4) div 4 = b"
proof -
  have a: "a mod 4 < 4" and b: "b div 16 < 16" "b mod 16 < 16" and c: "c div 64 < 4" "c mod 64 < 64"
    using assms by (auto simp: less_mult_imp_div_less)
  show "a div 4 < 64" using assms by (simp add: less_mult_imp_div_less)
  show "a mod 4 * 16 + b div 16 < 64" "b mod 16 * 4 + c div 64 < 64" "c mod 64 < 64"
    "a mod 4 * 16 < 64" "b mod 16 * 4 < 64" using a b c by simp_all
  have "(a mod 4 * 16 + b div 16) div 16 = a mod 4" "(a mod 4 * 16 + b div 16) mod 16 = b div 16"
    "(b mod 16 * 4 + c div 64) div 4 = b mod 16" "(b mod 16 * 4 + c div 64) mod 4 = c div 64"
    using b c by simp_all
  then show "a div 4 * 4 + (a mod 4 * 16 + b div 16) div 16 = a"
    "(a mod 4 * 16 + b div 16) mod 16 * 16 + (b mod 16 * 4 + c div 64) div 4 = b"
    "(b mod 16 * 4 + c div 64) mod 4 * 64 + c mod 64 = c"
    "a div 4 * 4 + (a mod 4 * 16) div 16 = a"
    "(a mod 4 * 16 + b div 16) mod 16 * 16 + (b mod 16 * 4) div 4 = b"
    by simp_all
qed

lemma b64_round_trip: "\<forall>b \<in> set bs. b < 256 \<Longrightarrow> b64_decode (b64_encode bs) = bs"
proof (induction bs rule: b64_encode.induct)
  case 1
  then show ?case by (simp add: b64_decode_def b64_payload_simps)
next
  case (2 a)
  then show ?case using sextets [of a 0 0] by (simp add: b64_decode_def b64_payload_simps)
next
  case (3 a b)
  then show ?case using sextets [of a b 0] by (simp add: b64_decode_def b64_payload_simps)
next
  case (4 a b c rest)
  then have "b64_groups (b64_payload (b64_encode rest)) = rest" by (simp add: b64_decode_def)
  then show ?case using 4 sextets [of a b c] by (simp add: b64_decode_def b64_payload_simps)
qed

lemma show_int_no_ws: "list_all (\<lambda>c. \<not> ws_char c) (show_int i)"
  using show_nat_digits digit_not_ws
  by (auto simp: show_int_def list_all_iff ws_char_def)

lemma signed_show_int: "signed_int (show_int i) = Some i"
proof (cases "i < 0")
  case True
  then show ?thesis using show_nat_digits [of "nat (- i)"]
    by (simp add: show_int_def signed_int_def all_digits_def)
next
  case False
  have "is_digit (hd (show_nat (nat i)))"
    using show_nat_digits [of "nat i"] by (cases "show_nat (nat i)") auto
  then have "hd (show_nat (nat i)) \<noteq> CHR ''-''" "hd (show_nat (nat i)) \<noteq> CHR ''+''"
    by (auto simp: is_digit_def)
  with False show_nat_digits [of "nat i"] show ?thesis
    by (simp add: show_int_def signed_int_def all_digits_def)
qed

lemma show_int_not_radix:
  "take 2 (show_int i) \<notin> {''0x'', ''0X'', ''0o'', ''0O'', ''0b'', ''0B''}"
proof
  assume a: "take 2 (show_int i) \<in> {''0x'', ''0X'', ''0o'', ''0O'', ''0b'', ''0B''}"
  then obtain c d where cd: "take 2 (show_int i) = [c, d]" and nd: "\<not> is_digit d" "is_digit c"
    by (auto simp: is_digit_def)
  then have "{c, d} \<subseteq> set (show_int i)" using set_take_subset [of 2 "show_int i"] by simp
  moreover have "d \<noteq> CHR ''-''" using a cd by auto
  ultimately show False
    using nd cd show_nat_digits dash_not_digit by (auto simp: show_int_def list_all_iff split: if_splits)
qed

lemma bigint_round_trip: "js_bigint_of_string (show_int i) = Some i"
proof -
  have "show_int i \<noteq> []" by (simp add: show_int_def)
  with show_int_not_radix [of i] show ?thesis
    by (simp add: js_bigint_of_string_def trim_no_ws [OF show_int_no_ws] signed_show_int Let_def)
qed


section \<open>What a round trip gives back\<close>

text \<open>
  JSON has one "nothing": \<^verbatim>\<open>undefined\<close> and a date that does not exist come back as
  \<^verbatim>\<open>null\<close>. Everything else is itself.
\<close>

fun canon :: "jsval \<Rightarrow> jsval" where
  "canon JUndefined = JNull"
| "canon (JDate d) = (case d of None \<Rightarrow> JNull | Some ms \<Rightarrow> JDate (Some ms))"
| "canon (JArr vs) = JArr (map canon vs)"
| "canon (JObj fs) = JObj (map (\<lambda>(k, v). (k, canon v)) fs)"
| "canon v = v"

text \<open>Bytes are bytes, and the host reads back the ISO text of the dates that occur.\<close>

fun codec_ok :: "host \<Rightarrow> jsval \<Rightarrow> bool" where
  "codec_ok h (JBytes bs) = (\<forall>b \<in> set bs. b < 256)"
| "codec_ok h (JDate (Some ms)) = (date_parse h (to_iso_string ms) = Some ms)"
| "codec_ok h (JArr vs) = (\<forall>v \<in> set vs. codec_ok h v)"
| "codec_ok h (JObj fs) = (\<forall>(k, v) \<in> set fs. codec_ok h v)"
| "codec_ok h v = True"

lemma option_all_map: "(\<And>x. x \<in> set xs \<Longrightarrow> f x = Some (g x)) \<Longrightarrow> option_all (map f xs) = Some (map g xs)"
  by (induction xs) auto

lemma decode_plain:
  "\<not> looksLikeTag fs \<Longrightarrow>
   decodeValue h (JsonObj fs) = with_keys (map fst fs) (map (\<lambda>(k, v). decodeValue h v) fs)"
proof (cases fs rule: looksLikeTag.cases)
  case (1 k p)
  assume "\<not> looksLikeTag fs"
  with 1 show ?thesis by (cases p) (auto simp: with_keys_def TAGS_def split: option.splits)
qed (auto simp: with_keys_def)

lemma looksLikeTag_map: "looksLikeTag (map (\<lambda>(k, v). (k, f v)) fs) = looksLikeTag fs"
  by (cases fs rule: looksLikeTag.cases) auto

lemma decode_fields:
  assumes "\<And>k v. (k, v) \<in> set fs \<Longrightarrow> decodeValue h (encodeValue v) = Some (canon v)"
  shows "with_keys (map fst (map (\<lambda>(k, v). (k, encodeValue v)) fs))
      (map (\<lambda>(k, v). decodeValue h v) (map (\<lambda>(k, v). (k, encodeValue v)) fs)) = Some (canon (JObj fs))"
proof -
  have "option_all (map (\<lambda>(k, v). decodeValue h (encodeValue v)) fs) = Some (map (\<lambda>(k, v). canon v) fs)"
    using assms by (intro option_all_map) auto
  moreover have "zip (map fst fs) (map (\<lambda>(k, v). canon v) fs) = map (\<lambda>(k, v). (k, canon v)) fs"
    by (induction fs) auto
  moreover have "map fst (map (\<lambda>(k, v). (k, encodeValue v)) fs) = map fst fs"
    "map (\<lambda>(k, v). decodeValue h v) (map (\<lambda>(k, v). (k, encodeValue v)) fs) =
      map (\<lambda>(k, v). decodeValue h (encodeValue v)) fs"
    by (simp_all add: case_prod_unfold comp_def)
  ultimately show ?thesis unfolding with_keys_def by (simp only: option.map canon.simps)
qed

lemma decode_encode: "codec_ok h v \<Longrightarrow> decodeValue h (encodeValue v) = Some (canon v)"
proof (induction v rule: encodeValue.induct)
  case (4 i)
  then show ?case by (simp add: bigint_round_trip)
next
  case (5 n)
  then show ?case by (cases n) simp_all
next
  case (8 d)
  then show ?case by (cases d) simp_all
next
  case (9 bs)
  then show ?case by (simp add: b64_round_trip)
next
  case (10 vs)
  then have "option_all (map (\<lambda>v. decodeValue h (encodeValue v)) vs) = Some (map canon vs)"
    by (intro option_all_map) auto
  then show ?case by (simp add: comp_def)
next
  case (11 fs)
  have each: "decodeValue h (encodeValue v) = Some (canon v)" if "(k, v) \<in> set fs" for k v
    using 11 that by fastforce
  show ?case
  proof (cases "looksLikeTag fs")
    case True
    with decode_fields [of fs h] each show ?thesis by simp
  next
    case False
    with decode_fields [of fs h] each show ?thesis
      by (simp add: decode_plain looksLikeTag_map)
  qed
qed simp_all

section \<open>Properties\<close>

definition canon_row :: "row \<Rightarrow> row" where
  "canon_row r = map (\<lambda>(k, v). (k, canon v)) r"

lemma rows_round_trip:
  assumes "\<forall>r \<in> set rows. codec_ok h (JObj r)"
  shows "decodeRows h (encodeRows rows) = Some (map canon_row rows)"
proof -
  have each: "decodeValue h (encodeValue (JObj r)) = Some (JObj (canon_row r))" if "r \<in> set rows" for r
    using decode_encode [of h "JObj r"] assms that by (simp add: canon_row_def)
  have "option_all (map (\<lambda>r. case decodeValue h (encodeValue (JObj r)) of Some (JObj fs) \<Rightarrow> Some fs | _ \<Rightarrow> None) rows)
      = Some (map canon_row rows)"
    using each by (intro option_all_map) (simp del: encodeValue.simps)
  then show ?thesis by (simp add: decodeRows_def encodeRows_def comp_def del: encodeValue.simps)
qed

text \<open>
  C16: A parked row comes back as the row that was read: bytes, dates, big integers, numbers
  JSON cannot hold, the marker for a column that was not sent, and objects that merely look
  like one of the codec's own tags. Only \<^verbatim>\<open>undefined\<close> and invalid dates, which JSON
  cannot tell from \<^verbatim>\<open>null\<close>, come back as \<^verbatim>\<open>null\<close>.
\<close>

theorem codec_round_trip:
  assumes "\<forall>r \<in> set rows. codec_ok h (JObj r)"
  shows "decodeRows h (encodeRows rows) = Some (map canon_row rows)"
  using assms by (rule rows_round_trip)

definition epoch_host :: host where
  "epoch_host = \<lparr>date_parse = (\<lambda>s. if s = to_iso_string 0 then Some 0 else None),
     date_text = (\<lambda>_. []), utf8_text = (\<lambda>_. [])\<rparr>"

definition tricky_row :: row where
  "tricky_row = [(''$bytes'', JObj [(''$literal'', JStr ''NaN'')]), (''b'', JBytes [0, 255, 7, 8]),
     (''d'', JDate (Some 0)), (''n'', JNum NegInf), (''i'', JBigInt (- 12)), (''u'', JUnchanged)]"

theorem codec_round_trip_witness:
  "decodeRows epoch_host (encodeRows [tricky_row, [(''$bytes'', JStr ''x'')]]) =
     Some [tricky_row, [(''$bytes'', JStr ''x'')]]"
proof -
  have "\<forall>r \<in> set [tricky_row, [(''$bytes'', JStr ''x'')]]. codec_ok epoch_host (JObj r)"
    by (simp add: tricky_row_def epoch_host_def)
  from codec_round_trip [OF this] show ?thesis
    by (simp add: canon_row_def tricky_row_def)
qed

text \<open>
  Two lists of rows without \<^verbatim>\<open>undefined\<close> and invalid dates that encode alike are
  the same rows: no data can be mistaken for a tag, nor one value for another.
\<close>

theorem codec_injective:
  assumes "\<forall>r \<in> set rows \<union> set rows'. codec_ok h (JObj r) \<and> canon_row r = r"
    and "encodeRows rows = encodeRows rows'"
  shows "rows = rows'"
proof -
  have ok: "codec_ok h (JObj r)" and fixed: "canon_row r = r" if "r \<in> set rows \<union> set rows'" for r
    using assms(1) that by blast+
  have "\<forall>r \<in> set rows. codec_ok h (JObj r)" "\<forall>r \<in> set rows'. codec_ok h (JObj r)"
    using ok by blast+
  then have dec: "decodeRows h (encodeRows rows) = Some (map canon_row rows)"
    "decodeRows h (encodeRows rows') = Some (map canon_row rows')"
    by (auto intro: rows_round_trip simp del: codec_ok.simps)
  have "map canon_row rows = rows" "map canon_row rows' = rows'"
    using fixed by (auto intro: map_idI)
  with dec show ?thesis by (metis assms(2) option.inject)
qed

theorem codec_injective_witness:
  "encodeRows [[(''$date'', JStr ''x'')]] \<noteq> encodeRows [[(''a'', JStr ''x'')]]"
  using codec_injective [of "[[(''$date'', JStr ''x'')]]" "[[(''a'', JStr ''x'')]]" epoch_host]
  by (auto simp: canon_row_def)

end
