(* ===== verification/Redis_Target.thy ===== *)
theory Redis_Target
  imports Column_Transforms Row_Codec
begin

text \<open>
  A row as a Redis key, \<^verbatim>\<open>packages/core/src/bridges/redis-target.ts\<close>: the columns a key
  template is built from, the checks on a target's configuration, and the key, type and value a
  row is written as.
\<close>

section \<open>Key templates\<close>

definition brace :: "char \<Rightarrow> bool" where
  "brace c = (c = CHR ''{'' \<or> c = CHR ''}'')"

text \<open>
  A match of \<^verbatim>\<open>\{\{\s*([^{}]*?)\s*\}\}\<close>: the lazy name takes what is between the
  blanks at both ends.
\<close>

definition key_token_at :: "string \<Rightarrow> (string \<times> string) option" where
  "key_token_at s =
     (if take 2 s = ''{{'' then
        (let body = takeWhile (\<lambda>c. \<not> brace c) (drop 2 s); r = drop (length body) (drop 2 s)
         in if take 2 r = ''}}'' then Some (trim body, drop 2 r) else None)
      else None)"

lemma key_token_at_shorter: "key_token_at s = Some (n, r) \<Longrightarrow> length r < length s"
  by (cases s) (auto simp: key_token_at_def Let_def split: if_splits)

function key_pieces :: "string \<Rightarrow> (char + string) list" where
  "key_pieces s =
     (case key_token_at s of
        Some (name, r) \<Rightarrow> Inr name # key_pieces r
      | None \<Rightarrow> (case s of [] \<Rightarrow> [] | c # t \<Rightarrow> Inl c # key_pieces t))"
  by pat_completeness auto
termination by (relation "measure length") (auto dest: key_token_at_shorter)

declare key_pieces.simps [simp del]

definition piece_names :: "(char + string) list \<Rightarrow> string list" where
  "piece_names ps = List.map_filter (\<lambda>p. case p of Inr n \<Rightarrow> Some n | Inl _ \<Rightarrow> None) ps"

lemma piece_names_simps [simp]:
  "piece_names [] = []" "piece_names (Inl c # ps) = piece_names ps" "piece_names (Inr n # ps) = n # piece_names ps"
  by (simp_all add: piece_names_def List.map_filter_simps)

definition redisKeyColumns :: "string \<Rightarrow> string list" where
  "redisKeyColumns template = uniq (filter (\<lambda>n. n \<noteq> []) (piece_names (key_pieces template)))"

section \<open>A target's configuration\<close>

datatype redis_type = Redis_hash | Redis_json | Redis_string

record redis_config =
  rd_keyTemplate :: string
  rd_type :: redis_type
  rd_valueColumn :: "string option"
  rd_ttlSeconds :: "int option"

datatype redis_issue =
  No_key_column | Special_in_key string | Empty_braces | Value_column_missing | Value_column_unused

text \<open>\<^verbatim>\<open>/\{\{\s*\}\}/.test(template)\<close>\<close>

fun has_empty_token :: "string \<Rightarrow> bool" where
  "has_empty_token [] = False"
| "has_empty_token (c # s) =
     ((take 2 (c # s) = ''{{'' \<and> take 2 (dropWhile ws_char (drop 2 (c # s))) = ''}}'') \<or> has_empty_token s)"

definition redis_issues :: "redis_config \<Rightarrow> redis_issue list" where
  "redis_issues cfg =
     (let columns = redisKeyColumns (rd_keyTemplate cfg);
          valued = (case rd_valueColumn cfg of None \<Rightarrow> False | Some c \<Rightarrow> c \<noteq> [])
      in (if columns = [] then [No_key_column] else []) @
         (case find (\<lambda>c. starts_with c ''$'') columns of None \<Rightarrow> [] | Some c \<Rightarrow> [Special_in_key c]) @
         (if has_empty_token (rd_keyTemplate cfg) then [Empty_braces] else []) @
         (if rd_type cfg = Redis_string \<and> \<not> valued then [Value_column_missing] else []) @
         (if rd_type cfg \<noteq> Redis_string \<and> valued then [Value_column_unused] else []))"

definition optional :: "('a \<Rightarrow> bool) \<Rightarrow> 'a option \<Rightarrow> bool" where
  "optional p v = (case v of None \<Rightarrow> True | Some x \<Rightarrow> p x)"

definition redis_shape_ok :: "redis_config \<Rightarrow> bool" where
  "redis_shape_ok cfg =
     (trim (rd_keyTemplate cfg) = rd_keyTemplate cfg \<and>
      1 \<le> length (rd_keyTemplate cfg) \<and> length (rd_keyTemplate cfg) \<le> 512 \<and>
      optional (\<lambda>c. trim c = c \<and> 1 \<le> length c \<and> length c \<le> 200) (rd_valueColumn cfg) \<and>
      optional (\<lambda>n. 1 \<le> n \<and> n \<le> 10 * 365 * 24 * 3600) (rd_ttlSeconds cfg))"

definition redis_valid :: "redis_config \<Rightarrow> bool" where
  "redis_valid cfg = (redis_shape_ok cfg \<and> redis_issues cfg = [])"

section \<open>Values as Redis text\<close>

text \<open>
  \<^verbatim>\<open>jsonSafe\<close>, the replacer: it sees a value before what is inside it, and a Buffer
  already as \<^verbatim>\<open>{ type: 'Buffer', data }\<close>. \<open>to_uint8\<close> is the conversion of
  \<^verbatim>\<open>Uint8Array.from\<close>; an element that is itself an object reads as 0.
\<close>

definition to_uint8 :: "jsval \<Rightarrow> nat" where
  "to_uint8 v =
     (case (case v of JNum n \<Rightarrow> n | JBool b \<Rightarrow> Num (if b then 1 else 0) | JNull \<Rightarrow> Num 0
                    | JStr s \<Rightarrow> js_number_of_string s | _ \<Rightarrow> NaN) of
        Num q \<Rightarrow> nat (math_trunc q mod 256)
      | _ \<Rightarrow> 0)"

definition buffer_fields :: "(string \<times> jsval) list \<Rightarrow> nat list option" where
  "buffer_fields fs =
     (if row_get fs ''type'' = JStr ''Buffer'' then
        (case row_get fs ''data'' of JArr vs \<Rightarrow> Some (map to_uint8 vs) | _ \<Rightarrow> None)
      else None)"

fun json_safe :: "jsval \<Rightarrow> jsval" where
  "json_safe (JBigInt i) = JStr (show_int i)"
| "json_safe (JBytes bs) = JStr (b64_encode bs)"
| "json_safe (JArr vs) = JArr (map json_safe vs)"
| "json_safe (JObj fs) =
     (case buffer_fields fs of
        Some bs \<Rightarrow> JStr (b64_encode bs)
      | None \<Rightarrow> JObj (map (\<lambda>(k, v). (k, json_safe v)) fs))"
| "json_safe v = v"

datatype redis_text = RText string | RBytes "nat list"

definition safe_text :: "jsval \<Rightarrow> string" where
  "safe_text v = (case js_stringify (json_safe v) of JText t \<Rightarrow> t | _ \<Rightarrow> [])"

definition redisText :: "jsval \<Rightarrow> redis_text option" where
  "redisText v =
     (case v of
        JNull \<Rightarrow> None
      | JUndefined \<Rightarrow> None
      | JStr s \<Rightarrow> Some (RText s)
      | JNum n \<Rightarrow> Some (RText (js_string_of_num n))
      | JBigInt i \<Rightarrow> Some (RText (show_int i))
      | JBool b \<Rightarrow> Some (RText (if b then ''true'' else ''false''))
      | JDate d \<Rightarrow> map_option (\<lambda>ms. RText (to_iso_string ms)) d
      | JBytes bs \<Rightarrow> Some (RBytes bs)
      | JUnchanged \<Rightarrow> None
      | _ \<Rightarrow> Some (RText (safe_text v)))"

section \<open>Keys\<close>

definition hex_bytes :: "nat list \<Rightarrow> string" where
  "hex_bytes bs = concat (map (\<lambda>b. [hex_char (b div 16), hex_char (b mod 16)]) bs)"

text \<open>What a token contributes to the key; \<open>None\<close> is a column without a value.\<close>

definition key_part :: "row \<Rightarrow> string \<Rightarrow> string option" where
  "key_part r n =
     (case redisText (row_get r n) of
        None \<Rightarrow> None
      | Some (RText t) \<Rightarrow> if t = [] then None else Some t
      | Some (RBytes bs) \<Rightarrow> Some (hex_bytes bs))"

fun render_key :: "row \<Rightarrow> (char + string) list \<Rightarrow> string \<times> string list" where
  "render_key r [] = ([], [])"
| "render_key r (Inl c # ps) = (let (t, m) = render_key r ps in (c # t, m))"
| "render_key r (Inr n # ps) =
     (let (t, m) = render_key r ps in
      (case key_part r n of Some x \<Rightarrow> (x @ t, m) | None \<Rightarrow> (t, n # m)))"

text \<open>\<open>Inl\<close> is the \<^verbatim>\<open>RedisKeyError\<close>: the columns the row has no value for.\<close>

definition renderRedisKey :: "string \<Rightarrow> row \<Rightarrow> string list + string" where
  "renderRedisKey template r =
     (let (key, missing) = render_key r (key_pieces template)
      in if missing \<noteq> [] then Inl (uniq missing) else Inr key)"

datatype redis_payload = Hash_fields "(string \<times> redis_text option) list" | String_value redis_text

record redis_row =
  rr_key :: string
  rr_value :: redis_payload
  rr_ttl :: int

definition document_value :: "jsval \<Rightarrow> jsval" where
  "document_value v = (if v = JUnchanged \<or> v = JUndefined then JNull else v)"

definition toRedisRow :: "redis_config \<Rightarrow> row \<Rightarrow> string list + redis_row" where
  "toRedisRow cfg r =
     (case renderRedisKey (rd_keyTemplate cfg) r of
        Inl missing \<Rightarrow> Inl missing
      | Inr key \<Rightarrow>
          Inr \<lparr>rr_key = key,
               rr_value =
                 (case rd_type cfg of
                    Redis_hash \<Rightarrow> Hash_fields (map (\<lambda>(c, v). (c, redisText v)) r)
                  | Redis_json \<Rightarrow>
                      String_value (RText (safe_text (JObj (map (\<lambda>(c, v). (c, document_value v)) r))))
                  | Redis_string \<Rightarrow>
                      String_value
                        (case redisText (row_get r (case rd_valueColumn cfg of None \<Rightarrow> ''undefined'' | Some c \<Rightarrow> c)) of
                           None \<Rightarrow> RText [] | Some t \<Rightarrow> t)),
               rr_ttl = (case rd_ttlSeconds cfg of None \<Rightarrow> 0 | Some n \<Rightarrow> n)\<rparr>)"

section \<open>A key is a function of its columns\<close>

lemma empty_token_Cons: "has_empty_token s \<Longrightarrow> has_empty_token (c # s)"
  by simp

lemma empty_token_append: "has_empty_token s \<Longrightarrow> has_empty_token (u @ s)"
  by (induction u) auto

lemma trim_Nil_all_ws: "trim s = [] \<Longrightarrow> list_all ws_char s"
proof -
  assume a: "trim s = []"
  have "list_all ws_char (trim_start s)"
    using a by (simp add: trim_def trim_end_def list_all_iff)
  then have "trim_start s = []"
    by (metis hd_dropWhile list_all_iff list.set_sel(1) trim_start_def)
  then show ?thesis by (simp add: trim_start_def list_all_iff)
qed

lemma key_token_empty:
  assumes "key_token_at s = Some ([], r)"
  shows "has_empty_token s"
proof -
  let ?t = "drop 2 s"
  let ?b = "takeWhile (\<lambda>c. \<not> brace c) ?t"
  have s: "take 2 s = ''{{''" and b: "trim ?b = []" and c: "take 2 (drop (length ?b) ?t) = ''}}''"
    using assms by (auto simp: key_token_at_def Let_def split: if_splits)
  have "?t = ?b @ drop (length ?b) ?t" by (metis append_take_drop_id takeWhile_eq_take)
  then have t: "?t = ?b @ ''}}'' @ drop 2 (drop (length ?b) ?t)" using c by (metis append_take_drop_id)
  have ws: "list_all ws_char ?b" by (rule trim_Nil_all_ws [OF b])
  have close: "\<not> ws_char (CHR ''}'')" by (simp add: ws_char_def)
  have "dropWhile ws_char ?t = ''}}'' @ drop 2 (drop (length ?b) ?t)"
    using ws close by (subst t) (simp add: dropWhile_append2 list_all_iff)
  then have "take 2 (dropWhile ws_char ?t) = ''}}''" by simp
  with s show ?thesis by (cases s) auto
qed

lemma key_token_suffix: "key_token_at s = Some (n, r) \<Longrightarrow> \<exists>u. s = u @ r"
  by (auto simp: key_token_at_def Let_def split: if_splits) (metis append_take_drop_id drop_drop)

lemma key_names_nonempty: "\<not> has_empty_token s \<Longrightarrow> [] \<notin> set (piece_names (key_pieces s))"
proof (induction s rule: key_pieces.induct)
  case (1 s)
  show ?case
  proof (cases "key_token_at s")
    case None
    show ?thesis
    proof (cases s)
      case Nil
      then show ?thesis by (simp add: key_pieces.simps [of "[]"] key_token_at_def)
    next
      case (Cons c t)
      with 1(1) [OF None Cons] 1(3) None show ?thesis by (simp add: key_pieces.simps [of "c # t"])
    qed
  next
    case (Some p)
    obtain n r where p: "p = (n, r)" by force
    with Some have n: "key_token_at s = Some (n, r)" by simp
    have "n \<noteq> []" using n key_token_empty 1(3) by blast
    moreover have "\<not> has_empty_token r" using key_token_suffix [OF n] empty_token_append 1(3) by blast
    ultimately show ?thesis using 1(2) [OF Some p [symmetric]] n by (simp add: key_pieces.simps [of s])
  qed
qed

lemma key_columns_names:
  "redis_valid cfg \<Longrightarrow> redisKeyColumns (rd_keyTemplate cfg) = uniq (piece_names (key_pieces (rd_keyTemplate cfg)))"
proof -
  assume "redis_valid cfg"
  then have "\<not> has_empty_token (rd_keyTemplate cfg)"
    by (auto simp: redis_valid_def redis_issues_def Let_def split: if_splits option.splits)
  then have "filter (\<lambda>n. n \<noteq> []) (piece_names (key_pieces (rd_keyTemplate cfg))) = piece_names (key_pieces (rd_keyTemplate cfg))"
    using key_names_nonempty by (auto simp: filter_id_conv)
  then show ?thesis by (simp add: redisKeyColumns_def)
qed

lemma render_key_missing:
  "snd (render_key r ps) = filter (\<lambda>n. key_part r n = None) (piece_names ps)"
proof (induction ps)
  case (Cons p ps)
  then show ?case by (cases p) (auto simp: case_prod_beta Let_def split: option.splits)
qed simp

lemma render_key_cong:
  "(\<And>n. n \<in> set (piece_names ps) \<Longrightarrow> row_get r1 n = row_get r2 n) \<Longrightarrow> render_key r1 ps = render_key r2 ps"
proof (induction ps)
  case (Cons p ps)
  then show ?case by (cases p) (auto simp: key_part_def)
qed simp

text \<open>
  The key a row is stored under is a function of the target's key columns alone, so every
  later change of the row that leaves them as they are - a delete that carries only them,
  an update of another column - finds the same key.
\<close>
theorem redis_key_is_the_key_columns:
  assumes "redis_valid cfg"
    and "\<forall>c \<in> set (redisKeyColumns (rd_keyTemplate cfg)). row_get r1 c = row_get r2 c"
  shows "renderRedisKey (rd_keyTemplate cfg) r1 = renderRedisKey (rd_keyTemplate cfg) r2"
proof -
  have "render_key r1 (key_pieces (rd_keyTemplate cfg)) = render_key r2 (key_pieces (rd_keyTemplate cfg))"
    using assms by (intro render_key_cong) (simp add: key_columns_names)
  then show ?thesis by (simp add: renderRedisKey_def)
qed

definition user_key :: redis_config where
  "user_key = \<lparr>rd_keyTemplate = ''tenant:{{ t }}:user:{{id}}'', rd_type = Redis_hash, rd_valueColumn = None,
     rd_ttlSeconds = Some 60\<rparr>"

lemma user_key_valid: "redis_valid user_key"
  by code_simp

theorem redis_key_is_the_key_columns_witness:
  "renderRedisKey (rd_keyTemplate user_key) [(''t'', JStr ''a''), (''id'', JNum (Num 4)), (''n'', JNull)] =
     Inr ''tenant:a:user:4'' \<and>
   renderRedisKey (rd_keyTemplate user_key) [(''t'', JStr ''a''), (''id'', JNum (Num 4)), (''n'', JNull)] =
     renderRedisKey (rd_keyTemplate user_key) [(''id'', JNum (Num 4)), (''t'', JStr ''a'')]"
proof
  have "\<forall>c \<in> set (redisKeyColumns (rd_keyTemplate user_key)).
      row_get [(''t'', JStr ''a''), (''id'', JNum (Num 4)), (''n'', JNull)] c = row_get [(''id'', JNum (Num 4)), (''t'', JStr ''a'')] c"
    by code_simp
  from redis_key_is_the_key_columns [OF user_key_valid this]
  show "renderRedisKey (rd_keyTemplate user_key) [(''t'', JStr ''a''), (''id'', JNum (Num 4)), (''n'', JNull)] =
     renderRedisKey (rd_keyTemplate user_key) [(''id'', JNum (Num 4)), (''t'', JStr ''a'')]" .
  show "renderRedisKey (rd_keyTemplate user_key) [(''t'', JStr ''a''), (''id'', JNum (Num 4)), (''n'', JNull)] =
     Inr ''tenant:a:user:4''" by code_simp
qed

text \<open>
  C33: A row is refused exactly when some key column has no value (null, absent, marked
  unchanged, an invalid date, or empty text), and the error names exactly those columns, once
  each, in the order of the template: no row is ever written under a shortened key.
\<close>
theorem redis_key_refused_iff_column_missing:
  assumes "redis_valid cfg"
  shows "let missing = filter (\<lambda>c. key_part r c = None) (redisKeyColumns (rd_keyTemplate cfg))
    in (missing \<noteq> [] \<longrightarrow> renderRedisKey (rd_keyTemplate cfg) r = Inl missing \<and> toRedisRow cfg r = Inl missing) \<and>
       (missing = [] \<longrightarrow> (\<exists>key. renderRedisKey (rd_keyTemplate cfg) r = Inr key \<and>
          (\<exists>out. toRedisRow cfg r = Inr out \<and> rr_key out = key)))"
proof -
  let ?ps = "key_pieces (rd_keyTemplate cfg)"
  let ?m = "filter (\<lambda>c. key_part r c = None) (piece_names ?ps)"
  obtain key where key: "render_key r ?ps = (key, ?m)"
    by (metis prod.collapse render_key_missing)
  have u: "filter (\<lambda>c. key_part r c = None) (redisKeyColumns (rd_keyTemplate cfg)) = uniq ?m"
    by (simp add: key_columns_names [OF assms] uniq_filter)
  have nil: "uniq ?m = [] \<longleftrightarrow> ?m = []" by (metis set_empty set_uniq)
  show ?thesis unfolding u Let_def using key nil by (auto simp: renderRedisKey_def toRedisRow_def)
qed

theorem redis_key_refused_iff_column_missing_witness:
  "toRedisRow user_key [(''id'', JStr '''')] = Inl [''t'', ''id'']"
proof -
  have "filter (\<lambda>c. key_part [(''id'', JStr '''')] c = None) (redisKeyColumns (rd_keyTemplate user_key)) = [''t'', ''id'']"
    by code_simp
  with redis_key_refused_iff_column_missing [OF user_key_valid, of "[(''id'', JStr '''')]"]
  show ?thesis by (simp add: Let_def)
qed

section \<open>A document always has a text\<close>

lemma json_items_total: "(\<And>v. v \<in> set vs \<Longrightarrow> js_stringify v \<noteq> Throws) \<Longrightarrow> json_items vs \<noteq> None"
  by (induction vs) (auto split: json_out.splits)

lemma json_fields_total: "(\<And>e. e \<in> set fs \<Longrightarrow> js_stringify (snd e) \<noteq> Throws) \<Longrightarrow> json_fields fs \<noteq> None"
proof (induction fs)
  case (Cons f fs)
  have "json_fields fs \<noteq> None" by (rule Cons.IH) (simp add: Cons.prems)
  moreover have "js_stringify (snd f) \<noteq> Throws" by (simp add: Cons.prems)
  ultimately show ?case by (cases f) (auto split: json_out.splits)
qed simp

lemma json_safe_total: "js_stringify (json_safe v) \<noteq> Throws"
proof (induction v rule: json_safe.induct)
  case (3 vs)
  then have "json_items (map json_safe vs) \<noteq> None" by (intro json_items_total) auto
  then show ?case by auto
next
  case (4 fs)
  show ?case
  proof (cases "buffer_fields fs")
    case None
    have "json_fields (map (\<lambda>(k, v). (k, json_safe v)) fs) \<noteq> None"
      by (rule json_fields_total) (use 4 None in auto)
    with None show ?thesis by auto
  qed simp
qed (auto split: option.splits)

text \<open>
  Writing a row as a JSON document never fails on a value JSON cannot spell: whatever the row
  holds - bigints and bytes inside arrays and objects included - its document has a text.
\<close>
theorem redis_document_always_has_text:
  "\<exists>t. js_stringify (json_safe (JObj (map (\<lambda>(c, v). (c, document_value v)) r))) = JText t"
proof -
  let ?d = "json_safe (JObj (map (\<lambda>(c, v). (c, document_value v)) r))"
  have "js_stringify ?d \<noteq> Throws" by (rule json_safe_total)
  moreover have "js_stringify ?d \<noteq> Omitted" by (auto split: option.splits)
  ultimately show ?thesis by (cases "js_stringify ?d") auto
qed

end
