(* ===== verification/Filter_Match.thy ===== *)
theory Filter_Match
  imports Js_Value
begin

text \<open>
  In-process evaluation of a bridge's source filters against one change row,
  \<^verbatim>\<open>apps/api/src/bridges/cdc/filter-match.ts\<close>. The host's \<^verbatim>\<open>Date.parse\<close>
  is read from the \<open>host\<close> record. A column is one of the row's own properties: names of
  \<^verbatim>\<open>Object.prototype\<close> are not columns.
\<close>

section \<open>Data\<close>

datatype filter_operator =
    Eq | Neq | Lt | Lte | Gt | Gte | Contains | StartsWith | EndsWith | IsNull | NotNull | In_list

record filter_spec =
  f_column :: string
  f_operator :: filter_operator
  f_value :: jsval

section \<open>Three-way comparison with light coercion\<close>

fun toNumber :: "jsval \<Rightarrow> jsnum option" where
  "toNumber (JNum n) = (if n = NaN then None else Some n)"
| "toNumber (JBigInt i) = Some (round64 (of_int i))"
| "toNumber (JBool b) = Some (Num (if b then 1 else 0))"
| "toNumber (JStr s) =
     (if trim s = [] then None
      else (let n = js_number_of_string s in if n = NaN then None else Some n))"
| "toNumber _ = None"

fun toTime :: "host \<Rightarrow> jsval \<Rightarrow> int option" where
  "toTime h (JDate d) = d"
| "toTime h (JStr s) = date_parse h s"
| "toTime h _ = None"

fun is_date :: "jsval \<Rightarrow> bool" where
  "is_date (JDate _) = True"
| "is_date _ = False"

definition asString :: "host \<Rightarrow> jsval \<Rightarrow> string" where
  "asString h v =
     (if is_object v then (case js_stringify v of JText t \<Rightarrow> t | _ \<Rightarrow> js_string h v)
      else js_string h v)"

datatype ordering = LT | EQ | GT

definition num_ordering :: "jsnum \<Rightarrow> jsnum \<Rightarrow> ordering" where
  "num_ordering a b = (if num_eq a b then EQ else if num_less a b then LT else GT)"

definition lin_ordering :: "'a::linorder \<Rightarrow> 'a \<Rightarrow> ordering" where
  "lin_ordering a b = (if a = b then EQ else if a < b then LT else GT)"

definition compare_values :: "host \<Rightarrow> jsval \<Rightarrow> jsval \<Rightarrow> ordering option" where
  "compare_values h r f =
     (if is_nil r \<or> is_nil f then None
      else
        (case (toNumber r, toNumber f) of
           (Some a, Some b) \<Rightarrow> Some (num_ordering a b)
         | _ \<Rightarrow>
             (case (if is_date r \<or> is_date f then (toTime h r, toTime h f) else (None, None)) of
                (Some a, Some b) \<Rightarrow> Some (lin_ordering a b)
              | _ \<Rightarrow> Some (lin_ordering (asString h r) (asString h f)))))"

section \<open>Operators\<close>

definition likeHaystack :: "host \<Rightarrow> jsval \<Rightarrow> string option" where
  "likeHaystack h v = (if is_nil v then None else Some (to_lower (asString h v)))"

definition likeNeedle :: "host \<Rightarrow> jsval \<Rightarrow> string" where
  "likeNeedle h v = to_lower (if is_nil v then [] else js_string h v)"

definition like_with :: "(string \<Rightarrow> string \<Rightarrow> bool) \<Rightarrow> host \<Rightarrow> jsval \<Rightarrow> jsval \<Rightarrow> bool" where
  "like_with p h v f = (case likeHaystack h v of None \<Rightarrow> False | Some t \<Rightarrow> p t (likeNeedle h f))"

definition matchesOne :: "host \<Rightarrow> jsval \<Rightarrow> filter_spec \<Rightarrow> bool" where
  "matchesOne h v f =
     (let c = compare_values h v (f_value f)
      in case f_operator f of
           IsNull \<Rightarrow> is_nil v
         | NotNull \<Rightarrow> \<not> is_nil v
         | Eq \<Rightarrow> c = Some EQ
         | Neq \<Rightarrow> c \<noteq> None \<and> c \<noteq> Some EQ
         | Lt \<Rightarrow> c = Some LT
         | Lte \<Rightarrow> c = Some LT \<or> c = Some EQ
         | Gt \<Rightarrow> c = Some GT
         | Gte \<Rightarrow> c = Some GT \<or> c = Some EQ
         | Contains \<Rightarrow> like_with str_includes h v (f_value f)
         | StartsWith \<Rightarrow> like_with starts_with h v (f_value f)
         | EndsWith \<Rightarrow> like_with ends_with h v (f_value f)
         | In_list \<Rightarrow> (case f_value f of
                          JArr vs \<Rightarrow> list_ex (\<lambda>x. compare_values h v x = Some EQ) vs
                        | _ \<Rightarrow> False))"

text \<open>The loop of \<^verbatim>\<open>rowMatchesFilters\<close>, with its two ways to pass over a filter.\<close>

fun rowMatchesFilters :: "host \<Rightarrow> bool \<Rightarrow> row \<Rightarrow> filter_spec list \<Rightarrow> bool" where
  "rowMatchesFilters h passMissing r [] = True"
| "rowMatchesFilters h passMissing r (f # fs) =
     (if passMissing \<and> \<not> row_has r (f_column f) then rowMatchesFilters h passMissing r fs
      else if row_get r (f_column f) = JUnchanged then rowMatchesFilters h passMissing r fs
      else if \<not> matchesOne h (row_get r (f_column f)) f then False
      else rowMatchesFilters h passMissing r fs)"

section \<open>The comparison is an ordering\<close>

fun opposite :: "ordering \<Rightarrow> ordering" where
  "opposite LT = GT" | "opposite EQ = EQ" | "opposite GT = LT"

lemma opposite_EQ [simp]: "opposite x = EQ \<longleftrightarrow> x = EQ" "opposite x = LT \<longleftrightarrow> x = GT" "opposite x = GT \<longleftrightarrow> x = LT"
  by (cases x; simp)+

lemma lin_ordering_opposite: "lin_ordering b a = opposite (lin_ordering a b)"
  by (auto simp: lin_ordering_def)

lemma num_ordering_opposite:
  "a \<noteq> NaN \<Longrightarrow> b \<noteq> NaN \<Longrightarrow> num_ordering b a = opposite (num_ordering a b)"
  using num_less_trichotomy [of a b] num_less_asym [of a b]
  by (auto simp: num_ordering_def num_eq_iff)

lemma round64_not_NaN [simp]: "round64 q \<noteq> NaN"
  by (simp add: round64_def Let_def)

lemma toNumber_not_NaN: "toNumber v = Some n \<Longrightarrow> n \<noteq> NaN"
  by (cases v) (auto simp: Let_def split: if_splits)

lemma compare_values_opposite:
  "compare_values h b a = map_option opposite (compare_values h a b)"
proof (cases "is_nil a \<or> is_nil b")
  case True
  then show ?thesis by (auto simp: compare_values_def)
next
  case nn: False
  show ?thesis
  proof (cases "toNumber a = None \<or> toNumber b = None")
    case False
    then obtain x y where xy: "toNumber a = Some x" "toNumber b = Some y" by auto
    then have "num_ordering y x = opposite (num_ordering x y)"
      by (intro num_ordering_opposite) (auto dest: toNumber_not_NaN)
    with nn xy show ?thesis by (simp add: compare_values_def)
  next
    case nnum: True
    show ?thesis
    proof (cases "(is_date a \<or> is_date b) \<and> toTime h a \<noteq> None \<and> toTime h b \<noteq> None")
      case True
      then obtain x y where "toTime h a = Some x" "toTime h b = Some y" by auto
      with nn nnum True lin_ordering_opposite [of y x] show ?thesis
        by (auto simp: compare_values_def split: option.splits)
    next
      case False
      have "compare_values h a b = Some (lin_ordering (asString h a) (asString h b))"
        "compare_values h b a = Some (lin_ordering (asString h b) (asString h a))"
        using nn nnum False by (auto simp: compare_values_def split: option.splits)
      then show ?thesis by (simp only: option.map lin_ordering_opposite [of "asString h b"])
    qed
  qed
qed

lemma compare_values_nil [simp]:
  "is_nil v \<Longrightarrow> compare_values h v f = None" "is_nil f \<Longrightarrow> compare_values h v f = None"
  by (auto simp: compare_values_def)

lemma compare_values_not_nil: "\<not> is_nil v \<Longrightarrow> \<not> is_nil f \<Longrightarrow> compare_values h v f \<noteq> None"
  by (auto simp: compare_values_def split: option.splits prod.splits)


section \<open>Properties\<close>

definition filter_passes :: "host \<Rightarrow> bool \<Rightarrow> row \<Rightarrow> filter_spec \<Rightarrow> bool" where
  "filter_passes h passMissing r f =
     ((passMissing \<and> \<not> row_has r (f_column f)) \<or> row_get r (f_column f) = JUnchanged
      \<or> matchesOne h (row_get r (f_column f)) f)"

lemma rowMatchesFilters_all:
  "rowMatchesFilters h pm r fs = (\<forall>f \<in> set fs. filter_passes h pm r f)"
  by (induction fs) (auto simp: filter_passes_def)


definition no_host :: host where
  "no_host = \<lparr>date_parse = (\<lambda>_. None), date_text = (\<lambda>_. []), utf8_text = (\<lambda>_. [])\<rparr>"


text \<open>
  SQL's NULL: a value that is null or undefined satisfies no comparison, no LIKE and no
  list, not even \<^verbatim>\<open>neq\<close>; only \<^verbatim>\<open>isNull\<close> sees it.
\<close>

theorem null_matches_only_isNull:
  assumes "is_nil v"
  shows "matchesOne h v f \<longleftrightarrow> f_operator f = IsNull"
proof (cases "f_operator f")
  case In_list
  with assms show ?thesis
    by (cases "f_value f") (auto simp: matchesOne_def list_ex_iff)
qed (use assms in \<open>auto simp: matchesOne_def like_with_def likeHaystack_def\<close>)

theorem null_matches_only_isNull_witness:
  "\<not> matchesOne no_host JNull \<lparr>f_column = ''a'', f_operator = Neq, f_value = JStr ''x''\<rparr>"
  using null_matches_only_isNull [of JNull] by simp

definition with_op :: "filter_operator \<Rightarrow> jsval \<Rightarrow> filter_spec" where
  "with_op opr v = \<lparr>f_column = [], f_operator = opr, f_value = v\<rparr>"

text \<open>
  On two values that are not null the six comparison operators are those of one total
  order: exactly one of \<^verbatim>\<open>lt\<close>, \<^verbatim>\<open>eq\<close>, \<^verbatim>\<open>gt\<close> holds, the others are
  their unions and complements, and swapping the sides swaps \<^verbatim>\<open>lt\<close> and
  \<^verbatim>\<open>gt\<close>.
\<close>

theorem comparison_operators:
  assumes "\<not> is_nil v" and "\<not> is_nil w"
  shows "(matchesOne h v (with_op Eq w) \<or> matchesOne h v (with_op Lt w) \<or> matchesOne h v (with_op Gt w)) \<and>
    \<not> (matchesOne h v (with_op Eq w) \<and> matchesOne h v (with_op Lt w)) \<and>
    \<not> (matchesOne h v (with_op Eq w) \<and> matchesOne h v (with_op Gt w)) \<and>
    \<not> (matchesOne h v (with_op Lt w) \<and> matchesOne h v (with_op Gt w)) \<and>
    (matchesOne h v (with_op Neq w) \<longleftrightarrow> \<not> matchesOne h v (with_op Eq w)) \<and>
    (matchesOne h v (with_op Lte w) \<longleftrightarrow> \<not> matchesOne h v (with_op Gt w)) \<and>
    (matchesOne h v (with_op Gte w) \<longleftrightarrow> \<not> matchesOne h v (with_op Lt w)) \<and>
    (matchesOne h v (with_op Lt w) \<longleftrightarrow> matchesOne h w (with_op Gt v))"
proof -
  obtain c where c: "compare_values h v w = Some c"
    using compare_values_not_nil [OF assms] by blast
  then have "compare_values h w v = Some (opposite c)"
    by (simp add: compare_values_opposite [of h w v])
  with c show ?thesis by (cases c) (simp_all add: matchesOne_def with_op_def)
qed

theorem comparison_operators_witness:
  "matchesOne no_host (JStr ''b'') (with_op Lte (JStr ''c''))"
proof -
  have "\<not> matchesOne no_host (JStr ''b'') (with_op Gt (JStr ''c''))" by code_simp
  with comparison_operators [of "JStr ''b''" "JStr ''c''" no_host] show ?thesis by simp
qed

end
