(* ===== verification/Schedule.thy ===== *)
theory Schedule
  imports Prelude
begin

text \<open>
  The schedule of a replay, \<^verbatim>\<open>packages/core/src/bridges/schedule.ts\<close>: the shape of a
  cron line and of a time zone's name. A problem is a value of \<open>cron_problem\<close>; its wording
  is left out. Whether the runtime knows a zone (\<^verbatim>\<open>Intl.DateTimeFormat\<close>) is the
  parameter \<open>known\<close>.
\<close>

section \<open>Fields\<close>

record field_rule =
  fr_name :: string
  fr_min :: nat
  fr_max :: nat
  fr_names :: "string list"
  fr_first :: nat

definition MONTHS :: "string list" where
  "MONTHS = [''jan'', ''feb'', ''mar'', ''apr'', ''may'', ''jun'', ''jul'', ''aug'', ''sep'', ''oct'',
     ''nov'', ''dec'']"

definition DAYS :: "string list" where
  "DAYS = [''sun'', ''mon'', ''tue'', ''wed'', ''thu'', ''fri'', ''sat'']"

text \<open>\<open>fr_first\<close> is the value of the first name (\<^verbatim>\<open>rule.names === MONTHS ? at + 1 : at\<close>).\<close>

definition FIELDS :: "field_rule list" where
  "FIELDS =
     [\<lparr>fr_name = ''minute'', fr_min = 0, fr_max = 59, fr_names = [], fr_first = 0\<rparr>,
      \<lparr>fr_name = ''hour'', fr_min = 0, fr_max = 23, fr_names = [], fr_first = 0\<rparr>,
      \<lparr>fr_name = ''day of month'', fr_min = 1, fr_max = 31, fr_names = [], fr_first = 0\<rparr>,
      \<lparr>fr_name = ''month'', fr_min = 1, fr_max = 12, fr_names = MONTHS, fr_first = 1\<rparr>,
      \<lparr>fr_name = ''day of week'', fr_min = 0, fr_max = 7, fr_names = DAYS, fr_first = 0\<rparr>]"

fun index_of :: "'a \<Rightarrow> 'a list \<Rightarrow> nat option" where
  "index_of x [] = None"
| "index_of x (y # ys) = (if x = y then Some 0 else map_option Suc (index_of x ys))"

text \<open>\<^verbatim>\<open>/^\d{1,2}$/\<close>\<close>

definition one_or_two_digits :: "string \<Rightarrow> bool" where
  "one_or_two_digits s = (list_all is_digit s \<and> (length s = 1 \<or> length s = 2))"

definition valueOf :: "string \<Rightarrow> field_rule \<Rightarrow> nat option" where
  "valueOf text rule =
     (if one_or_two_digits text then
        (let n = read_digits 0 text in if fr_min rule \<le> n \<and> n \<le> fr_max rule then Some n else None)
      else map_option (\<lambda>at. at + fr_first rule) (index_of (to_lower text) (fr_names rule)))"

datatype cron_problem =
    Six_fields | Field_count nat | Not_a_value string | Bad_step string | Not_a_range string
  | Out_of_range string | Backwards string | Step_alone string

definition step_ok :: "string \<Rightarrow> field_rule \<Rightarrow> bool" where
  "step_ok s rule = (one_or_two_digits s \<and> 1 \<le> read_digits 0 s \<and> read_digits 0 s \<le> fr_max rule)"

definition range_problem :: "string \<Rightarrow> string \<Rightarrow> bool \<Rightarrow> field_rule \<Rightarrow> cron_problem option" where
  "range_problem part base stepped rule =
     (if base = ''*'' then None
      else
        (let ends = split_on (CHR ''-'') base; values = map (\<lambda>e. valueOf e rule) ends
         in if 2 < length ends then Some (Not_a_range base)
            else if None \<in> set values then Some (Out_of_range base)
            else if length values = 2 \<and> the (values ! 1) < the (values ! 0) then Some (Backwards base)
            else if stepped \<and> length ends = 1 then Some (Step_alone part)
            else None))"

definition partProblem :: "string \<Rightarrow> field_rule \<Rightarrow> cron_problem option" where
  "partProblem part rule =
     (case split_on (CHR ''/'') part of
        [base] \<Rightarrow>
          if base = [] then Some (Not_a_value part) else range_problem part base False rule
      | [base, step] \<Rightarrow>
          if base = [] then Some (Not_a_value part)
          else if \<not> step_ok step rule then Some (Bad_step step)
          else range_problem part base True rule
      | _ \<Rightarrow> Some (Not_a_value part))"

text \<open>\<^verbatim>\<open>s.trim().split(/\s+/).filter(Boolean)\<close>\<close>

function words :: "string \<Rightarrow> string list" where
  "words s =
     (let t = dropWhile ws_char s in
      if t = [] then []
      else takeWhile (\<lambda>c. \<not> ws_char c) t # words (dropWhile (\<lambda>c. \<not> ws_char c) t))"
  by pat_completeness auto
termination
proof (relation "measure length", simp)
  fix s t :: string
  assume t: "t = dropWhile ws_char s" and ne: "t \<noteq> []"
  then obtain c u where c: "t = c # u" by (meson list.exhaust)
  have "\<not> ws_char c" using hd_dropWhile [of ws_char s] ne unfolding t [symmetric] c by simp
  then have "length (dropWhile (\<lambda>c. \<not> ws_char c) t) \<le> length u" by (simp add: c length_dropWhile_le)
  also have "\<dots> < length t" by (simp add: c)
  also have "\<dots> \<le> length s" unfolding t by (rule length_dropWhile_le)
  finally show "(dropWhile (\<lambda>c. \<not> ws_char c) t, s) \<in> measure length" by simp
qed

declare words.simps [simp del]

fun first_problem :: "(string \<times> field_rule) list \<Rightarrow> cron_problem option" where
  "first_problem [] = None"
| "first_problem ((part, rule) # rest) =
     (case partProblem part rule of Some p \<Rightarrow> Some p | None \<Rightarrow> first_problem rest)"

definition cronProblem :: "string \<Rightarrow> cron_problem option" where
  "cronProblem line =
     (let fields = words line
      in if length fields = 6 then Some Six_fields
         else if length fields \<noteq> 5 then Some (Field_count (length fields))
         else first_problem
           (concat (map (\<lambda>(field, rule). map (\<lambda>part. (part, rule)) (split_on (CHR '','') field))
             (zip fields FIELDS))))"

section \<open>Time zones and the schedule\<close>

definition zone_char :: "char \<Rightarrow> bool" where
  "zone_char c = (let n = (of_char c :: nat) in (65 \<le> n \<and> n \<le> 90) \<or> (97 \<le> n \<and> n \<le> 122) \<or> n = 95)"

definition zone_part_char :: "char \<Rightarrow> bool" where
  "zone_part_char c = (zone_char c \<or> is_digit c \<or> c = CHR ''+'' \<or> c = CHR ''-'')"

definition zone_shape :: "string \<Rightarrow> bool" where
  "zone_shape z =
     (z = ''UTC'' \<or>
      (case split_on (CHR ''/'') z of
         area # part # parts \<Rightarrow>
           area \<noteq> [] \<and> list_all zone_char area \<and>
           list_all (\<lambda>p. p \<noteq> [] \<and> list_all zone_part_char p) (part # parts)
       | _ \<Rightarrow> False))"

definition isValidTimeZone :: "(string \<Rightarrow> bool) \<Rightarrow> string \<Rightarrow> bool" where
  "isValidTimeZone known z = (zone_shape z \<and> known z)"

record replay_schedule =
  rs_cron :: string
  rs_timezone :: string
  rs_enabled :: bool

definition normal_line :: "string \<Rightarrow> string" where
  "normal_line line = join_with '' '' (words line)"

definition parse_schedule ::
  "(string \<Rightarrow> bool) \<Rightarrow> string \<Rightarrow> string option \<Rightarrow> bool option \<Rightarrow> replay_schedule option" where
  "parse_schedule known cron timezone enabled =
     (let line = trim cron; zone = (case timezone of None \<Rightarrow> ''UTC'' | Some z \<Rightarrow> trim z)
      in if length line \<le> 120 \<and> cronProblem line = None \<and> length zone \<le> 64 \<and> isValidTimeZone known zone
         then Some \<lparr>rs_cron = normal_line line, rs_timezone = zone,
                    rs_enabled = (case enabled of None \<Rightarrow> True | Some b \<Rightarrow> b)\<rparr>
         else None)"

section \<open>The grammar of a part, and the values it stands for\<close>

inductive cron_part :: "field_rule \<Rightarrow> string \<Rightarrow> nat set \<Rightarrow> bool" where
  any: "cron_part rule ''*'' {fr_min rule..fr_max rule}"
| one: "valueOf v rule = Some n \<Longrightarrow> CHR ''-'' \<notin> set v \<Longrightarrow> CHR ''/'' \<notin> set v \<Longrightarrow> v \<noteq> ''*'' \<Longrightarrow> cron_part rule v {n}"
| range: "valueOf a rule = Some m \<Longrightarrow> valueOf b rule = Some n \<Longrightarrow> m \<le> n \<Longrightarrow>
     CHR ''-'' \<notin> set (a @ b) \<Longrightarrow> CHR ''/'' \<notin> set (a @ b) \<Longrightarrow>
     cron_part rule (a @ CHR ''-'' # b) {m..n}"
| every: "step_ok s rule \<Longrightarrow> CHR ''/'' \<notin> set s \<Longrightarrow>
     cron_part rule (''*/'' @ s) {n. n \<le> fr_max rule \<and> (\<exists>k. n = fr_min rule + k * read_digits 0 s)}"
| range_every: "valueOf a rule = Some m \<Longrightarrow> valueOf b rule = Some n \<Longrightarrow> m \<le> n \<Longrightarrow> step_ok s rule \<Longrightarrow>
     CHR ''-'' \<notin> set (a @ b) \<Longrightarrow> CHR ''/'' \<notin> set (a @ b @ s) \<Longrightarrow>
     cron_part rule (a @ CHR ''-'' # b @ CHR ''/'' # s) {x. x \<le> n \<and> (\<exists>k. x = m + k * read_digits 0 s)}"

section \<open>The checks accept exactly the grammar\<close>

lemma split_on_one: "split_on c s = [a] \<longleftrightarrow> a = s \<and> c \<notin> set s"
proof
  assume a: "split_on c s = [a]"
  have "a = s" using join_split_on [of c s] a by simp
  moreover have "c \<notin> set a" by (rule split_on_pieces [of a c s]) (simp add: a)
  ultimately show "a = s \<and> c \<notin> set s" by simp
qed (simp add: split_on_absent)

lemma split_on_two: "split_on c s = [a, b] \<longleftrightarrow> s = a @ c # b \<and> c \<notin> set a \<and> c \<notin> set b"
proof
  assume a: "split_on c s = [a, b]"
  have "s = a @ c # b" using join_split_on [of c s] a by simp
  moreover have "c \<notin> set a" "c \<notin> set b" using split_on_pieces [of _ c s] a by auto
  ultimately show "s = a @ c # b \<and> c \<notin> set a \<and> c \<notin> set b" by simp
qed (auto simp: split_on_append split_on_absent)

lemma list_two_cases:
  assumes "length xs \<le> 2" and "xs \<noteq> []"
  obtains x where "xs = [x]" | x y where "xs = [x, y]"
  using assms by (cases xs; cases "tl xs") (auto simp: Suc_le_eq)

lemma range_problem_None:
  "range_problem part base stepped rule = None \<longleftrightarrow>
     base = ''*'' \<or>
     (base \<noteq> ''*'' \<and> \<not> stepped \<and> CHR ''-'' \<notin> set base \<and> valueOf base rule \<noteq> None) \<or>
     (base \<noteq> ''*'' \<and> (\<exists>a b m n. base = a @ CHR ''-'' # b \<and> CHR ''-'' \<notin> set (a @ b) \<and>
        valueOf a rule = Some m \<and> valueOf b rule = Some n \<and> m \<le> n))"
    (is "_ \<longleftrightarrow> ?S")
proof (cases "base = ''*''")
  case True
  then show ?thesis by (simp add: range_problem_def)
next
  case ns: False
  show ?thesis
  proof (cases "length (split_on (CHR ''-'') base) \<le> 2")
    case True
    then consider (lone) x where "split_on (CHR ''-'') base = [x]"
      | (two) x y where "split_on (CHR ''-'') base = [x, y]"
      using list_two_cases [OF _ split_on_nonempty] by metis
    then show ?thesis
    proof cases
      case (lone x)
      then have "x = base" "CHR ''-'' \<notin> set base" by (simp_all add: split_on_one)
      with ns lone show ?thesis by (auto simp: range_problem_def Let_def)
    next
      case (two x y)
      note 3 = two
      then have b: "base = x @ CHR ''-'' # y" "CHR ''-'' \<notin> set x" "CHR ''-'' \<notin> set y"
        by (simp_all add: split_on_two)
      have dash: "CHR ''-'' \<in> set base" and xy: "CHR ''-'' \<notin> set (x @ y)" using b by auto
      have unique: "a = x \<and> b = y" if "base = a @ CHR ''-'' # b" "CHR ''-'' \<notin> set (a @ b)" for a b
        using 3 that split_on_two [of "CHR ''-''" base a b] by auto
      have "range_problem part base stepped rule = None \<longleftrightarrow>
          (\<exists>m n. valueOf x rule = Some m \<and> valueOf y rule = Some n \<and> m \<le> n)"
        using ns 3 by (cases "valueOf x rule"; cases "valueOf y rule") (auto simp: range_problem_def Let_def)
      moreover have "?S \<longleftrightarrow> (\<exists>m n. valueOf x rule = Some m \<and> valueOf y rule = Some n \<and> m \<le> n)"
      proof
        assume ?S
        then obtain a b m n where ab: "base = a @ CHR ''-'' # b" "CHR ''-'' \<notin> set (a @ b)"
          "valueOf a rule = Some m" "valueOf b rule = Some n" "m \<le> n"
          using ns dash by blast
        with unique [OF ab(1,2)] show "\<exists>m n. valueOf x rule = Some m \<and> valueOf y rule = Some n \<and> m \<le> n"
          by blast
      next
        assume "\<exists>m n. valueOf x rule = Some m \<and> valueOf y rule = Some n \<and> m \<le> n"
        with ns b(1) xy show ?S by blast
      qed
      ultimately show ?thesis by simp
    qed
  next
    case False
    have "\<not> ?S"
    proof
      assume ?S
      then have "length (split_on (CHR ''-'') base) \<le> 2"
        using ns by (auto simp: split_on_absent split_on_append)
      with False show False ..
    qed
    moreover have "range_problem part base stepped rule \<noteq> None"
      using False ns by (simp add: range_problem_def Let_def)
    ultimately show ?thesis by blast
  qed
qed

lemma partProblem_sound:
  assumes "partProblem part rule = None"
  shows "\<exists>vs. cron_part rule part vs"
proof -
  consider (plain) base where "split_on (CHR ''/'') part = [base]" "base \<noteq> []" "range_problem part base False rule = None"
    | (step) base s where "split_on (CHR ''/'') part = [base, s]" "base \<noteq> []" "step_ok s rule"
        "range_problem part base True rule = None"
    using assms by (auto simp: partProblem_def split: list.splits if_splits)
  then show ?thesis
  proof cases
    case plain
    then have p: "base = part" "CHR ''/'' \<notin> set part" by (simp_all add: split_on_one)
    from plain(3) show ?thesis unfolding range_problem_None
    proof (elim disjE conjE exE)
      assume "base = ''*''"
      with p show ?thesis using any by blast
    next
      assume "valueOf base rule \<noteq> None" "CHR ''-'' \<notin> set base" "base \<noteq> ''*''"
      with p show ?thesis using one by blast
    next
      fix a b m n
      assume "base = a @ CHR ''-'' # b" "CHR ''-'' \<notin> set (a @ b)"
        "valueOf a rule = Some m" "valueOf b rule = Some n" "m \<le> n"
      with p cron_part.range [of a rule m b n] show ?thesis by auto
    qed
  next
    case step
    then have p: "part = base @ CHR ''/'' # s" "CHR ''/'' \<notin> set base" "CHR ''/'' \<notin> set s"
      by (simp_all add: split_on_two)
    from step(4) show ?thesis unfolding range_problem_None
    proof (elim disjE conjE exE)
      assume "base = ''*''"
      with p step(3) every [of s rule] show ?thesis by auto
    next
      fix a b m n
      assume "base = a @ CHR ''-'' # b" "CHR ''-'' \<notin> set (a @ b)"
        "valueOf a rule = Some m" "valueOf b rule = Some n" "m \<le> n"
      with p step(3) range_every [of a rule m b n s] show ?thesis by auto
    qed simp
  qed
qed

lemma not_star: "valueOf a rule = Some m \<Longrightarrow> a @ CHR ''-'' # b \<noteq> ''*''"
  by (cases a) auto

lemma valueOf_nonempty: "rule \<in> set FIELDS \<Longrightarrow> valueOf [] rule = None"
  by (auto simp: FIELDS_def valueOf_def one_or_two_digits_def MONTHS_def DAYS_def to_lower_def)

lemma partProblem_complete:
  assumes "cron_part rule part vs" and rule: "rule \<in> set FIELDS"
  shows "partProblem part rule = None"
  using assms(1)
proof cases
  case any
  then show ?thesis by (simp add: partProblem_def range_problem_def)
next
  case (one n)
  then have "part \<noteq> []" using valueOf_nonempty [OF rule] by auto
  with one show ?thesis by (simp add: partProblem_def split_on_absent range_problem_None)
next
  case (range a m b n)
  then have "split_on (CHR ''/'') part = [part]" by (simp add: split_on_absent)
  moreover have "range_problem part part False rule = None"
    unfolding range_problem_None using range not_star by blast
  moreover have "part \<noteq> []" using range by simp
  ultimately show ?thesis by (simp add: partProblem_def)
next
  case (every s)
  then have "split_on (CHR ''/'') part = [''*'', s]" by (simp add: split_on_absent)
  with every show ?thesis by (simp add: partProblem_def range_problem_def)
next
  case (range_every a m b n s)
  then have "split_on (CHR ''/'') part = [a @ CHR ''-'' # b, s]" by (simp add: split_on_two)
  moreover have "range_problem part (a @ CHR ''-'' # b) True rule = None"
    unfolding range_problem_None using range_every not_star by auto
  ultimately show ?thesis using range_every by (simp add: partProblem_def)
qed

lemma index_of_bound: "index_of x xs = Some i \<Longrightarrow> i < length xs"
  by (induction xs arbitrary: i) (auto split: if_splits)

lemma valueOf_range:
  assumes "rule \<in> set FIELDS" and "valueOf t rule = Some n"
  shows "fr_min rule \<le> n \<and> n \<le> fr_max rule"
proof (cases "one_or_two_digits t")
  case True
  with assms(2) show ?thesis by (auto simp: valueOf_def Let_def split: if_splits)
next
  case False
  then obtain i where i: "index_of (to_lower t) (fr_names rule) = Some i" "n = i + fr_first rule"
    using assms(2) by (auto simp: valueOf_def)
  from index_of_bound [OF i(1)] i(2) assms(1) show ?thesis
    by (auto simp: FIELDS_def MONTHS_def DAYS_def)
qed

lemma cron_part_values:
  assumes "cron_part rule part vs" and rule: "rule \<in> set FIELDS"
  shows "vs \<noteq> {} \<and> vs \<subseteq> {fr_min rule..fr_max rule}"
proof -
  have mm: "fr_min rule \<le> fr_max rule" using rule by (auto simp: FIELDS_def)
  show ?thesis using assms(1)
  proof cases
    case (one n)
    with valueOf_range [OF rule] show ?thesis by auto
  next
    case (range a m b n)
    with valueOf_range [OF rule, of a m] valueOf_range [OF rule, of b n] show ?thesis by auto
  next
    case (every s)
    then have "fr_min rule \<in> vs" using mm by (auto intro: exI [of _ 0])
    with every show ?thesis by auto
  next
    case (range_every a m b n s)
    then have "m \<in> vs" by (auto intro: exI [of _ 0])
    moreover have "vs \<subseteq> {m..n}" using range_every by auto
    ultimately show ?thesis
      using valueOf_range [OF rule, of a m] valueOf_range [OF rule, of b n] range_every by fastforce
  qed (use mm in auto)
qed

text \<open>
  C34: A part of a cron field is accepted exactly when it is one of the five classic forms -
  \<^verbatim>\<open>*\<close>, a value, a range, and a step over \<^verbatim>\<open>*\<close> or over a range - and then it
  stands for at least one value, all of them within the field.
\<close>
theorem cron_part_accepted_iff:
  assumes "rule \<in> set FIELDS"
  shows "(partProblem part rule = None \<longleftrightarrow> (\<exists>vs. cron_part rule part vs)) \<and>
    (\<forall>vs. cron_part rule part vs \<longrightarrow> vs \<noteq> {} \<and> vs \<subseteq> {fr_min rule..fr_max rule})"
  using partProblem_sound partProblem_complete [OF _ assms] cron_part_values [OF _ assms] by blast

theorem cron_part_accepted_iff_witness:
  "\<exists>vs. cron_part (FIELDS ! 4) ''mon-fri/2'' vs"
proof -
  have "partProblem ''mon-fri/2'' (FIELDS ! 4) = None" by code_simp
  moreover have "FIELDS ! 4 \<in> set FIELDS" by (simp add: FIELDS_def)
  ultimately show ?thesis using cron_part_accepted_iff by blast
qed

section \<open>One spelling of a line\<close>

lemma words_blank: "words [] = []"
  by (simp add: words.simps)

lemma words_step:
  assumes "dropWhile ws_char s = c # t"
  shows "words s = (c # takeWhile (\<lambda>c. \<not> ws_char c) t) # words (dropWhile (\<lambda>c. \<not> ws_char c) t)"
proof -
  have "\<not> ws_char c" using hd_dropWhile [of ws_char s] assms by simp
  then show ?thesis by (subst words.simps) (simp add: assms)
qed

lemma words_word: "w \<in> set (words s) \<Longrightarrow> w \<noteq> [] \<and> list_all (\<lambda>c. \<not> ws_char c) w"
proof (induction "length s" arbitrary: s rule: less_induct)
  case less
  show ?case
  proof (cases "dropWhile ws_char s")
    case Nil
    then have "words s = []" by (subst words.simps) simp
    with less.prems show ?thesis by simp
  next
    case (Cons c t)
    have "\<not> ws_char c" using hd_dropWhile [of ws_char s] Cons by simp
    then have "list_all (\<lambda>c. \<not> ws_char c) (c # takeWhile (\<lambda>c. \<not> ws_char c) t)"
      by (auto simp: list_all_iff dest: set_takeWhileD)
    moreover have "length (dropWhile (\<lambda>c. \<not> ws_char c) t) < length s"
      using length_dropWhile_le [of "\<lambda>c. \<not> ws_char c" t] length_dropWhile_le [of ws_char s] Cons by simp
    ultimately show ?thesis using less.hyps less.prems words_step [OF Cons] by auto
  qed
qed

lemma words_one: "w \<noteq> [] \<Longrightarrow> list_all (\<lambda>c. \<not> ws_char c) w \<Longrightarrow> words w = [w]"
proof -
  assume a: "w \<noteq> []" "list_all (\<lambda>c. \<not> ws_char c) w"
  then obtain c t where w: "w = c # t" by (cases w) auto
  with a have "dropWhile ws_char w = c # t" by simp
  moreover have "takeWhile (\<lambda>c. \<not> ws_char c) t = t" "dropWhile (\<lambda>c. \<not> ws_char c) t = []"
    using a w by (simp_all add: list_all_iff)
  ultimately show ?thesis using w by (simp only: words_step words_blank)
qed

lemma words_Cons_blank:
  "w \<noteq> [] \<Longrightarrow> list_all (\<lambda>c. \<not> ws_char c) w \<Longrightarrow> words (w @ CHR '' '' # s) = w # words s"
proof -
  assume a: "w \<noteq> []" "list_all (\<lambda>c. \<not> ws_char c) w"
  have b: "ws_char (CHR '' '')" by (simp add: ws_char_def)
  obtain c t where w: "w = c # t" using a by (cases w) auto
  with a have "dropWhile ws_char (w @ CHR '' '' # s) = c # t @ CHR '' '' # s" by simp
  moreover have "takeWhile (\<lambda>c. \<not> ws_char c) (t @ CHR '' '' # s) = t"
    "dropWhile (\<lambda>c. \<not> ws_char c) (t @ CHR '' '' # s) = CHR '' '' # s"
    using a b w by (simp_all add: list_all_iff takeWhile_append2 dropWhile_append2)
  moreover have "words (CHR '' '' # s) = words s"
    using b by (subst (1 2) words.simps) simp
  ultimately show ?thesis using w by (simp add: words_step)
qed

lemma words_join:
  "(\<And>w. w \<in> set ws \<Longrightarrow> w \<noteq> [] \<and> list_all (\<lambda>c. \<not> ws_char c) w) \<Longrightarrow> words (join_with '' '' ws) = ws"
proof (induction ws)
  case Nil
  then show ?case by (simp add: words_blank)
next
  case (Cons w ws)
  note w = Cons.prems [of w, simplified]
  have IH: "words (join_with '' '' ws) = ws" by (rule Cons.IH) (simp add: Cons.prems)
  show ?case
  proof (cases ws)
    case Nil
    with w show ?thesis by (simp add: words_one)
  next
    case (Cons v vs)
    with w IH show ?thesis by (simp add: words_Cons_blank)
  qed
qed

lemma words_normal_line: "words (normal_line line) = words line"
  unfolding normal_line_def by (rule words_join) (rule words_word)

text \<open>
  What is stored of a line means what the line meant and is the one spelling of it: it is
  accepted exactly when the line is, any two lines with the same fields are stored as the
  same text, and storing it again changes nothing.
\<close>
theorem cron_line_has_one_spelling:
  "cronProblem (normal_line line) = cronProblem line"
  "words a = words b \<Longrightarrow> normal_line a = normal_line b"
  "normal_line (normal_line line) = normal_line line"
proof -
  show "cronProblem (normal_line line) = cronProblem line" by (simp add: cronProblem_def words_normal_line)
  show same: "words a = words b \<Longrightarrow> normal_line a = normal_line b" for a b by (simp add: normal_line_def)
  show "normal_line (normal_line line) = normal_line line" by (rule same) (rule words_normal_line)
qed

theorem cron_line_has_one_spelling_witness:
  "normal_line '' 0  2 * * * '' = normal_line ''0 2 * * *''"
proof -
  have "words '' 0  2 * * * '' = words ''0 2 * * *''" by code_simp
  then show ?thesis by (rule cron_line_has_one_spelling(2))
qed

end
