(* ===== verification/Bridge_Config.thy ===== *)
theory Bridge_Config
  imports Redis_Target Filter_Match Schedule
begin

text \<open>
  A bridge's configuration, \<^verbatim>\<open>packages/core/src/bridges/bridge-config.ts\<close>, and the
  projection of a source row onto a target, \<^verbatim>\<open>packages/core/src/bridges/bridge.ts\<close>. A
  schema is a record or a datatype with the values it lets through, its checks a predicate or
  the list of issues it adds. Whether a text is a URL is the parameter \<open>is_url\<close>.
\<close>

section \<open>Source\<close>

record sort_spec =
  so_column :: string
  so_descending :: bool

record table_source =
  ts_connectionId :: string
  ts_database :: "string option"
  ts_schema :: "string option"
  ts_table :: string
  ts_filters :: "filter_spec list option"
  ts_sort :: "sort_spec list option"

record query_source =
  qs_connectionId :: string
  qs_database :: "string option"
  qs_statement :: string

datatype bridge_source = Table_source table_source | Query_source query_source

fun source_ok :: "bridge_source \<Rightarrow> bool" where
  "source_ok (Table_source s) = (ts_connectionId s \<noteq> [] \<and> ts_table s \<noteq> [])"
| "source_ok (Query_source s) = (qs_connectionId s \<noteq> [] \<and> qs_statement s \<noteq> [])"

section \<open>Destination\<close>

datatype bridge_auth = Auth_none | Auth_bearer string | Auth_header string string

datatype http_method = POST | PUT | PATCH

record http_destination =
  hd_url :: string
  hd_method :: http_method
  hd_headers :: "(string \<times> string) list option"
  hd_auth :: bridge_auth
  hd_idempotency :: bool

definition http_destination_ok :: "(string \<Rightarrow> bool) \<Rightarrow> http_destination \<Rightarrow> bool" where
  "http_destination_ok is_url d =
     (is_url (hd_url d) \<and> (case hd_auth d of Auth_header n v \<Rightarrow> n \<noteq> [] | _ \<Rightarrow> True))"

record column_mapping =
  cm_source :: string
  cm_target :: string

datatype delete_policy = Delete_row | Soft_delete | Ignore_delete
datatype write_mode = Upsert | Insert_only
datatype marker_value = Mark_timestamp | Mark_boolean

record soft_delete =
  sd_column :: string
  sd_value :: marker_value

record database_target =
  dt_connectionId :: string
  dt_database :: "string option"
  dt_schema :: "string option"
  dt_table :: string
  dt_writeMode :: write_mode
  dt_keyColumns :: "string list"
  dt_mapping :: "column_mapping list"
  dt_createMissingTable :: bool
  dt_onDelete :: delete_policy
  dt_softDelete :: "soft_delete option"
  dt_redis :: "redis_config option"

datatype target_issue =
    Redis_soft_delete
  | Unknown_redis_columns "string list"
  | Soft_column_missing
  | Soft_column_is_key string
  | Soft_column_is_mapped string

text \<open>\<^verbatim>\<open>checkedDatabaseTarget\<close>: the issues of its \<^verbatim>\<open>superRefine\<close>, in order.\<close>

definition target_issues :: "database_target \<Rightarrow> target_issue list" where
  "target_issues t =
     (case dt_redis t of
        None \<Rightarrow> []
      | Some r \<Rightarrow>
          (if dt_onDelete t = Soft_delete then [Redis_soft_delete] else []) @
          (let written = map cm_target (dt_mapping t);
               unknown = filter (\<lambda>c. \<not> starts_with c ''$'' \<and> c \<notin> set written)
                 (redisKeyColumns (rd_keyTemplate r) @
                  (case rd_valueColumn r of None \<Rightarrow> [] | Some c \<Rightarrow> if c = [] then [] else [c]))
           in if dt_mapping t \<noteq> [] \<and> unknown \<noteq> [] then [Unknown_redis_columns (uniq unknown)] else [])) @
     (if dt_onDelete t \<noteq> Soft_delete then []
      else
        (case map_option sd_column (dt_softDelete t) of
           None \<Rightarrow> [Soft_column_missing]
         | Some c \<Rightarrow>
             if c = [] then [Soft_column_missing]
             else (if c \<in> set (dt_keyColumns t) then [Soft_column_is_key c] else []) @
                  (if list_ex (\<lambda>m. cm_target m = c) (dt_mapping t) then [Soft_column_is_mapped c] else [])))"

definition target_shape_ok :: "database_target \<Rightarrow> bool" where
  "target_shape_ok t =
     (dt_connectionId t \<noteq> [] \<and> dt_table t \<noteq> [] \<and> list_all (\<lambda>k. k \<noteq> []) (dt_keyColumns t) \<and>
      list_all (\<lambda>m. cm_source m \<noteq> [] \<and> cm_target m \<noteq> []) (dt_mapping t) \<and>
      optional (\<lambda>s. trim (sd_column s) = sd_column s \<and> 1 \<le> length (sd_column s) \<and> length (sd_column s) \<le> 200)
        (dt_softDelete t) \<and>
      optional redis_valid (dt_redis t))"

text \<open>\<^verbatim>\<open>databaseTargetSchema\<close>: the columns a Redis key is built from are the target's key.\<close>

definition parse_target :: "database_target \<Rightarrow> database_target option" where
  "parse_target t =
     (if target_shape_ok t \<and> target_issues t = [] then
        Some (case dt_redis t of
                None \<Rightarrow> t
              | Some r \<Rightarrow> t\<lparr>dt_keyColumns := redisKeyColumns (rd_keyTemplate r)\<rparr>)
      else None)"

datatype bridge_destination = Http http_destination | Database "database_target list"

fun parse_targets :: "database_target list \<Rightarrow> database_target list option" where
  "parse_targets [] = Some []"
| "parse_targets (t # ts) =
     (case parse_target t of None \<Rightarrow> None | Some t' \<Rightarrow> map_option (\<lambda>ts'. t' # ts') (parse_targets ts))"

definition parse_destination ::
  "(string \<Rightarrow> bool) \<Rightarrow> bridge_destination \<Rightarrow> bridge_destination option" where
  "parse_destination is_url d =
     (case d of
        Http h \<Rightarrow> if http_destination_ok is_url h then Some d else None
      | Database ts \<Rightarrow> if ts = [] then None else map_option Database (parse_targets ts))"

section \<open>Transform, delivery, trigger\<close>

record bridge_transform = transform_config +
  bt_columns :: "column_transform list option"

datatype on_error = On_error_continue | On_error_abort
datatype on_schema_change = Schema_stop | Schema_continue | Schema_evolve

record bridge_delivery =
  bd_batchSize :: int
  bd_maxAttempts :: int
  bd_backoffMs :: int
  bd_backoffMaxMs :: int
  bd_minDelayMs :: int
  bd_timeoutMs :: int
  bd_pageSize :: int
  bd_onError :: on_error
  bd_onSchemaChange :: on_schema_change

definition default_delivery :: bridge_delivery where
  "default_delivery = \<lparr>bd_batchSize = 1, bd_maxAttempts = 3, bd_backoffMs = 500, bd_backoffMaxMs = 30000,
     bd_minDelayMs = 0, bd_timeoutMs = 15000, bd_pageSize = 200, bd_onError = On_error_abort,
     bd_onSchemaChange = Schema_stop\<rparr>"

definition in_range :: "int \<Rightarrow> int \<Rightarrow> int \<Rightarrow> bool" where
  "in_range lo hi x = (lo \<le> x \<and> x \<le> hi)"

definition delivery_ok :: "bridge_delivery \<Rightarrow> bool" where
  "delivery_ok d =
     (in_range 1 1000 (bd_batchSize d) \<and> in_range 1 10 (bd_maxAttempts d) \<and>
      in_range 0 60000 (bd_backoffMs d) \<and> in_range 0 300000 (bd_backoffMaxMs d) \<and>
      in_range 0 600000 (bd_minDelayMs d) \<and> in_range 100 120000 (bd_timeoutMs d) \<and>
      in_range 1 1000 (bd_pageSize d))"

datatype watch_strategy =
    Increment (ws_column: string)
  | Timestamp (ws_column: string) (ws_lookbackMs: int)
  | Snapshot (ws_maxTracked: int)

fun strategy_ok :: "watch_strategy \<Rightarrow> bool" where
  "strategy_ok (Increment c) = (c \<noteq> [])"
| "strategy_ok (Timestamp c lookback) = (c \<noteq> [] \<and> in_range 0 600000 lookback)"
| "strategy_ok (Snapshot m) = in_range 100 200000 m"

record watch_trigger =
  wt_strategy :: watch_strategy
  wt_pollIntervalMs :: int
  wt_fromBeginning :: bool
  wt_maxPerPoll :: int

record cdc_trigger =
  ct_operations :: "cdc_operation list"
  ct_fromBeginning :: bool
  ct_sharedSlot :: bool

datatype bridge_trigger =
    Replay "replay_schedule option"
  | Watch watch_trigger
  | Cdc cdc_trigger

fun trigger_ok :: "bridge_trigger \<Rightarrow> bool" where
  "trigger_ok (Replay s) = True"
| "trigger_ok (Watch w) =
     (strategy_ok (wt_strategy w) \<and> in_range 1000 3600000 (wt_pollIntervalMs w) \<and>
      in_range 1 5000 (wt_maxPerPoll w))"
| "trigger_ok (Cdc c) = (ct_operations c \<noteq> [])"

record bridge_input =
  bi_name :: string
  bi_workspaceId :: "string option"
  bi_source :: bridge_source
  bi_destination :: bridge_destination
  bi_transform :: bridge_transform
  bi_delivery :: bridge_delivery
  bi_trigger :: bridge_trigger
  bi_enabled :: bool

definition transform_ok :: "bridge_transform \<Rightarrow> bool" where
  "transform_ok t = (tpl_template t \<noteq> [] \<and> optional (\<lambda>cs. length cs \<le> 100) (bt_columns t))"

definition parse_bridge :: "(string \<Rightarrow> bool) \<Rightarrow> bridge_input \<Rightarrow> bridge_input option" where
  "parse_bridge is_url b =
     (if bi_name b \<noteq> [] \<and> length (bi_name b) \<le> 120 \<and> source_ok (bi_source b) \<and>
         transform_ok (bi_transform b) \<and> delivery_ok (bi_delivery b) \<and> trigger_ok (bi_trigger b)
      then map_option (\<lambda>d. b\<lparr>bi_destination := d\<rparr>) (parse_destination is_url (bi_destination b))
      else None)"

section \<open>Projecting a row onto a target\<close>

fun map_columns :: "row \<Rightarrow> column_mapping list \<Rightarrow> row \<Rightarrow> row" where
  "map_columns r [] out = out"
| "map_columns r (m # ms) out =
     (let v = row_get r (cm_source m)
      in map_columns r ms
        (if v \<noteq> JUnchanged then obj_set out (cm_target m) (if v = JUndefined then JNull else v) else out))"

definition mapRow :: "row \<Rightarrow> column_mapping list \<Rightarrow> row" where
  "mapRow r mapping =
     (if mapping = [] then
        obj_of_entries (map (\<lambda>(k, v). (k, if v = JUndefined then JNull else v))
          (filter (\<lambda>(k, v). v \<noteq> JUnchanged) r))
      else map_columns r mapping [])"

definition sourceColumnFor :: "string \<Rightarrow> column_mapping list \<Rightarrow> string" where
  "sourceColumnFor target mapping =
     (case find (\<lambda>m. cm_target m = target) mapping of Some m \<Rightarrow> cm_source m | None \<Rightarrow> target)"

section \<open>Labels\<close>

definition target_name :: "database_target \<Rightarrow> string" where
  "target_name t =
     (case dt_schema t of
        Some s \<Rightarrow> if s = [] then dt_table t else s @ ''.'' @ dt_table t
      | None \<Rightarrow> dt_table t)"

fun method_name :: "http_method \<Rightarrow> string" where
  "method_name POST = ''POST''" | "method_name PUT = ''PUT''" | "method_name PATCH = ''PATCH''"

text \<open>\<open>hostname\<close> is \<^verbatim>\<open>new URL(text).hostname\<close>, \<open>None\<close> when that throws.\<close>

definition destinationHost :: "(string \<Rightarrow> string option) \<Rightarrow> string \<Rightarrow> string" where
  "destinationHost hostname url = (case hostname url of Some h \<Rightarrow> h | None \<Rightarrow> url)"

definition destinationLabel :: "(string \<Rightarrow> string option) \<Rightarrow> bridge_destination \<Rightarrow> string" where
  "destinationLabel hostname d =
     (case d of
        Database ts \<Rightarrow>
          (let labels = map target_name ts; first = (case labels of [] \<Rightarrow> ''database'' | l # _ \<Rightarrow> l)
           in if 1 < length labels then first @ '' +'' @ show_nat (length labels - 1) else first)
      | Http h \<Rightarrow> method_name (hd_method h) @ '' '' @ destinationHost hostname (hd_url h))"

definition destinationNodeKeys :: "(string \<Rightarrow> string option) \<Rightarrow> bridge_destination \<Rightarrow> string list" where
  "destinationNodeKeys hostname d =
     (case d of
        Database ts \<Rightarrow> map (\<lambda>t. ''db:'' @ dt_connectionId t @ '':'' @ target_name t) ts
      | Http h \<Rightarrow> [''http:'' @ destinationHost hostname (hd_url h)])"

section \<open>What a target receives\<close>

lemma map_columns_other:
  "k \<notin> set (map cm_target ms) \<Longrightarrow>
     row_has (map_columns r ms out) k = row_has out k \<and> row_get (map_columns r ms out) k = row_get out k"
  by (induction r ms out rule: map_columns.induct) (auto simp: Let_def)

lemma map_columns_at:
  "distinct (map cm_target ms) \<Longrightarrow> m \<in> set ms \<Longrightarrow> \<not> row_has out (cm_target m) \<Longrightarrow>
     (let v = row_get r (cm_source m); out' = map_columns r ms out; k = cm_target m in
      (v = JUnchanged \<longrightarrow> \<not> row_has out' k) \<and>
      (v \<noteq> JUnchanged \<longrightarrow> row_has out' k \<and> row_get out' k = (if v = JUndefined then JNull else v)))"
proof (induction r ms out rule: map_columns.induct)
  case (2 r m' ms out)
  show ?case
  proof (cases "m = m'")
    case True
    then have "cm_target m \<notin> set (map cm_target ms)" using 2(2) by auto
    with map_columns_other [OF this] True 2(4) show ?thesis by (auto simp: Let_def)
  next
    case False
    then have m: "m \<in> set ms" using 2(3) by simp
    then have ne: "cm_target m \<noteq> cm_target m'" using 2(2) by (metis distinct.simps(2) imageI list.map(2) set_map)
    with 2 m show ?thesis by (auto simp: Let_def)
  qed
qed simp

lemma sourceColumnFor_mapped:
  "distinct (map cm_target ms) \<Longrightarrow> m \<in> set ms \<Longrightarrow> sourceColumnFor (cm_target m) ms = cm_source m"
  by (induction ms) (auto simp: sourceColumnFor_def)

text \<open>
  A target column named in the mapping receives the value of the source column that
  \<^verbatim>\<open>sourceColumnFor\<close> names: null where the row has none, and it is left out of the
  write altogether where the change did not carry it; no column outside the mapping is
  written.
\<close>
theorem mapped_column_comes_from_its_source:
  assumes "distinct (map cm_target mapping)" and "mapping \<noteq> []"
  shows "let v = row_get r (sourceColumnFor k mapping); out = mapRow r mapping in
    if k \<in> set (map cm_target mapping) \<and> v \<noteq> JUnchanged
    then row_has out k \<and> row_get out k = (if v = JUndefined then JNull else v)
    else \<not> row_has out k"
proof (cases "k \<in> set (map cm_target mapping)")
  case True
  then obtain m where m: "m \<in> set mapping" "k = cm_target m" by auto
  have "\<not> row_has [] k" by (simp add: row_has_def)
  with map_columns_at [OF assms(1) m(1), of "[]" r] m assms
  show ?thesis by (simp add: sourceColumnFor_mapped mapRow_def Let_def)
next
  case False
  with map_columns_other [of k mapping r "[]"] assms show ?thesis
    by (simp add: mapRow_def row_has_def Let_def)
qed

definition two_columns :: "column_mapping list" where
  "two_columns = [\<lparr>cm_source = ''id'', cm_target = ''pk''\<rparr>, \<lparr>cm_source = ''bio'', cm_target = ''text''\<rparr>]"

theorem mapped_column_comes_from_its_source_witness:
  "row_get (mapRow [(''id'', JNum (Num 1)), (''bio'', JUnchanged)] two_columns) ''pk'' = JNum (Num 1) \<and>
   \<not> row_has (mapRow [(''id'', JNum (Num 1)), (''bio'', JUnchanged)] two_columns) ''text'' \<and>
   \<not> row_has (mapRow [(''id'', JNum (Num 1)), (''bio'', JUnchanged)] two_columns) ''id''"
proof -
  have d: "distinct (map cm_target two_columns)" "two_columns \<noteq> []" by (simp_all add: two_columns_def)
  note facts = mapped_column_comes_from_its_source [OF d, where r = "[(''id'', JNum (Num 1)), (''bio'', JUnchanged)]"]
  from facts [of "''pk''"] facts [of "''text''"] facts [of "''id''"]
  show ?thesis by (simp add: two_columns_def sourceColumnFor_def row_get_def Let_def)
qed


definition redis_users :: database_target where
  "redis_users = \<lparr>dt_connectionId = ''c1'', dt_database = None, dt_schema = None, dt_table = ''users'',
     dt_writeMode = Upsert, dt_keyColumns = [], dt_mapping = [\<lparr>cm_source = ''tid'', cm_target = ''t''\<rparr>,
       \<lparr>cm_source = ''id'', cm_target = ''id''\<rparr>], dt_createMissingTable = True, dt_onDelete = Delete_row,
     dt_softDelete = None, dt_redis = Some user_key\<rparr>"


text \<open>
  The mark of a soft delete is Syncle's alone to write: in an accepted target it is neither a
  key column nor a column any source row is mapped onto.
\<close>
theorem soft_delete_mark_is_separate:
  assumes "parse_target t = Some t'" and "dt_onDelete t = Soft_delete"
  shows "\<exists>s. dt_softDelete t' = Some s \<and> sd_column s \<noteq> [] \<and> sd_column s \<notin> set (dt_keyColumns t') \<and>
    (dt_mapping t' \<noteq> [] \<longrightarrow> (\<forall>r. \<not> row_has (mapRow r (dt_mapping t')) (sd_column s)))"
proof -
  have quiet: "target_issues t = []" using assms(1) by (simp add: parse_target_def split: if_splits)
  have redis: "dt_redis t = None"
    using quiet assms(2) by (cases "dt_redis t") (simp_all add: target_issues_def)
  with assms(1) have t': "t' = t" by (simp add: parse_target_def split: if_splits)
  obtain s where s: "dt_softDelete t = Some s" "sd_column s \<noteq> []" "sd_column s \<notin> set (dt_keyColumns t)"
    "sd_column s \<notin> set (map cm_target (dt_mapping t))"
    using quiet assms(2) redis
    by (cases "dt_softDelete t") (fastforce simp: target_issues_def list_ex_iff split: if_splits)+
  have "\<not> row_has (mapRow r (dt_mapping t)) (sd_column s)" if "dt_mapping t \<noteq> []" for r
    using map_columns_other [OF s(4), of r "[]"] that by (simp add: mapRow_def row_has_def)
  with s t' show ?thesis by auto
qed

definition archive_users :: database_target where
  "archive_users = redis_users\<lparr>dt_redis := None, dt_keyColumns := [''id''], dt_onDelete := Soft_delete,
     dt_softDelete := Some \<lparr>sd_column = ''gone'', sd_value = Mark_timestamp\<rparr>\<rparr>"

theorem soft_delete_mark_is_separate_witness:
  "\<exists>s. dt_softDelete archive_users = Some s \<and> sd_column s \<noteq> [] \<and> sd_column s \<notin> set (dt_keyColumns archive_users) \<and>
    (dt_mapping archive_users \<noteq> [] \<longrightarrow> (\<forall>r. \<not> row_has (mapRow r (dt_mapping archive_users)) (sd_column s)))"
proof (rule soft_delete_mark_is_separate)
  have "trim ''gone'' = ''gone''" by code_simp
  then show "parse_target archive_users = Some archive_users"
    by (simp add: archive_users_def redis_users_def parse_target_def target_shape_ok_def optional_def target_issues_def)
  show "dt_onDelete archive_users = Soft_delete" by (simp add: archive_users_def)
qed

end
