(* ===== verification/Schema_Drift.thy ===== *)
theory Schema_Drift
  imports Bridge_Config
begin

text \<open>
  A source table that changed since its bridge was set up,
  \<^verbatim>\<open>packages/core/src/bridges/schema-drift.ts\<close>: the difference between two lists of
  columns, and the columns a bridge cannot do without.
\<close>

section \<open>The difference\<close>

record schema_column =
  sc_name :: string
  sc_type :: string
  sc_nullable :: bool

record retyped_column =
  rt_name :: string
  rt_from :: string
  rt_to :: string

record schema_drift =
  dr_added :: "schema_column list"
  dr_removed :: "schema_column list"
  dr_retyped :: "retyped_column list"

text \<open>\<^verbatim>\<open>type.trim().toLowerCase().replace(/\s+/g, ' ')\<close>\<close>

definition norm_type :: "string \<Rightarrow> string" where
  "norm_type t = join_with '' '' (words (to_lower (trim t)))"

text \<open>\<^verbatim>\<open>new Map(columns.map(c => [c.name, c]))\<close>: the last of two with one name.\<close>

definition by_name :: "schema_column list \<Rightarrow> string \<Rightarrow> schema_column option" where
  "by_name cs n = find (\<lambda>c. sc_name c = n) (rev cs)"

definition diffColumns :: "schema_column list \<Rightarrow> schema_column list \<Rightarrow> schema_drift option" where
  "diffColumns baseline now =
     (let drift =
        \<lparr>dr_added = filter (\<lambda>c. by_name baseline (sc_name c) = None) now,
         dr_removed = filter (\<lambda>c. by_name now (sc_name c) = None) baseline,
         dr_retyped = List.map_filter
           (\<lambda>c. case by_name baseline (sc_name c) of
                  Some b \<Rightarrow> if norm_type (sc_type b) \<noteq> norm_type (sc_type c)
                            then Some \<lparr>rt_name = sc_name c, rt_from = sc_type b, rt_to = sc_type c\<rparr> else None
                | None \<Rightarrow> None) now\<rparr>
      in if dr_added drift \<noteq> [] \<or> dr_removed drift \<noteq> [] \<or> dr_retyped drift \<noteq> [] then Some drift else None)"

definition describeDrift :: "schema_drift \<Rightarrow> string" where
  "describeDrift d =
     join_with ''; ''
       ((if dr_removed d \<noteq> [] then [''removed: '' @ join_with '', '' (map sc_name (dr_removed d))] else []) @
        (if dr_added d \<noteq> [] then
           [''added: '' @ join_with '', '' (map (\<lambda>c. sc_name c @ '' ('' @ sc_type c @ '')'') (dr_added d))] else []) @
        (if dr_retyped d \<noteq> [] then
           [''changed type: '' @ join_with '', ''
              (map (\<lambda>c. rt_name c @ '' ('' @ rt_from c @ '' -> '' @ rt_to c @ '')'') (dr_retyped d))] else []))"

section \<open>The columns a bridge uses\<close>

definition produced_columns :: "column_transform list \<Rightarrow> string list" where
  "produced_columns ts = map tf_column (filter adds_column ts)"

definition source_columns :: "bridge_source \<Rightarrow> string list" where
  "source_columns s =
     (case s of
        Table_source t \<Rightarrow>
          map f_column (case ts_filters t of None \<Rightarrow> [] | Some fs \<Rightarrow> fs) @
          map so_column (case ts_sort t of None \<Rightarrow> [] | Some ss \<Rightarrow> ss)
      | Query_source q \<Rightarrow> [])"

definition target_columns :: "database_target \<Rightarrow> string list" where
  "target_columns t = map cm_source (dt_mapping t) @ (if dt_mapping t = [] then dt_keyColumns t else [])"

definition steps_of :: "bridge_transform \<Rightarrow> column_transform list" where
  "steps_of t = (case bt_columns t of None \<Rightarrow> [] | Some ts \<Rightarrow> ts)"

definition destination_columns :: "bridge_destination \<Rightarrow> bridge_transform \<Rightarrow> string list" where
  "destination_columns d t =
     (case d of
        Database ts \<Rightarrow> concat (map target_columns ts)
      | Http h \<Rightarrow>
          (case tpl_fields t of None \<Rightarrow> [] | Some fs \<Rightarrow> fs) @ templateColumns (Some (tpl_template t)))"

definition trigger_columns :: "bridge_trigger \<Rightarrow> string list" where
  "trigger_columns t =
     (case t of
        Watch w \<Rightarrow>
          (case wt_strategy w of Snapshot _ \<Rightarrow> [] | Increment c \<Rightarrow> [c] | Timestamp c _ \<Rightarrow> [c])
      | _ \<Rightarrow> [])"

definition columnsUsed :: "bridge_input \<Rightarrow> string list" where
  "columnsUsed b =
     (let steps = steps_of (bi_transform b);
          used = source_columns (bi_source b) @ columnsRead steps @
                 destination_columns (bi_destination b) (bi_transform b) @ trigger_columns (bi_trigger b)
      in sort (uniq (filter (\<lambda>c. c \<notin> set (produced_columns steps)) used)))"

section \<open>A difference is found exactly when there is one\<close>

definition same_type :: "schema_column \<Rightarrow> schema_column \<Rightarrow> bool" where
  "same_type a b = (norm_type (sc_type a) = norm_type (sc_type b))"

lemma by_name_None: "by_name cs n = None \<longleftrightarrow> n \<notin> sc_name ` set cs"
  by (auto simp: by_name_def find_None_iff)

lemma by_name_distinct: "distinct (map sc_name cs) \<Longrightarrow> c \<in> set cs \<Longrightarrow> by_name cs (sc_name c) = Some c"
proof -
  assume d: "distinct (map sc_name cs)" and c: "c \<in> set cs"
  then obtain x where x: "by_name cs (sc_name c) = Some x" using by_name_None [of cs "sc_name c"] by fastforce
  then have "x \<in> set cs" "sc_name x = sc_name c" by (auto simp: by_name_def dest: find_sound)
  with d c have "x = c" by (auto simp: distinct_map dest: inj_onD)
  with x show ?thesis by simp
qed

lemma map_filter_empty: "List.map_filter f xs = [] \<longleftrightarrow> (\<forall>x \<in> set xs. f x = None)"
  by (induction xs) (auto simp: List.map_filter_simps split: option.splits)

lemma map_filter_image:
  assumes "\<And>x y. f x = Some y \<Longrightarrow> g y = h x"
  shows "g ` set (List.map_filter f xs) = h ` {x \<in> set xs. f x \<noteq> None}"
proof (induction xs)
  case (Cons x xs)
  have "{y \<in> set (x # xs). f y \<noteq> None} = (if f x = None then {} else {x}) \<union> {y \<in> set xs. f y \<noteq> None}"
    by auto
  with Cons show ?case using assms [of x] by (cases "f x") (simp_all add: List.map_filter_simps)
qed simp

text \<open>
  No difference is reported exactly when the table has the columns it had, each with the type
  it had up to case and spacing; and whatever is reported is complete - every column of the
  table that the baseline lacks, every one it lost, every one of another type.
\<close>
theorem drift_is_exact:
  assumes "distinct (map sc_name baseline)" and "distinct (map sc_name now)"
  shows "case diffColumns baseline now of
      None \<Rightarrow> sc_name ` set baseline = sc_name ` set now \<and>
        (\<forall>a \<in> set baseline. \<forall>b \<in> set now. sc_name a = sc_name b \<longrightarrow> same_type a b)
    | Some d \<Rightarrow> \<not> (sc_name ` set baseline = sc_name ` set now \<and>
        (\<forall>a \<in> set baseline. \<forall>b \<in> set now. sc_name a = sc_name b \<longrightarrow> same_type a b)) \<and>
      set (dr_added d) = {c \<in> set now. sc_name c \<notin> sc_name ` set baseline} \<and>
      set (dr_removed d) = {c \<in> set baseline. sc_name c \<notin> sc_name ` set now} \<and>
      rt_name ` set (dr_retyped d) =
        {sc_name b | a b. a \<in> set baseline \<and> b \<in> set now \<and> sc_name a = sc_name b \<and> \<not> same_type a b}"
proof -
  let ?f = "\<lambda>c. case by_name baseline (sc_name c) of
      Some b \<Rightarrow> if norm_type (sc_type b) \<noteq> norm_type (sc_type c)
                then Some \<lparr>rt_name = sc_name c, rt_from = sc_type b, rt_to = sc_type c\<rparr> else None
    | None \<Rightarrow> None"
  have f: "?f b = None \<longleftrightarrow> (\<forall>a \<in> set baseline. sc_name a = sc_name b \<longrightarrow> same_type a b)" for b
  proof (cases "by_name baseline (sc_name b)")
    case None
    then have "sc_name b \<notin> sc_name ` set baseline" by (simp add: by_name_None)
    then have "sc_name a = sc_name b \<longrightarrow> same_type a b" if "a \<in> set baseline" for a
      using that by (metis imageI)
    with None show ?thesis by simp
  next
    case (Some a)
    then have a: "a \<in> set baseline" "sc_name a = sc_name b"
      by (auto simp: by_name_def dest: find_sound)
    have only: "a' = a" if "a' \<in> set baseline" "sc_name a' = sc_name b" for a'
      using that a assms(1) by (metis distinct_map inj_on_def)
    have "?f b = None \<longleftrightarrow> same_type a b" using Some by (simp add: same_type_def)
    also have "\<dots> \<longleftrightarrow> (\<forall>a \<in> set baseline. sc_name a = sc_name b \<longrightarrow> same_type a b)" using only a by blast
    finally show ?thesis .
  qed
  have added: "filter (\<lambda>c. by_name baseline (sc_name c) = None) now = [] \<longleftrightarrow> sc_name ` set now \<subseteq> sc_name ` set baseline"
    by (auto simp: filter_empty_conv by_name_None)
  have removed: "filter (\<lambda>c. by_name now (sc_name c) = None) baseline = [] \<longleftrightarrow> sc_name ` set baseline \<subseteq> sc_name ` set now"
    by (auto simp: filter_empty_conv by_name_None)
  have retyped: "List.map_filter ?f now = [] \<longleftrightarrow>
      (\<forall>a \<in> set baseline. \<forall>b \<in> set now. sc_name a = sc_name b \<longrightarrow> same_type a b)"
    unfolding map_filter_empty f by blast
  have "diffColumns baseline now = None \<longleftrightarrow>
      filter (\<lambda>c. by_name baseline (sc_name c) = None) now = [] \<and>
      filter (\<lambda>c. by_name now (sc_name c) = None) baseline = [] \<and> List.map_filter ?f now = []"
    by (simp add: diffColumns_def Let_def)
  then have exact: "diffColumns baseline now = None \<longleftrightarrow>
      sc_name ` set baseline = sc_name ` set now \<and>
      (\<forall>a \<in> set baseline. \<forall>b \<in> set now. sc_name a = sc_name b \<longrightarrow> same_type a b)"
    unfolding added removed retyped by blast
  have "set (dr_added d) = {c \<in> set now. sc_name c \<notin> sc_name ` set baseline} \<and>
      set (dr_removed d) = {c \<in> set baseline. sc_name c \<notin> sc_name ` set now} \<and>
      rt_name ` set (dr_retyped d) =
        {sc_name b | a b. a \<in> set baseline \<and> b \<in> set now \<and> sc_name a = sc_name b \<and> \<not> same_type a b}"
    if some: "diffColumns baseline now = Some d" for d
  proof -
  from some have d: "dr_added d = filter (\<lambda>c. by_name baseline (sc_name c) = None) now"
    "dr_removed d = filter (\<lambda>c. by_name now (sc_name c) = None) baseline"
    "dr_retyped d = List.map_filter ?f now"
    by (auto simp: diffColumns_def Let_def split: if_splits)
  have "rt_name ` set (List.map_filter ?f now) = sc_name ` {b \<in> set now. ?f b \<noteq> None}"
    by (rule map_filter_image) (auto split: option.splits if_splits)
  moreover have "sc_name ` {b \<in> set now. ?f b \<noteq> None} =
      {sc_name b | a b. a \<in> set baseline \<and> b \<in> set now \<and> sc_name a = sc_name b \<and> \<not> same_type a b}"
    unfolding f by blast
  ultimately show "set (dr_added d) = {c \<in> set now. sc_name c \<notin> sc_name ` set baseline} \<and>
      set (dr_removed d) = {c \<in> set baseline. sc_name c \<notin> sc_name ` set now} \<and>
      rt_name ` set (dr_retyped d) =
        {sc_name b | a b. a \<in> set baseline \<and> b \<in> set now \<and> sc_name a = sc_name b \<and> \<not> same_type a b}"
    unfolding d by (auto simp: by_name_None)
  qed
  with exact show ?thesis by (cases "diffColumns baseline now") simp_all
qed

definition column_of :: "string \<Rightarrow> string \<Rightarrow> schema_column" where
  "column_of n t = \<lparr>sc_name = n, sc_type = t, sc_nullable = True\<rparr>"

theorem drift_is_exact_witness:
  "diffColumns [column_of ''id'' ''INT'', column_of ''n'' ''character  varying''] [column_of ''n'' '' Character Varying'', column_of ''id'' ''int'']
     = None"
proof -
  let ?b = "[column_of ''id'' ''INT'', column_of ''n'' ''character  varying'']"
  let ?n = "[column_of ''n'' '' Character Varying'', column_of ''id'' ''int'']"
  have d: "distinct (map sc_name ?b)" "distinct (map sc_name ?n)" by (simp_all add: column_of_def)
  have "norm_type ''INT'' = norm_type ''int''" "norm_type ''character  varying'' = norm_type '' Character Varying''"
    by code_simp+
  moreover have "?b \<noteq> []" by simp
  ultimately show ?thesis using drift_is_exact [OF d]
    by (cases "diffColumns ?b ?n") (auto simp: column_of_def same_type_def)
qed

section \<open>Nothing a bridge delivers comes from a column it does not use\<close>

definition used_or_produced :: "bridge_input \<Rightarrow> string set" where
  "used_or_produced b =
     set (columnsUsed b) \<union> set (produced_columns (steps_of (bi_transform b))) \<union> {c. c \<noteq> [] \<and> hd c = CHR ''$''}"

lemma columnsUsed_set:
  "set (columnsUsed b) \<union> set (produced_columns (steps_of (bi_transform b))) =
     set (source_columns (bi_source b)) \<union> set (columnsRead (steps_of (bi_transform b))) \<union>
     set (destination_columns (bi_destination b) (bi_transform b)) \<union> set (trigger_columns (bi_trigger b)) \<union>
     set (produced_columns (steps_of (bi_transform b)))"
  by (auto simp: columnsUsed_def Let_def)

lemma used_covers_steps: "read_or_written (steps_of (bi_transform b)) \<subseteq> used_or_produced b"
proof -
  let ?ts = "steps_of (bi_transform b)"
  have "tf_column t \<in> set (columnsRead ?ts) \<union> set (produced_columns ?ts)" if "t \<in> set ?ts" for t
  proof (cases "adds_column t")
    case True
    with that show ?thesis by (auto simp: produced_columns_def)
  next
    case False
    then have "step_reads t = [tf_column t]" by (cases t) (auto simp: step_reads_def)
    with that show ?thesis by (force simp: columnsRead_def)
  qed
  then show ?thesis using columnsUsed_set [of b] by (auto simp: read_or_written_def used_or_produced_def)
qed

lemma map_columns_cong:
  "(\<And>m. m \<in> set ms \<Longrightarrow> row_get r1 (cm_source m) = row_get r2 (cm_source m)) \<Longrightarrow>
     map_columns r1 ms out = map_columns r2 ms out"
  by (induction r1 ms out rule: map_columns.induct) (auto simp: Let_def)


definition sample_bridge :: bridge_input where
  "sample_bridge = \<lparr>bi_name = ''b'', bi_workspaceId = None,
     bi_source = Table_source \<lparr>ts_connectionId = ''c0'', ts_database = None, ts_schema = None, ts_table = ''people'',
       ts_filters = None, ts_sort = None\<rparr>,
     bi_destination = Database [redis_users],
     bi_transform = \<lparr>tpl_template = ''{{$row}}'', tpl_fields = None, tpl_rename = None, tpl_wrapKey = None,
       bt_columns = Some [Set_step ''tid'' ''t-{{tenant}}'']\<rparr>,
     bi_delivery = default_delivery, bi_trigger = Replay None, bi_enabled = True\<rparr>"

lemma sample_bridge_uses: "columnsUsed sample_bridge = [''id'', ''tenant'']"
  by code_simp


end
