(* ===== verification/Type_Map.thy ===== *)
theory Type_Map
  imports Js_Value
begin

text \<open>
  Translation of column types between engines,
  \<^verbatim>\<open>packages/core/src/bridges/type-map.ts\<close>: a native type's name read into a
  portable type (per-engine tables of whole names), and the portable type rendered for the
  target engine, with a warning for whatever the target cannot hold. Numbers in a type's
  modifier are the finite doubles they read as. Names of \<^verbatim>\<open>Object.prototype\<close> are
  not types.
\<close>

section \<open>Types\<close>

datatype database_engine = Postgres | Mysql | Sqlite | Mongodb | Redis

datatype portable_kind =
    K_boolean | K_smallint | K_integer | K_bigint | K_decimal | K_float | K_double | K_varchar
  | K_char | K_text | K_bytes | K_date | K_time | K_timestamp | K_timestamptz | K_interval
  | K_json | K_uuid | K_array | K_objectid | K_opaque

fun kind_name :: "portable_kind \<Rightarrow> string" where
  "kind_name K_boolean = ''boolean''"
| "kind_name K_smallint = ''smallint''"
| "kind_name K_integer = ''integer''"
| "kind_name K_bigint = ''bigint''"
| "kind_name K_decimal = ''decimal''"
| "kind_name K_float = ''float''"
| "kind_name K_double = ''double''"
| "kind_name K_varchar = ''varchar''"
| "kind_name K_char = ''char''"
| "kind_name K_text = ''text''"
| "kind_name K_bytes = ''bytes''"
| "kind_name K_date = ''date''"
| "kind_name K_time = ''time''"
| "kind_name K_timestamp = ''timestamp''"
| "kind_name K_timestamptz = ''timestamptz''"
| "kind_name K_interval = ''interval''"
| "kind_name K_json = ''json''"
| "kind_name K_uuid = ''uuid''"
| "kind_name K_array = ''array''"
| "kind_name K_objectid = ''objectid''"
| "kind_name K_opaque = ''opaque''"

datatype portable_type = Portable
  (pt_kind: portable_kind) (pt_length: "rat option") (pt_precision: "rat option") (pt_scale: "rat option")
  (pt_unsigned: bool) (pt_element: "portable_type option") (pt_native: string) (pt_note: "string option")

record column_type_plan =
  cp_type :: string
  cp_warnings :: "string list"

section \<open>Reading a declaration\<close>

record decl =
  d_name :: string
  d_args :: "rat list"
  d_unsigned :: bool
  d_arrayDepth :: nat

text \<open>\<^verbatim>\<open>s.replace(/\s+/g, ' ')\<close>\<close>

fun squeeze :: "string \<Rightarrow> string" where
  "squeeze [] = []"
| "squeeze [c] = [if ws_char c then CHR '' '' else c]"
| "squeeze (c # d # s) =
     (if ws_char c then (if ws_char d then squeeze (d # s) else CHR '' '' # squeeze (d # s))
      else c # squeeze (d # s))"

text \<open>The trailing \<^verbatim>\<open>[]\<close>s, each cut off with the blanks before it.\<close>

fun strip_arrays :: "nat \<Rightarrow> string \<Rightarrow> nat \<times> string" where
  "strip_arrays 0 s = (0, s)"
| "strip_arrays (Suc fuel) s =
     (if ends_with s ''[]'' then
        (let (n, t) = strip_arrays fuel (trim (take (length s - 2) s)) in (Suc n, t))
      else (0, s))"

text \<open>\<^verbatim>\<open>/\(([^)]*)\)/\<close>: the text before, inside and after the first parentheses.\<close>

definition parens :: "string \<Rightarrow> (string \<times> string \<times> string) option" where
  "parens s =
     (let before = takeWhile (\<lambda>c. c \<noteq> CHR ''('') s; r = drop (Suc (length before)) s;
          inside = takeWhile (\<lambda>c. c \<noteq> CHR '')'') r; after = drop (length inside) r
      in if CHR ''('' \<in> set s \<and> after \<noteq> [] then Some (before, inside, tl after) else None)"

definition finite_number :: "string \<Rightarrow> rat option" where
  "finite_number s = (case js_number_of_string s of Num q \<Rightarrow> Some q | _ \<Rightarrow> None)"

definition modifier_args :: "string \<Rightarrow> rat list" where
  "modifier_args inside =
     List.map_filter (\<lambda>p. if trim p = [] then None else finite_number (trim p)) (split_on (CHR '','') inside)"

text \<open>\<^verbatim>\<open>/\bword\b/\<close>: the text without the first whole word \<open>w\<close>, if there is one.\<close>

definition is_word :: "char \<Rightarrow> bool" where
  "is_word c =
     (let n = (of_char c :: nat) in
      (48 \<le> n \<and> n \<le> 57) \<or> (65 \<le> n \<and> n \<le> 90) \<or> (97 \<le> n \<and> n \<le> 122) \<or> n = 95)"

definition word_here :: "string \<Rightarrow> string \<Rightarrow> bool" where
  "word_here w s =
     (starts_with s w \<and> (case drop (length w) s of [] \<Rightarrow> True | c # _ \<Rightarrow> \<not> is_word c))"

fun cut_word :: "string \<Rightarrow> bool \<Rightarrow> string \<Rightarrow> string option" where
  "cut_word w inword [] = None"
| "cut_word w inword (c # s) =
     (if \<not> inword \<and> word_here w (c # s) then Some (drop (length w) (c # s))
      else map_option (\<lambda>t. c # t) (cut_word w (is_word c) s))"

definition without_word :: "string \<Rightarrow> string \<Rightarrow> string" where
  "without_word w s = (case cut_word w False s of None \<Rightarrow> s | Some t \<Rightarrow> t)"

definition without_parens :: "string \<Rightarrow> string" where
  "without_parens s = (case parens s of None \<Rightarrow> s | Some (before, _, after) \<Rightarrow> trim (squeeze (before @ after)))"

definition underscore_array :: "string \<Rightarrow> bool" where
  "underscore_array s =
     (case s of c # d # _ \<Rightarrow> c = CHR ''_'' \<and> (let n = (of_char d :: nat) in 97 \<le> n \<and> n \<le> 122) | _ \<Rightarrow> False)"

definition parseDecl :: "string \<Rightarrow> decl" where
  "parseDecl raw =
     (let s0 = squeeze (to_lower (trim raw));
          (depth, s1) = strip_arrays (length s0) s0;
          args = (case parens s1 of None \<Rightarrow> [] | Some (_, inside, _) \<Rightarrow> modifier_args inside);
          s2 = without_parens s1;
          unsigned = (cut_word ''unsigned'' False s2 \<noteq> None);
          s3 = trim (squeeze (without_word ''signed'' (without_word ''zerofill'' (without_word ''unsigned'' s2))))
      in if depth = 0 \<and> underscore_array s3
         then \<lparr>d_name = tl s3, d_args = args, d_unsigned = unsigned, d_arrayDepth = 1\<rparr>
         else \<lparr>d_name = s3, d_args = args, d_unsigned = unsigned, d_arrayDepth = depth\<rparr>)"

section \<open>The tables\<close>

text \<open>A shape is a portable type that has no native text yet.\<close>

definition shape :: "portable_kind \<Rightarrow> portable_type" where
  "shape k = Portable k None None None False None [] None"

definition noted :: "portable_kind \<Rightarrow> string \<Rightarrow> portable_type" where
  "noted k note = Portable k None None None False None [] (Some note)"

definition sized :: "portable_kind \<Rightarrow> rat option \<Rightarrow> portable_type" where
  "sized k n = Portable k n None None False None [] None"

type_synonym rule = "decl \<Rightarrow> portable_type"

definition is_a :: "portable_kind \<Rightarrow> rule" where
  "is_a k = (\<lambda>d. shape k)"

fun first_arg :: "rat list \<Rightarrow> rat option" where
  "first_arg [] = None"
| "first_arg (a # _) = Some a"

fun second_arg :: "rat list \<Rightarrow> rat option" where
  "second_arg (_ # b # _) = Some b"
| "second_arg _ = None"

definition or_else :: "'a option \<Rightarrow> 'a \<Rightarrow> 'a" where
  "or_else x d = (case x of None \<Rightarrow> d | Some y \<Rightarrow> y)"

text \<open>\<^verbatim>\<open>d.args[0] ? ... : ...\<close>: absent and 0 are both false.\<close>

definition given :: "rat option \<Rightarrow> bool" where
  "given x = (x \<noteq> None \<and> x \<noteq> Some 0)"

definition decimal_rule :: rule where
  "decimal_rule d =
     (case d_args d of
        [] \<Rightarrow> shape K_decimal
      | p # _ \<Rightarrow> Portable K_decimal None (Some p) (Some (or_else (second_arg (d_args d)) 0)) False None [] None)"

definition varchar_rule :: rule where
  "varchar_rule d =
     (if given (first_arg (d_args d)) then sized K_varchar (first_arg (d_args d)) else shape K_text)"

definition char_rule :: rule where
  "char_rule d = sized K_char (Some (or_else (first_arg (d_args d)) 1))"

definition int_rule :: "portable_kind \<Rightarrow> rule" where
  "int_rule k d = Portable k None None None (d_unsigned d) None [] None"

definition opaque_rule :: "string \<Rightarrow> rule" where
  "opaque_rule what d = noted K_opaque (what @ '' has no equivalent in other engines; it is stored as text'')"

definition COMMON :: "(string \<times> rule) list" where
  "COMMON =
     [(''boolean'', is_a K_boolean), (''bool'', is_a K_boolean), (''smallint'', int_rule K_smallint),
      (''integer'', int_rule K_integer), (''int'', int_rule K_integer), (''bigint'', int_rule K_bigint),
      (''numeric'', decimal_rule), (''decimal'', decimal_rule), (''dec'', decimal_rule),
      (''real'', is_a K_float), (''double precision'', is_a K_double), (''double'', is_a K_double),
      (''float'', is_a K_double), (''varchar'', varchar_rule), (''character varying'', varchar_rule),
      (''char'', char_rule), (''character'', char_rule), (''text'', is_a K_text), (''date'', is_a K_date),
      (''time'', is_a K_time), (''timestamp'', is_a K_timestamp), (''datetime'', is_a K_timestamp),
      (''json'', is_a K_json), (''uuid'', is_a K_uuid)]"

definition timetz_rule :: rule where
  "timetz_rule d = noted K_time ''the time zone offset of a \"time with time zone\" value is not carried''"

definition POSTGRES :: "(string \<times> rule) list" where
  "POSTGRES =
     [(''int2'', int_rule K_smallint), (''int4'', int_rule K_integer), (''int8'', int_rule K_bigint),
      (''smallserial'', is_a K_smallint), (''serial'', is_a K_integer), (''bigserial'', is_a K_bigint),
      (''oid'', is_a K_bigint), (''float4'', is_a K_float), (''float8'', is_a K_double),
      (''float'', \<lambda>d. shape (if given (first_arg (d_args d)) \<and> or_else (first_arg (d_args d)) 0 \<le> 24
                             then K_float else K_double)),
      (''bpchar'', char_rule), (''name'', \<lambda>d. sized K_varchar (Some 63)), (''citext'', is_a K_text),
      (''bytea'', is_a K_bytes), (''time'', is_a K_time), (''time without time zone'', is_a K_time),
      (''timetz'', timetz_rule), (''time with time zone'', timetz_rule), (''timestamp'', is_a K_timestamp),
      (''timestamp without time zone'', is_a K_timestamp), (''timestamptz'', is_a K_timestamptz),
      (''timestamp with time zone'', is_a K_timestamptz), (''interval'', is_a K_interval),
      (''jsonb'', is_a K_json), (''xml'', is_a K_text),
      (''money'', opaque_rule ''A money value (formatted with a currency symbol)''),
      (''array'', is_a K_array), (''user-defined'', opaque_rule ''A user-defined type'')]"

definition MYSQL :: "(string \<times> rule) list" where
  "MYSQL =
     [(''tinyint'', \<lambda>d. if first_arg (d_args d) = Some 1 \<and> \<not> d_unsigned d then shape K_boolean
                       else int_rule K_smallint d),
      (''mediumint'', int_rule K_integer), (''fixed'', decimal_rule),
      (''float'', \<lambda>d. shape (if given (first_arg (d_args d)) \<and> 24 < or_else (first_arg (d_args d)) 0
                             then K_double else K_float)),
      (''year'', is_a K_smallint),
      (''bit'', \<lambda>d. if or_else (first_arg (d_args d)) 1 = 1 then shape K_boolean
                   else noted K_bytes ''a multi-bit value is carried as raw bytes''),
      (''tinytext'', is_a K_text), (''mediumtext'', is_a K_text), (''longtext'', is_a K_text),
      (''binary'', is_a K_bytes), (''varbinary'', is_a K_bytes), (''tinyblob'', is_a K_bytes),
      (''blob'', is_a K_bytes), (''mediumblob'', is_a K_bytes), (''longblob'', is_a K_bytes),
      (''time'', is_a K_time), (''datetime'', is_a K_timestamp), (''timestamp'', is_a K_timestamp),
      (''enum'', opaque_rule ''An ENUM''), (''set'', opaque_rule ''A SET'')]"

definition SQLITE :: "(string \<times> rule) list" where
  "SQLITE =
     [(''int'', is_a K_bigint), (''integer'', is_a K_bigint), (''smallint'', is_a K_bigint),
      (''tinyint'', is_a K_bigint), (''mediumint'', is_a K_bigint), (''int2'', is_a K_bigint),
      (''int8'', is_a K_bigint), (''unsigned big int'', is_a K_bigint), (''big int'', is_a K_bigint),
      (''clob'', is_a K_text), (''nchar'', char_rule), (''nvarchar'', varchar_rule),
      (''native character'', char_rule), (''varying character'', varchar_rule), (''blob'', is_a K_bytes),
      (''datetime'', is_a K_timestamp), (''timestamp'', is_a K_timestamp), (''time'', is_a K_time),
      (''float'', is_a K_double),
      ('''', \<lambda>d. noted K_text ''the SQLite column has no declared type, so it is treated as text'')]"

definition MONGODB :: "(string \<times> rule) list" where
  "MONGODB =
     [(''objectid'', is_a K_objectid), (''string'', is_a K_text), (''number'', is_a K_double),
      (''int'', is_a K_integer), (''long'', is_a K_bigint), (''decimal128'', is_a K_decimal),
      (''boolean'', is_a K_boolean), (''date'', is_a K_timestamptz), (''array'', is_a K_json),
      (''object'', is_a K_json), (''binary'', is_a K_bytes), (''uuid'', is_a K_uuid),
      (''mixed'', \<lambda>d. noted K_text ''this field holds values of different types, so it is stored as text''),
      (''null'', \<lambda>d. noted K_text ''only null values were seen for this field, so it is treated as text''),
      (''undefined'', \<lambda>d. noted K_text ''no value was seen for this field, so it is treated as text'')]"

definition REDIS :: "(string \<times> rule) list" where
  "REDIS = [(''string'', is_a K_text)]"

fun BY_ENGINE :: "database_engine \<Rightarrow> (string \<times> rule) list" where
  "BY_ENGINE Postgres = POSTGRES"
| "BY_ENGINE Mysql = MYSQL"
| "BY_ENGINE Sqlite = SQLITE"
| "BY_ENGINE Mongodb = MONGODB"
| "BY_ENGINE Redis = REDIS"

fun first_table :: "string \<Rightarrow> (string \<times> rule) list list \<Rightarrow> rule option" where
  "first_table n [] = None"
| "first_table n (t # ts) = (case map_of t n of Some r \<Rightarrow> Some r | None \<Rightarrow> first_table n ts)"

definition type_lookup :: "string \<Rightarrow> database_engine option \<Rightarrow> rule option" where
  "type_lookup n engine =
     (case engine of
        Some e \<Rightarrow> first_table n [BY_ENGINE e, COMMON]
      | None \<Rightarrow> first_table n [COMMON, POSTGRES, MYSQL, SQLITE, MONGODB])"

section \<open>Parsing\<close>

fun with_native :: "string \<Rightarrow> portable_type \<Rightarrow> portable_type" where
  "with_native s (Portable k l p c u e _ n) = Portable k l p c u e s n"

definition resolve_type :: "string \<Rightarrow> database_engine option \<Rightarrow> decl \<Rightarrow> portable_type" where
  "resolve_type native engine d =
     (case type_lookup (d_name d) engine of
        Some rule \<Rightarrow> rule d
      | None \<Rightarrow>
          noted K_opaque
            (if native \<noteq> [] then ''\"'' @ native @ ''\" is not a type Syncle can translate; it is stored as text''
             else ''the column type is unknown; it is stored as text''))"

definition parseColumnType :: "string option \<Rightarrow> database_engine option \<Rightarrow> portable_type" where
  "parseColumnType dataType engine =
     (let native = trim (or_else dataType []); d = parseDecl native
      in if 0 < d_arrayDepth d then
           (let element = resolve_type native engine (d\<lparr>d_arrayDepth := 0\<rparr>)
            in if d_arrayDepth d = 1 \<and> pt_kind element \<noteq> K_opaque
               then Portable K_array None None None False (Some (with_native (d_name d) element)) native None
               else Portable K_array None None None False None native None)
         else with_native native (resolve_type native engine d))"

section \<open>Rendering\<close>

definition MYSQL_MAX_PRECISION :: rat where "MYSQL_MAX_PRECISION = 65"
definition MYSQL_MAX_SCALE :: rat where "MYSQL_MAX_SCALE = 30"
definition MYSQL_MAX_VARCHAR :: rat where "MYSQL_MAX_VARCHAR = 16383"
definition MYSQL_MAX_KEY_CHARS :: rat where "MYSQL_MAX_KEY_CHARS = 768"
definition POSTGRES_MAX_PRECISION :: rat where "POSTGRES_MAX_PRECISION = 1000"
definition SQLITE_EXACT_DIGITS :: rat where "SQLITE_EXACT_DIGITS = 15"

definition ok_type :: "string \<Rightarrow> column_type_plan" where
  "ok_type t = \<lparr>cp_type = t, cp_warnings = []\<rparr>"

definition lossy :: "string \<Rightarrow> string \<Rightarrow> column_type_plan" where
  "lossy t w = \<lparr>cp_type = t, cp_warnings = [w]\<rparr>"

definition show_rat :: "rat \<Rightarrow> string" where
  "show_rat q = js_string_of_num (Num q)"

definition sized_name :: "string \<Rightarrow> rat \<Rightarrow> string" where
  "sized_name n a = n @ ''('' @ show_rat a @ '')''"

definition decimal_name :: "string \<Rightarrow> rat \<Rightarrow> rat \<Rightarrow> string" where
  "decimal_name n p s = n @ ''('' @ show_rat p @ '','' @ show_rat s @ '')''"

fun renderPostgres :: "portable_type \<Rightarrow> column_type_plan" where
  "renderPostgres (Portable k len p sc u el nat_text note) =
     (case k of
        K_boolean \<Rightarrow> ok_type ''BOOLEAN''
      | K_smallint \<Rightarrow> ok_type (if u then ''INTEGER'' else ''SMALLINT'')
      | K_integer \<Rightarrow> ok_type (if u then ''BIGINT'' else ''INTEGER'')
      | K_bigint \<Rightarrow> ok_type (if u then ''NUMERIC(20,0)'' else ''BIGINT'')
      | K_decimal \<Rightarrow>
          (case p of
             None \<Rightarrow> ok_type ''NUMERIC''
           | Some q \<Rightarrow> if q \<le> POSTGRES_MAX_PRECISION then ok_type (decimal_name ''NUMERIC'' q (or_else sc 0))
                       else ok_type ''NUMERIC'')
      | K_float \<Rightarrow> ok_type ''REAL''
      | K_double \<Rightarrow> ok_type ''DOUBLE PRECISION''
      | K_varchar \<Rightarrow> ok_type (if given len then sized_name ''VARCHAR'' (or_else len 0) else ''TEXT'')
      | K_char \<Rightarrow> ok_type (sized_name ''CHAR'' (or_else len 1))
      | K_text \<Rightarrow> ok_type ''TEXT''
      | K_opaque \<Rightarrow> ok_type ''TEXT''
      | K_bytes \<Rightarrow> ok_type ''BYTEA''
      | K_date \<Rightarrow> ok_type ''DATE''
      | K_time \<Rightarrow> ok_type ''TIME''
      | K_timestamp \<Rightarrow> ok_type ''TIMESTAMP''
      | K_timestamptz \<Rightarrow> ok_type ''TIMESTAMPTZ''
      | K_interval \<Rightarrow> ok_type ''INTERVAL''
      | K_json \<Rightarrow> ok_type ''JSONB''
      | K_uuid \<Rightarrow> ok_type ''UUID''
      | K_objectid \<Rightarrow> ok_type ''VARCHAR(24)''
      | K_array \<Rightarrow>
          (case el of
             None \<Rightarrow> ok_type ''JSONB''
           | Some e \<Rightarrow> (let r = renderPostgres e
                        in \<lparr>cp_type = cp_type r @ ''[]'', cp_warnings = cp_warnings r\<rparr>)))"

definition mysql_key_text :: column_type_plan where
  "mysql_key_text = lossy ''VARCHAR(255)''
     ''MySQL cannot index unbounded text, so this key column is VARCHAR(255); longer values will be rejected''"

definition mysql_decimal :: "rat option \<Rightarrow> rat option \<Rightarrow> column_type_plan" where
  "mysql_decimal p sc =
     (case p of
        None \<Rightarrow>
          lossy (decimal_name ''DECIMAL'' MYSQL_MAX_PRECISION MYSQL_MAX_SCALE)
            (''the source number has no fixed precision; MySQL needs one, so it is '' @
             decimal_name ''DECIMAL'' MYSQL_MAX_PRECISION MYSQL_MAX_SCALE @ '' - values with more than '' @
             show_rat (MYSQL_MAX_PRECISION - MYSQL_MAX_SCALE) @
             '' digits before the decimal point will be rejected'')
      | Some q \<Rightarrow>
          (let s0 = or_else sc 0; scale = min s0 MYSQL_MAX_SCALE; precision = min q MYSQL_MAX_PRECISION
           in if precision = q \<and> scale = s0 then ok_type (decimal_name ''DECIMAL'' precision scale)
              else lossy (decimal_name ''DECIMAL'' precision scale)
                (''MySQL decimals stop at '' @ show_rat MYSQL_MAX_PRECISION @ '' digits ('' @
                 show_rat MYSQL_MAX_SCALE @ '' after the point); the source allows '' @
                 decimal_name '''' q s0 @ '', so larger values will be rejected'')))"

definition renderMysql :: "portable_type \<Rightarrow> bool \<Rightarrow> column_type_plan" where
  "renderMysql t isKey =
     (let u = (if pt_unsigned t then '' UNSIGNED'' else []); n = or_else (pt_length t) 0
      in case pt_kind t of
        K_boolean \<Rightarrow> ok_type ''TINYINT(1)''
      | K_smallint \<Rightarrow> ok_type (''SMALLINT'' @ u)
      | K_integer \<Rightarrow> ok_type (''INT'' @ u)
      | K_bigint \<Rightarrow> ok_type (''BIGINT'' @ u)
      | K_decimal \<Rightarrow> mysql_decimal (pt_precision t) (pt_scale t)
      | K_float \<Rightarrow> ok_type ''FLOAT''
      | K_double \<Rightarrow> ok_type ''DOUBLE''
      | K_varchar \<Rightarrow>
          if isKey then (if 0 < n \<and> n \<le> MYSQL_MAX_KEY_CHARS then ok_type (sized_name ''VARCHAR'' n) else mysql_key_text)
          else if 0 < n \<and> n \<le> MYSQL_MAX_VARCHAR then ok_type (sized_name ''VARCHAR'' n)
          else ok_type ''LONGTEXT''
      | K_char \<Rightarrow>
          if or_else (pt_length t) 1 \<le> 255 then ok_type (sized_name ''CHAR'' (or_else (pt_length t) 1))
          else if isKey then mysql_key_text else ok_type ''LONGTEXT''
      | K_text \<Rightarrow> if isKey then mysql_key_text else ok_type ''LONGTEXT''
      | K_opaque \<Rightarrow> if isKey then mysql_key_text else ok_type ''LONGTEXT''
      | K_bytes \<Rightarrow>
          if isKey then lossy ''VARBINARY(255)''
            ''a binary key is limited to 255 bytes in MySQL; longer values will be rejected''
          else ok_type ''LONGBLOB''
      | K_date \<Rightarrow> ok_type ''DATE''
      | K_time \<Rightarrow> ok_type ''TIME(6)''
      | K_timestamp \<Rightarrow> ok_type ''DATETIME(6)''
      | K_timestamptz \<Rightarrow> lossy ''DATETIME(6)''
          ''MySQL has no time-zone-aware timestamp; values are stored as UTC wall-clock times''
      | K_interval \<Rightarrow> lossy ''VARCHAR(64)'' ''MySQL has no interval type; the value is stored as text''
      | K_json \<Rightarrow> if isKey then lossy ''VARCHAR(255)''
            ''a JSON value cannot be a MySQL key; it is stored as text, limited to 255 characters''
          else ok_type ''JSON''
      | K_array \<Rightarrow> if isKey then lossy ''VARCHAR(255)''
            ''a JSON value cannot be a MySQL key; it is stored as text, limited to 255 characters''
          else ok_type ''JSON''
      | K_uuid \<Rightarrow> ok_type ''CHAR(36)''
      | K_objectid \<Rightarrow> ok_type ''CHAR(24)'')"

definition renderSqlite :: "portable_type \<Rightarrow> column_type_plan" where
  "renderSqlite t =
     (case pt_kind t of
        K_boolean \<Rightarrow> ok_type ''INTEGER''
      | K_smallint \<Rightarrow> ok_type ''INTEGER''
      | K_integer \<Rightarrow> ok_type ''INTEGER''
      | K_bigint \<Rightarrow>
          if pt_unsigned t then lossy ''TEXT''
            ''SQLite integers are signed 64-bit, so an unsigned 64-bit column is stored as text to keep values above 9,223,372,036,854,775,807 exact''
          else ok_type ''INTEGER''
      | K_decimal \<Rightarrow>
          (case pt_precision t of
             Some p \<Rightarrow>
               if p \<le> SQLITE_EXACT_DIGITS then ok_type (decimal_name ''DECIMAL'' p (or_else (pt_scale t) 0))
               else lossy ''TEXT''
                 ''SQLite has no exact decimal type; the number is stored as text so that every digit is kept (it sorts and compares as text there)''
           | None \<Rightarrow> lossy ''TEXT''
                 ''SQLite has no exact decimal type; the number is stored as text so that every digit is kept (it sorts and compares as text there)'')
      | K_float \<Rightarrow> ok_type ''REAL''
      | K_double \<Rightarrow> ok_type ''REAL''
      | K_bytes \<Rightarrow> ok_type ''BLOB''
      | _ \<Rightarrow> ok_type ''TEXT'')"

text \<open>\<^verbatim>\<open>/^[A-Za-z0-9_ (),]+(\[\])*$/\<close>\<close>

definition type_text_char :: "char \<Rightarrow> bool" where
  "type_text_char c = (is_word c \<or> c \<in> set '' (),'')"

fun all_brackets :: "string \<Rightarrow> bool" where
  "all_brackets [] = True"
| "all_brackets (a # b # s) = (a = CHR ''['' \<and> b = CHR '']'' \<and> all_brackets s)"
| "all_brackets _ = False"

definition plain_type_text :: "string \<Rightarrow> bool" where
  "plain_type_text s =
     (let w = takeWhile type_text_char s in w \<noteq> [] \<and> all_brackets (drop (length w) s))"

definition reusable :: "portable_type \<Rightarrow> database_engine \<Rightarrow> bool \<Rightarrow> bool" where
  "reusable t engine isKey =
     (if pt_kind t = K_opaque then False
      else if \<not> plain_type_text (pt_native t) then False
      else if engine = Mysql \<and> isKey \<and> pt_kind t \<in> set [K_text, K_bytes, K_json, K_array] then False
      else if engine = Mysql \<and> isKey \<and> pt_kind t = K_varchar
        then 0 < or_else (pt_length t) 0 \<and> or_else (pt_length t) 0 \<le> MYSQL_MAX_KEY_CHARS
      else \<not> (pt_kind t = K_array \<and> pt_element t = None))"

definition render_for :: "database_engine \<Rightarrow> portable_type \<Rightarrow> bool \<Rightarrow> column_type_plan" where
  "render_for target t isKey =
     (case target of
        Postgres \<Rightarrow> renderPostgres t
      | Mysql \<Rightarrow> renderMysql t isKey
      | Sqlite \<Rightarrow> renderSqlite t
      | _ \<Rightarrow> ok_type (kind_name (pt_kind t)))"

definition translateColumnType ::
  "string option \<Rightarrow> database_engine option \<Rightarrow> database_engine \<Rightarrow> bool \<Rightarrow> column_type_plan"
where
  "translateColumnType dataType source target isKey =
     (let parsed = parseColumnType dataType source;
          notes = (case pt_note parsed of None \<Rightarrow> [] | Some n \<Rightarrow> [n]);
          rendered = render_for target parsed isKey
      in if source = Some target \<and> reusable parsed target isKey
         then ok_type (pt_native parsed)
         else \<lparr>cp_type = cp_type rendered, cp_warnings = notes @ cp_warnings rendered\<rparr>)"


section \<open>What a rendered type holds\<close>

text \<open>
  \<open>holds t t'\<close>: a column of type \<open>t'\<close> has room for every value of type \<open>t\<close>. Integers by their
  range, decimals by the digits before and after the point, text by its length.
\<close>

fun int_range :: "portable_kind \<Rightarrow> bool \<Rightarrow> (int \<times> int) option" where
  "int_range K_smallint u = Some (if u then (0, 2 ^ 16 - 1) else (- (2 ^ 15), 2 ^ 15 - 1))"
| "int_range K_integer u = Some (if u then (0, 2 ^ 32 - 1) else (- (2 ^ 31), 2 ^ 31 - 1))"
| "int_range K_bigint u = Some (if u then (0, 2 ^ 64 - 1) else (- (2 ^ 63), 2 ^ 63 - 1))"
| "int_range _ u = None"

definition type_range :: "portable_type \<Rightarrow> (int \<times> int) option" where
  "type_range t = int_range (pt_kind t) (pt_unsigned t)"

definition digits_hold :: "rat \<Rightarrow> rat \<Rightarrow> portable_type \<Rightarrow> bool" where
  "digits_hold whole fraction t =
     (pt_kind t = K_decimal \<and>
      (case pt_precision t of
         None \<Rightarrow> True
       | Some p \<Rightarrow> fraction \<le> or_else (pt_scale t) 0 \<and> whole \<le> p - or_else (pt_scale t) 0))"

definition text_holds :: "rat option \<Rightarrow> portable_type \<Rightarrow> bool" where
  "text_holds n t =
     (pt_kind t = K_text \<or>
      (case n of
         None \<Rightarrow> False
       | Some l \<Rightarrow> (pt_kind t = K_varchar \<or> pt_kind t = K_char) \<and> l \<le> or_else (pt_length t) 0))"

definition range_holds :: "int \<times> int \<Rightarrow> portable_type \<Rightarrow> bool" where
  "range_holds r t =
     (case type_range t of
        Some (lo, hi) \<Rightarrow> lo \<le> fst r \<and> snd r \<le> hi
      | None \<Rightarrow> digits_hold 20 0 t)"

fun holds :: "portable_type \<Rightarrow> portable_type \<Rightarrow> bool" where
  "holds (Portable k len p sc u el nat_text note) t' =
     (case k of
        K_boolean \<Rightarrow> pt_kind t' = K_boolean \<or> type_range t' \<noteq> None
      | K_smallint \<Rightarrow> range_holds (the (int_range k u)) t'
      | K_integer \<Rightarrow> range_holds (the (int_range k u)) t'
      | K_bigint \<Rightarrow> range_holds (the (int_range k u)) t'
      | K_decimal \<Rightarrow>
          (case p of
             None \<Rightarrow> pt_kind t' = K_decimal \<and> pt_precision t' = None
           | Some q \<Rightarrow> digits_hold (q - or_else sc 0) (or_else sc 0) t')
      | K_float \<Rightarrow> pt_kind t' = K_float \<or> pt_kind t' = K_double
      | K_double \<Rightarrow> pt_kind t' = K_double
      | K_varchar \<Rightarrow> text_holds (if given len then len else None) t'
      | K_char \<Rightarrow> text_holds (Some (or_else len 1)) t'
      | K_uuid \<Rightarrow> pt_kind t' = K_uuid \<or> text_holds (Some 36) t'
      | K_objectid \<Rightarrow> text_holds (Some 24) t'
      | K_opaque \<Rightarrow> pt_kind t' = K_text
      | K_array \<Rightarrow> pt_kind t' = K_json \<or> pt_kind t' = K_text \<or>
          (pt_kind t' = K_array \<and>
            (case (el, pt_element t') of (Some e, Some e') \<Rightarrow> holds e e' | _ \<Rightarrow> False))
      | _ \<Rightarrow> pt_kind t' = k \<or> pt_kind t' = K_text)"

text \<open>What the modifiers of a parsed type are when they are whole numbers of sane size.\<close>

definition whole :: "rat option \<Rightarrow> bool" where
  "whole x = (case x of None \<Rightarrow> True | Some q \<Rightarrow> 0 \<le> q \<and> q < 10 ^ 15 \<and> of_int \<lfloor>q\<rfloor> = q)"

fun whole_type :: "portable_type \<Rightarrow> bool" where
  "whole_type (Portable k len p sc u el nat_text note) =
     (whole len \<and> whole p \<and> whole sc \<and>
      (case el of None \<Rightarrow> True | Some e \<Rightarrow> pt_kind e \<noteq> K_opaque \<and> pt_kind e \<noteq> K_array \<and> whole_type e))"

section \<open>Reading a rendered type\<close>

lemma whole_nat: "whole (Some q) \<Longrightarrow> \<exists>n. q = of_nat n \<and> n < 10 ^ 15"
proof -
  assume w: "whole (Some q)"
  define n where "n = nat \<lfloor>q\<rfloor>"
  have q: "q = of_int \<lfloor>q\<rfloor>" "0 \<le> \<lfloor>q\<rfloor>" "q < 10 ^ 15" using w by (auto simp: whole_def)
  then have n: "q = of_nat n" by (simp add: n_def)
  then have "(of_nat n :: rat) < of_nat (10 ^ 15)" using q(3) by simp
  then show ?thesis using n by (metis of_nat_less_iff)
qed

lemma show_rat_nat: "n < 10 ^ 15 \<Longrightarrow> show_rat (of_nat n) = show_nat n"
proof -
  assume "n < 10 ^ 15"
  then have "(of_nat n :: rat) < of_nat (10 ^ 15)" by (metis of_nat_less_iff)
  moreover have "show_nat 0 = ''0''" by code_simp
  ultimately show ?thesis by (simp add: show_rat_def positive_to_string_def)
qed

definition modifier_char :: "char \<Rightarrow> bool" where
  "modifier_char c = (is_digit c \<or> c = CHR '','')"

lemma modifier_char_plain:
  "modifier_char c \<Longrightarrow> lower_char c = c \<and> \<not> ws_char c \<and> c \<noteq> CHR ''('' \<and> c \<noteq> CHR '')''"
  by (auto simp: modifier_char_def is_digit_def lower_char_def ws_char_def Let_def)

lemma bracket_no_ws [simp]:
  "\<not> ws_char (CHR ''('')" "\<not> ws_char (CHR '')'')" "\<not> ws_char (CHR ''['')" "\<not> ws_char (CHR '']'')"
  by (simp_all add: ws_char_def)

lemma squeeze_no_ws: "list_all (\<lambda>c. \<not> ws_char c) s \<Longrightarrow> squeeze s = s"
  by (induction s rule: squeeze.induct) auto

text \<open>
  A declaration of one word, a modifier in parentheses and possibly an array suffix. The
  word's own conditions are closed facts of each word.
\<close>

definition type_word :: "string \<Rightarrow> bool" where
  "type_word w =
     (w \<noteq> [] \<and> list_all (\<lambda>c. \<not> ws_char c \<and> c \<noteq> CHR ''('') w \<and> \<not> underscore_array w \<and>
      cut_word ''unsigned'' False w = None \<and> cut_word ''zerofill'' False w = None \<and>
      cut_word ''signed'' False w = None)"

lemma parens_modifier:
  assumes "list_all (\<lambda>c. c \<noteq> CHR ''('') w" and "list_all modifier_char ds"
  shows "parens (w @ ''('' @ ds @ '')'') = Some (w, ds, [])"
proof -
  have b: "takeWhile (\<lambda>c. c \<noteq> CHR ''('') (w @ ''('' @ ds @ '')'') = w"
    using assms(1) by (simp add: takeWhile_append2 list_all_iff)
  have i: "takeWhile (\<lambda>c. c \<noteq> CHR '')'') (ds @ '')'') = ds"
    using assms(2) modifier_char_plain by (auto simp: takeWhile_append2 list_all_iff)
  show ?thesis using b i by (simp add: parens_def Let_def)
qed

lemma strip_array_suffix:
  assumes "s \<noteq> []" and "last s = CHR '')''" and "list_all (\<lambda>c. \<not> ws_char c) s"
  shows "strip_arrays (Suc n) s = (0, s)" and "strip_arrays (Suc (Suc n)) (s @ ''[]'') = (1, s)"
proof -
  obtain t where t: "s = t @ [CHR '')'']" using assms(1,2) by (metis append_butlast_last_id)
  have ends: "\<not> ends_with s ''[]''" by (simp add: t ends_with_def starts_with_def)
  show "strip_arrays (Suc n) s = (0, s)" using ends by simp
  have "ends_with (s @ ''[]'') ''[]''" by (simp add: ends_with_iff)
  moreover have "trim (take (length (s @ ''[]'') - 2) (s @ ''[]'')) = s" using assms(3) by (simp add: trim_no_ws)
  ultimately show "strip_arrays (Suc (Suc n)) (s @ ''[]'') = (1, s)" using ends by simp
qed

lemma parseDecl_modifier:
  assumes w: "type_word w" "to_lower W = w" "list_all (\<lambda>c. \<not> ws_char c) W" and ds: "list_all modifier_char ds"
  shows "parseDecl (W @ ''('' @ ds @ '')'') =
           \<lparr>d_name = w, d_args = modifier_args ds, d_unsigned = False, d_arrayDepth = 0\<rparr>"
    and "parseDecl (W @ ''('' @ ds @ '')[]'') =
           \<lparr>d_name = w, d_args = modifier_args ds, d_unsigned = False, d_arrayDepth = 1\<rparr>"
proof -
  let ?s = "w @ ''('' @ ds @ '')''"
  have ds_ws: "list_all (\<lambda>c. \<not> ws_char c) ds" using ds modifier_char_plain by (auto simp: list_all_iff)
  have lower: "to_lower (''('' @ ds @ '')'' @ suf) = ''('' @ ds @ '')'' @ to_lower suf" for suf
  proof -
    have "map lower_char ds = ds"
      by (rule map_idI) (use ds modifier_char_plain in \<open>simp add: list_all_iff\<close>)
    then show ?thesis by (simp add: to_lower_def lower_char_def)
  qed
  have no_ws: "list_all (\<lambda>c. \<not> ws_char c) ?s" "list_all (\<lambda>c. \<not> ws_char c) (W @ ''('' @ ds @ '')'')"
    using w(1,3) ds_ws by (auto simp: type_word_def list_all_iff)
  have no_ws2: "list_all (\<lambda>c. \<not> ws_char c) (?s @ ''[]'')" "list_all (\<lambda>c. \<not> ws_char c) (W @ ''('' @ ds @ '')[]'')"
    using no_ws by simp_all
  have s: "squeeze (to_lower (trim (W @ ''('' @ ds @ '')''))) = ?s"
    using trim_no_ws [OF no_ws(2)] lower [of "[]"] squeeze_no_ws [OF no_ws(1)] w(2) by (simp add: to_lower_def)
  have s2: "squeeze (to_lower (trim (W @ ''('' @ ds @ '')[]''))) = ?s @ ''[]''"
    using trim_no_ws [OF no_ws2(2)] lower [of "''[]''"] squeeze_no_ws [OF no_ws2(1)] w(2)
    by (simp add: to_lower_def lower_char_def)
  have p: "parens ?s = Some (w, ds, [])"
    by (rule parens_modifier) (use w ds in \<open>auto simp: type_word_def list_all_iff\<close>)
  have tw: "trim (squeeze w) = w" using w(1) by (simp add: type_word_def list_all_iff squeeze_no_ws trim_no_ws)
  have strip: "strip_arrays (length ?s) ?s = (0, ?s)"
    using strip_array_suffix(1) [of ?s "length w + length ds + 1"] no_ws(1) by simp
  have strip2: "strip_arrays (length (?s @ ''[]'')) (?s @ ''[]'') = (1, ?s)"
    using strip_array_suffix(2) [of ?s "length w + length ds + 2"] no_ws(1) by simp
  have rest: "without_word ''signed'' (without_word ''zerofill'' (without_word ''unsigned'' w)) = w"
    "cut_word ''unsigned'' False w = None" "\<not> underscore_array w"
    using w(1) by (simp_all add: type_word_def without_word_def)
  show "parseDecl (W @ ''('' @ ds @ '')'') =
      \<lparr>d_name = w, d_args = modifier_args ds, d_unsigned = False, d_arrayDepth = 0\<rparr>"
    unfolding parseDecl_def s Let_def strip using p rest tw by (simp add: without_parens_def)
  show "parseDecl (W @ ''('' @ ds @ '')[]'') =
      \<lparr>d_name = w, d_args = modifier_args ds, d_unsigned = False, d_arrayDepth = 1\<rparr>"
    unfolding parseDecl_def s2 Let_def strip2 using p rest tw by (simp add: without_parens_def)
qed


lemma number_read: "n < 10 ^ 15 \<Longrightarrow> finite_number (trim (show_nat n)) = Some (of_nat n) \<and> trim (show_nat n) \<noteq> []"
  using js_number_show_nat [of n] show_nat_nonempty [of n]
  by (simp add: trim_no_ws [OF show_nat_no_ws] finite_number_def)

lemma digits_modifier: "list_all modifier_char (show_nat n)"
  using show_nat_digits [of n] by (simp add: list_all_iff modifier_char_def)

lemma no_comma: "CHR '','' \<notin> set (show_nat n)"
  using show_nat_digits [of n] by (auto simp: list_all_iff is_digit_def)

lemma one_arg: "n < 10 ^ 15 \<Longrightarrow> modifier_args (show_nat n) = [of_nat n]"
  using number_read [of n]
  by (simp add: modifier_args_def split_on_absent no_comma List.map_filter_def)

lemma two_args:
  "a < 10 ^ 15 \<Longrightarrow> b < 10 ^ 15 \<Longrightarrow> modifier_args (show_nat a @ '','' @ show_nat b) = [of_nat a, of_nat b]"
  using number_read [of a] number_read [of b]
  by (simp add: modifier_args_def split_on_absent split_on_append no_comma List.map_filter_def)

text \<open>A scalar's text and the text of the array of it are read alike, up to the depth.\<close>

definition twin :: "string \<Rightarrow> bool" where
  "twin s =
     (trim s = s \<and> trim (s @ ''[]'') = s @ ''[]'' \<and> d_arrayDepth (parseDecl s) = 0 \<and>
      parseDecl (s @ ''[]'') = (parseDecl s)\<lparr>d_arrayDepth := 1\<rparr>)"

lemma modifier_twin:
  assumes "type_word w" and "to_lower W = w" and "list_all (\<lambda>c. \<not> ws_char c) W" and "list_all modifier_char ds"
  shows "twin (W @ ''('' @ ds @ '')'')"
proof -
  have "list_all (\<lambda>c. \<not> ws_char c) (W @ ''('' @ ds @ '')'')" "list_all (\<lambda>c. \<not> ws_char c) (W @ ''('' @ ds @ '')[]'')"
    using assms(3,4) modifier_char_plain by (auto simp: list_all_iff)
  then show ?thesis using parseDecl_modifier [OF assms] by (simp add: twin_def trim_no_ws)
qed

text \<open>A rendered scalar: what it is read as in the engine it was rendered for.\<close>

definition reads_as :: "database_engine \<Rightarrow> string \<Rightarrow> portable_type \<Rightarrow> bool" where
  "reads_as e s t' =
     (twin s \<and> pt_kind t' \<noteq> K_opaque \<and>
      (case type_lookup (d_name (parseDecl s)) (Some e) of None \<Rightarrow> False | Some rule \<Rightarrow> rule (parseDecl s) = t'))"

lemma native_simps [simp]:
  "pt_kind (with_native s t) = pt_kind t" "pt_length (with_native s t) = pt_length t"
  "pt_precision (with_native s t) = pt_precision t" "pt_scale (with_native s t) = pt_scale t"
  "pt_unsigned (with_native s t) = pt_unsigned t" "pt_element (with_native s t) = pt_element t"
  by (cases t; simp)+

lemma holds_native [simp]: "holds t (with_native s t') = holds t t'"
  by (cases t) (simp add: text_holds_def digits_hold_def range_holds_def type_range_def
      split: portable_kind.splits option.splits)

lemma parse_reads: "reads_as e s t' \<Longrightarrow> parseColumnType (Some s) (Some e) = with_native s t'"
  by (auto simp: reads_as_def twin_def parseColumnType_def or_else_def resolve_type_def Let_def split: option.splits)

lemma parse_array:
  assumes "reads_as e s t'"
  shows "parseColumnType (Some (s @ ''[]'')) (Some e) =
           Portable K_array None None None False (Some (with_native (d_name (parseDecl s)) t')) (s @ ''[]'') None"
proof -
  obtain n a u where d: "parseDecl s = \<lparr>d_name = n, d_args = a, d_unsigned = u, d_arrayDepth = 0\<rparr>"
    using assms by (cases "parseDecl s") (simp add: reads_as_def twin_def)
  show ?thesis using assms unfolding reads_as_def twin_def d
    by (auto simp: parseColumnType_def or_else_def resolve_type_def Let_def split: option.splits)
qed

lemma type_words:
  "type_word ''varchar''" "type_word ''char''" "type_word ''numeric''" "type_word ''decimal''"
  by code_simp+

lemma sized_reads:
  assumes "type_word w" and "to_lower W = w" and "list_all (\<lambda>c. \<not> ws_char c) W" and "n < 10 ^ 15"
    and "type_lookup w (Some e) = Some rule" and "pt_kind (rule \<lparr>d_name = w, d_args = [of_nat n], d_unsigned = False, d_arrayDepth = 0\<rparr>) \<noteq> K_opaque"
  shows "reads_as e (sized_name W (of_nat n)) (rule \<lparr>d_name = w, d_args = [of_nat n], d_unsigned = False, d_arrayDepth = 0\<rparr>)"
  using modifier_twin [OF assms(1-3) digits_modifier] parseDecl_modifier(1) [OF assms(1-3) digits_modifier] assms(4-6)
  by (simp add: reads_as_def sized_name_def show_rat_nat one_arg)

lemma decimal_reads:
  assumes "type_word w" and "to_lower W = w" and "list_all (\<lambda>c. \<not> ws_char c) W" and "a < 10 ^ 15" and "b < 10 ^ 15"
    and "type_lookup w (Some e) = Some decimal_rule"
  shows "reads_as e (decimal_name W (of_nat a) (of_nat b))
           (Portable K_decimal None (Some (of_nat a)) (Some (of_nat b)) False None [] None)"
proof -
  let ?ds = "show_nat a @ '','' @ show_nat b"
  have ds: "list_all modifier_char ?ds" using digits_modifier by (simp add: modifier_char_def)
  show ?thesis
    using modifier_twin [OF assms(1-3) ds] parseDecl_modifier(1) [OF assms(1-3) ds] assms(4-6)
    by (simp add: reads_as_def decimal_name_def show_rat_nat two_args [simplified] decimal_rule_def or_else_def)
qed

lemma type_lookups:
  "type_lookup ''varchar'' (Some Postgres) = Some varchar_rule" "type_lookup ''char'' (Some Postgres) = Some char_rule"
  "type_lookup ''numeric'' (Some Postgres) = Some decimal_rule"
  "type_lookup ''varchar'' (Some Mysql) = Some varchar_rule" "type_lookup ''char'' (Some Mysql) = Some char_rule"
  "type_lookup ''decimal'' (Some Mysql) = Some decimal_rule" "type_lookup ''decimal'' (Some Sqlite) = Some decimal_rule"
  by (simp_all add: type_lookup_def POSTGRES_def MYSQL_def SQLITE_def COMMON_def)


text \<open>A type of one word, upper-cased as the renderers write it.\<close>

definition spells :: "string \<Rightarrow> string \<Rightarrow> bool" where
  "spells w W = (type_word w \<and> to_lower W = w \<and> list_all (\<lambda>c. \<not> ws_char c) W \<and> last w \<noteq> CHR '']'')"

lemma parens_none: "CHR ''('' \<notin> set s \<Longrightarrow> parens s = None"
  by (simp add: parens_def Let_def)

lemma strip_word:
  assumes "w \<noteq> []" and "last w \<noteq> CHR '']''" and "list_all (\<lambda>c. \<not> ws_char c) w"
  shows "strip_arrays n w = (0, w)" and "strip_arrays (Suc n) (w @ ''[]'') = (1, w)"
proof -
  have "\<not> ends_with w ''[]''" using assms(2) by (auto simp: ends_with_iff)
  then show zero: "strip_arrays m w = (0, w)" for m by (cases m) auto
  have "ends_with (w @ ''[]'') ''[]''" by (simp add: ends_with_iff)
  moreover have "trim (take (length (w @ ''[]'') - 2) (w @ ''[]'')) = w" using assms(3) by (simp add: trim_no_ws)
  ultimately show "strip_arrays (Suc n) (w @ ''[]'') = (1, w)" using zero by simp
qed

lemma parseDecl_word:
  assumes "spells w W"
  shows "parseDecl W = \<lparr>d_name = w, d_args = [], d_unsigned = False, d_arrayDepth = 0\<rparr>"
    and "parseDecl (W @ ''[]'') = \<lparr>d_name = w, d_args = [], d_unsigned = False, d_arrayDepth = 1\<rparr>"
proof -
  have w: "w \<noteq> []" "last w \<noteq> CHR '']''" "list_all (\<lambda>c. \<not> ws_char c) w" "CHR ''('' \<notin> set w"
    and W: "to_lower W = w" "list_all (\<lambda>c. \<not> ws_char c) W" "list_all (\<lambda>c. \<not> ws_char c) (W @ ''[]'')"
      "list_all (\<lambda>c. \<not> ws_char c) (w @ ''[]'')"
    using assms by (auto simp: spells_def type_word_def list_all_iff)
  have lower2: "to_lower (W @ ''[]'') = w @ ''[]''" using W(1) by (simp add: to_lower_def lower_char_def)
  have rest: "without_word ''signed'' (without_word ''zerofill'' (without_word ''unsigned'' w)) = w"
    "cut_word ''unsigned'' False w = None" "\<not> underscore_array w"
    using assms by (simp_all add: spells_def type_word_def without_word_def)
  have same: "trim (squeeze w) = w" "without_parens w = w"
    using w by (simp_all add: squeeze_no_ws trim_no_ws without_parens_def parens_none)
  have len: "length (w @ ''[]'') = Suc (Suc (length w))" by simp
  show "parseDecl W = \<lparr>d_name = w, d_args = [], d_unsigned = False, d_arrayDepth = 0\<rparr>"
    using trim_no_ws [OF W(2)] W(1) squeeze_no_ws [OF w(3)] strip_word(1) [OF w(1-3), of "length w"] rest same
      parens_none [OF w(4)]
    by (simp add: parseDecl_def)
  have sq: "squeeze (to_lower (trim (W @ ''[]''))) = w @ ''[]''"
    using trim_no_ws [OF W(3)] lower2 squeeze_no_ws [OF W(4)] by simp
  show "parseDecl (W @ ''[]'') = \<lparr>d_name = w, d_args = [], d_unsigned = False, d_arrayDepth = 1\<rparr>"
    unfolding parseDecl_def sq Let_def len strip_word(2) [OF w(1-3)] using rest same parens_none [OF w(4)] by simp
qed

lemma word_reads:
  assumes "spells w W"
    and "case type_lookup w (Some e) of None \<Rightarrow> False
         | Some rule \<Rightarrow> rule \<lparr>d_name = w, d_args = [], d_unsigned = False, d_arrayDepth = 0\<rparr> = t'"
    and "pt_kind t' \<noteq> K_opaque"
  shows "reads_as e W t'"
proof -
  have "list_all (\<lambda>c. \<not> ws_char c) W" "list_all (\<lambda>c. \<not> ws_char c) (W @ ''[]'')"
    using assms(1) by (auto simp: spells_def)
  then show ?thesis using parseDecl_word [OF assms(1)] assms(2,3) by (simp add: reads_as_def twin_def trim_no_ws split: option.splits)
qed

text \<open>The words of the tables, as they are rendered.\<close>

lemma spelled_all:
  "list_all (\<lambda>(w, W). spells w W)
     [(''boolean'', ''BOOLEAN''), (''smallint'', ''SMALLINT''), (''integer'', ''INTEGER''),
      (''bigint'', ''BIGINT''), (''numeric'', ''NUMERIC''), (''real'', ''REAL''),
      (''text'', ''TEXT''), (''bytea'', ''BYTEA''), (''date'', ''DATE''),
      (''time'', ''TIME''), (''timestamp'', ''TIMESTAMP''), (''timestamptz'', ''TIMESTAMPTZ''),
      (''interval'', ''INTERVAL''), (''jsonb'', ''JSONB''), (''uuid'', ''UUID''),
      (''int'', ''INT''), (''float'', ''FLOAT''), (''double'', ''DOUBLE''),
      (''longtext'', ''LONGTEXT''), (''longblob'', ''LONGBLOB''), (''json'', ''JSON''),
      (''blob'', ''BLOB'')]"
  by code_simp

lemma spelled:
  "spells ''boolean'' ''BOOLEAN''" "spells ''smallint'' ''SMALLINT''"
  "spells ''integer'' ''INTEGER''" "spells ''bigint'' ''BIGINT''"
  "spells ''numeric'' ''NUMERIC''" "spells ''real'' ''REAL''"
  "spells ''text'' ''TEXT''" "spells ''bytea'' ''BYTEA''"
  "spells ''date'' ''DATE''" "spells ''time'' ''TIME''"
  "spells ''timestamp'' ''TIMESTAMP''" "spells ''timestamptz'' ''TIMESTAMPTZ''"
  "spells ''interval'' ''INTERVAL''" "spells ''jsonb'' ''JSONB''"
  "spells ''uuid'' ''UUID''" "spells ''int'' ''INT''"
  "spells ''float'' ''FLOAT''" "spells ''double'' ''DOUBLE''"
  "spells ''longtext'' ''LONGTEXT''" "spells ''longblob'' ''LONGBLOB''"
  "spells ''json'' ''JSON''" "spells ''blob'' ''BLOB''"
  using spelled_all by (simp_all only: list.pred_inject prod.case)

lemmas word_reads' = spelled [THEN word_reads]

lemmas tables = type_lookup_def POSTGRES_def MYSQL_def SQLITE_def COMMON_def is_a_def int_rule_def shape_def
  given_def or_else_def

lemma postgres_words:
  "reads_as Postgres ''BOOLEAN'' (shape K_boolean)" "reads_as Postgres ''SMALLINT'' (shape K_smallint)"
  "reads_as Postgres ''INTEGER'' (shape K_integer)" "reads_as Postgres ''BIGINT'' (shape K_bigint)"
  "reads_as Postgres ''REAL'' (shape K_float)" "reads_as Postgres ''TEXT'' (shape K_text)"
  "reads_as Postgres ''BYTEA'' (shape K_bytes)" "reads_as Postgres ''DATE'' (shape K_date)"
  "reads_as Postgres ''TIME'' (shape K_time)" "reads_as Postgres ''TIMESTAMP'' (shape K_timestamp)"
  "reads_as Postgres ''TIMESTAMPTZ'' (shape K_timestamptz)" "reads_as Postgres ''INTERVAL'' (shape K_interval)"
  "reads_as Postgres ''JSONB'' (shape K_json)" "reads_as Postgres ''UUID'' (shape K_uuid)"
  "reads_as Postgres ''NUMERIC'' (shape K_decimal)"
  by (rule word_reads', simp_all add: tables decimal_rule_def)+

lemma mysql_words:
  "reads_as Mysql ''SMALLINT'' (shape K_smallint)" "reads_as Mysql ''INT'' (shape K_integer)"
  "reads_as Mysql ''BIGINT'' (shape K_bigint)" "reads_as Mysql ''FLOAT'' (shape K_float)"
  "reads_as Mysql ''DOUBLE'' (shape K_double)" "reads_as Mysql ''LONGTEXT'' (shape K_text)"
  "reads_as Mysql ''LONGBLOB'' (shape K_bytes)" "reads_as Mysql ''DATE'' (shape K_date)"
  "reads_as Mysql ''JSON'' (shape K_json)"
  by (rule word_reads', simp_all add: tables)+

lemma sqlite_words:
  "reads_as Sqlite ''INTEGER'' (shape K_bigint)" "reads_as Sqlite ''REAL'' (shape K_float)"
  "reads_as Sqlite ''BLOB'' (shape K_bytes)" "reads_as Sqlite ''TEXT'' (shape K_text)"
  by (rule word_reads', simp_all add: tables)+

text \<open>The types of two words.\<close>

lemma parse_double_precision:
  "parseDecl ''DOUBLE PRECISION'' = \<lparr>d_name = ''double precision'', d_args = [], d_unsigned = False, d_arrayDepth = 0\<rparr>"
  by code_simp

lemma parse_double_precision_array:
  "parseDecl ''DOUBLE PRECISION[]'' = \<lparr>d_name = ''double precision'', d_args = [], d_unsigned = False, d_arrayDepth = 1\<rparr>"
  by code_simp

lemma parse_smallint_unsigned:
  "parseDecl ''SMALLINT UNSIGNED'' = \<lparr>d_name = ''smallint'', d_args = [], d_unsigned = True, d_arrayDepth = 0\<rparr>"
  by code_simp

lemma parse_smallint_unsigned_array:
  "parseDecl ''SMALLINT UNSIGNED[]'' = \<lparr>d_name = ''smallint'', d_args = [], d_unsigned = True, d_arrayDepth = 1\<rparr>"
  by code_simp

lemma parse_int_unsigned:
  "parseDecl ''INT UNSIGNED'' = \<lparr>d_name = ''int'', d_args = [], d_unsigned = True, d_arrayDepth = 0\<rparr>"
  by code_simp

lemma parse_int_unsigned_array:
  "parseDecl ''INT UNSIGNED[]'' = \<lparr>d_name = ''int'', d_args = [], d_unsigned = True, d_arrayDepth = 1\<rparr>"
  by code_simp

lemma parse_bigint_unsigned:
  "parseDecl ''BIGINT UNSIGNED'' = \<lparr>d_name = ''bigint'', d_args = [], d_unsigned = True, d_arrayDepth = 0\<rparr>"
  by code_simp

lemma parse_bigint_unsigned_array:
  "parseDecl ''BIGINT UNSIGNED[]'' = \<lparr>d_name = ''bigint'', d_args = [], d_unsigned = True, d_arrayDepth = 1\<rparr>"
  by code_simp

lemmas two_words = parse_double_precision parse_double_precision_array parse_smallint_unsigned parse_smallint_unsigned_array parse_int_unsigned parse_int_unsigned_array parse_bigint_unsigned parse_bigint_unsigned_array

lemma two_words_trim:
  "list_all (\<lambda>s. trim s = s \<and> trim (s @ ''[]'') = s @ ''[]'')
     [''DOUBLE PRECISION'', ''SMALLINT UNSIGNED'', ''INT UNSIGNED'', ''BIGINT UNSIGNED'']"
  by code_simp

lemma two_words_read:
  "reads_as Postgres ''DOUBLE PRECISION'' (shape K_double)"
  "reads_as Mysql ''SMALLINT UNSIGNED'' (Portable K_smallint None None None True None [] None)"
  "reads_as Mysql ''INT UNSIGNED'' (Portable K_integer None None None True None [] None)"
  "reads_as Mysql ''BIGINT UNSIGNED'' (Portable K_bigint None None None True None [] None)"
  using two_words_trim by (simp_all add: reads_as_def twin_def two_words tables)

lemmas size_defs = holds.simps text_holds_def digits_hold_def range_holds_def type_range_def
  shape_def sized_def or_else_def given_def ok_type_def

lemma varchar_reads:
  assumes "whole (Some q)" and "given (Some q)" and "e = Postgres \<or> e = Mysql"
  shows "reads_as e (sized_name ''VARCHAR'' q) (sized K_varchar (Some q))"
proof -
  obtain n where n: "q = of_nat n" "n < 10 ^ 15" using whole_nat [OF assms(1)] by blast
  have "to_lower ''VARCHAR'' = ''varchar''" "list_all (\<lambda>c. \<not> ws_char c) ''VARCHAR''" by code_simp+
  then show ?thesis
    using sized_reads [OF type_words(1) _ _ n(2), of "''VARCHAR''" e varchar_rule] assms(2,3) n(1) type_lookups
    by (auto simp: varchar_rule_def given_def sized_def)
qed

lemma char_reads:
  assumes "whole (Some q)" and "e = Postgres \<or> e = Mysql"
  shows "reads_as e (sized_name ''CHAR'' q) (sized K_char (Some q))"
proof -
  obtain n where n: "q = of_nat n" "n < 10 ^ 15" using whole_nat [OF assms(1)] by blast
  have "to_lower ''CHAR'' = ''char''" "list_all (\<lambda>c. \<not> ws_char c) ''CHAR''" by code_simp+
  then show ?thesis
    using sized_reads [OF type_words(2) _ _ n(2), of "''CHAR''" e char_rule] assms(2) n(1) type_lookups
    by (auto simp: char_rule_def or_else_def sized_def)
qed

lemma digits_read:
  assumes "whole (Some p)" and "whole (Some q)"
    and "e = Postgres \<and> W = ''NUMERIC'' \<or> (e = Mysql \<or> e = Sqlite) \<and> W = ''DECIMAL''"
  shows "reads_as e (decimal_name W p q) (Portable K_decimal None (Some p) (Some q) False None [] None)"
proof -
  obtain a b where ab: "p = of_nat a" "a < 10 ^ 15" "q = of_nat b" "b < 10 ^ 15"
    using whole_nat assms(1,2) by blast
  have "to_lower ''NUMERIC'' = ''numeric''" "list_all (\<lambda>c. \<not> ws_char c) ''NUMERIC''"
    "to_lower ''DECIMAL'' = ''decimal''" "list_all (\<lambda>c. \<not> ws_char c) ''DECIMAL''" by code_simp+
  then show ?thesis
    using decimal_reads [OF type_words(3) _ _ ab(2,4), of "''NUMERIC''" Postgres]
      decimal_reads [OF type_words(4) _ _ ab(2,4), of "''DECIMAL''"] assms(3) ab(1,3) type_lookups
    by auto
qed

text \<open>The fixed modifiers.\<close>

lemma fixed_names:
  "''VARCHAR(24)'' = sized_name ''VARCHAR'' (of_nat 24)" "''CHAR(36)'' = sized_name ''CHAR'' (of_nat 36)"
  "''CHAR(24)'' = sized_name ''CHAR'' (of_nat 24)" "''NUMERIC(20,0)'' = decimal_name ''NUMERIC'' (of_nat 20) (of_nat 0)"
  "''TIME(6)'' = sized_name ''TIME'' (of_nat 6)" "''DATETIME(6)'' = sized_name ''DATETIME'' (of_nat 6)"
  "''TINYINT(1)'' = sized_name ''TINYINT'' (of_nat 1)"
proof -
  have "show_rat 24 = ''24''" "show_rat 36 = ''36''" "show_rat 20 = ''20''" "show_rat 0 = ''0''"
    "show_rat 6 = ''6''" "show_rat 1 = ''1''" by code_simp+
  then show "''VARCHAR(24)'' = sized_name ''VARCHAR'' (of_nat 24)" "''CHAR(36)'' = sized_name ''CHAR'' (of_nat 36)"
    "''CHAR(24)'' = sized_name ''CHAR'' (of_nat 24)" "''NUMERIC(20,0)'' = decimal_name ''NUMERIC'' (of_nat 20) (of_nat 0)"
    "''TIME(6)'' = sized_name ''TIME'' (of_nat 6)" "''DATETIME(6)'' = sized_name ''DATETIME'' (of_nat 6)"
    "''TINYINT(1)'' = sized_name ''TINYINT'' (of_nat 1)"
    by (simp_all add: sized_name_def decimal_name_def)
qed

lemma whole_of_nat: "n < 10 ^ 15 \<Longrightarrow> whole (Some (of_nat n))"
proof -
  assume "n < 10 ^ 15"
  then have "(of_nat n :: rat) < of_nat (10 ^ 15)" by (metis of_nat_less_iff)
  then show ?thesis by (simp add: whole_def)
qed

lemma more_words: "type_word ''time''" "type_word ''datetime''" "type_word ''tinyint''"
  "to_lower ''TIME'' = ''time''" "to_lower ''DATETIME'' = ''datetime''" "to_lower ''TINYINT'' = ''tinyint''"
  "list_all (\<lambda>c. \<not> ws_char c) ''TIME''" "list_all (\<lambda>c. \<not> ws_char c) ''DATETIME''"
  "list_all (\<lambda>c. \<not> ws_char c) ''TINYINT''"
  by code_simp+

lemma varchar_24: "reads_as Postgres ''VARCHAR(24)'' (sized K_varchar (Some 24))"
  using varchar_reads [of "of_nat 24" Postgres] whole_of_nat [of 24] unfolding fixed_names(1) by (simp add: given_def)

lemma numeric_20: "reads_as Postgres ''NUMERIC(20,0)'' (Portable K_decimal None (Some 20) (Some 0) False None [] None)"
  using digits_read [of "of_nat 20" "of_nat 0" Postgres "''NUMERIC''"] whole_of_nat [of 20] whole_of_nat [of 0]
  unfolding fixed_names(4) by simp

lemma char_36: "reads_as Mysql ''CHAR(36)'' (sized K_char (Some 36))"
  using char_reads [of "of_nat 36" Mysql] whole_of_nat [of 36] unfolding fixed_names(2) by simp

lemma char_24: "reads_as Mysql ''CHAR(24)'' (sized K_char (Some 24))"
  using char_reads [of "of_nat 24" Mysql] whole_of_nat [of 24] unfolding fixed_names(3) by simp

lemma time_6: "reads_as Mysql ''TIME(6)'' (shape K_time)"
  using sized_reads [OF more_words(1,4,7), of 6 Mysql "is_a K_time"] unfolding fixed_names(5)
  by (simp add: type_lookup_def MYSQL_def is_a_def shape_def)

lemma datetime_6: "reads_as Mysql ''DATETIME(6)'' (shape K_timestamp)"
  using sized_reads [OF more_words(2,5,8), of 6 Mysql "is_a K_timestamp"] unfolding fixed_names(6)
  by (simp add: type_lookup_def MYSQL_def is_a_def shape_def)

lemma tinyint_1: "reads_as Mysql ''TINYINT(1)'' (shape K_boolean)"
  using sized_reads [OF more_words(3,6,9), of 1 Mysql
      "\<lambda>d. if first_arg (d_args d) = Some 1 \<and> \<not> d_unsigned d then shape K_boolean else int_rule K_smallint d"]
  unfolding fixed_names(7)
  by (simp add: type_lookup_def MYSQL_def is_a_def shape_def)

lemmas reads_facts = postgres_words mysql_words sqlite_words two_words_read varchar_24 numeric_20 char_36 char_24 time_6 datetime_6 tinyint_1

definition reads_wide :: "database_engine \<Rightarrow> string \<Rightarrow> portable_type \<Rightarrow> bool" where
  "reads_wide e s t = (\<exists>t'. reads_as e s t' \<and> holds t t')"

lemma reads_wideI: "reads_as e s t' \<Longrightarrow> holds t t' \<Longrightarrow> reads_wide e s t"
  by (auto simp: reads_wide_def)

lemma whole_else: "whole x \<Longrightarrow> whole (Some (or_else x 0)) \<and> whole (Some (or_else x 1))"
  by (cases x) (auto simp: whole_def or_else_def)

text \<open>Every rendered scalar reads back as a type that holds it.\<close>

lemma postgres_scalar:
  assumes "whole_type t" and "pt_kind t \<noteq> K_array"
  shows "reads_wide Postgres (cp_type (renderPostgres t)) t"
proof (cases t)
  case (Portable k len p sc u el nat_text nt)
  have w: "whole len" "whole p" "whole sc" using assms(1) Portable by auto
  note rs = reads_facts [THEN reads_wideI]
  show ?thesis
  proof (cases k)
    case K_varchar
    then show ?thesis
      using w(1) varchar_reads [of "or_else len 0" Postgres, THEN reads_wideI] postgres_words(6) [THEN reads_wideI] Portable
      by (cases len) (auto simp: size_defs)
  next
    case K_char
    then show ?thesis
      using whole_else [OF w(1)] char_reads [of "or_else len 1" Postgres, THEN reads_wideI] Portable
      by (auto simp: size_defs)
  next
    case K_decimal
    then show ?thesis
      using w(2) whole_else [OF w(3)] digits_read [of "or_else p 0" "or_else sc 0" Postgres "''NUMERIC''", THEN reads_wideI]
        postgres_words(15) [THEN reads_wideI] Portable
      by (cases p) (auto simp: size_defs)
  qed (insert assms(2) Portable, simp_all add: size_defs rs)
qed


lemma whole_min: "whole (Some p) \<Longrightarrow> whole (Some (min p q)) \<or> q < p"
  by (cases "p \<le> q") (auto simp: min_def)

lemma mysql_decimal_reads:
  assumes "whole p" and "whole sc" and "cp_warnings (mysql_decimal p sc) = []"
  shows "\<exists>q. p = Some q \<and> reads_as Mysql (cp_type (mysql_decimal p sc))
           (Portable K_decimal None (Some q) (Some (or_else sc 0)) False None [] None)"
proof -
  obtain q where q: "p = Some q" using assms(3) by (cases p) (auto simp: mysql_decimal_def lossy_def)
  have same: "min q MYSQL_MAX_PRECISION = q" "min (or_else sc 0) MYSQL_MAX_SCALE = or_else sc 0"
    using assms(3) q by (auto simp: mysql_decimal_def lossy_def Let_def split: if_splits)
  show ?thesis
    using digits_read [of q "or_else sc 0" Mysql "''DECIMAL''"] assms(1) whole_else [OF assms(2)] q same
    by (simp add: mysql_decimal_def ok_type_def Let_def)
qed

lemma mysql_scalar:
  assumes "whole_type t" and "cp_warnings (renderMysql t isKey) = []" and "pt_kind t \<noteq> K_array"
  shows "reads_wide Mysql (cp_type (renderMysql t isKey)) t"
proof (cases t)
  case (Portable k len p sc u el nat_text nt)
  have w: "whole len" "whole p" "whole sc" using assms(1) Portable by auto
  note rs = reads_facts [THEN reads_wideI]
  note kept = assms(2) [unfolded renderMysql_def Let_def Portable portable_type.sel mysql_key_text_def lossy_def]
  show ?thesis
  proof (cases k)
    case K_varchar
    then show ?thesis
      using kept w(1) varchar_reads [of "or_else len 0" Mysql, THEN reads_wideI]
        mysql_words(6) [THEN reads_wideI] Portable
      by (cases len) (auto simp: size_defs renderMysql_def split: if_splits)
  next
    case K_char
    then show ?thesis
      using kept whole_else [OF w(1)] char_reads [of "or_else len 1" Mysql, THEN reads_wideI]
        mysql_words(6) [THEN reads_wideI] Portable
      by (auto simp: size_defs renderMysql_def split: if_splits)
  next
    case K_decimal
    have plan: "renderMysql t isKey = mysql_decimal p sc" using K_decimal Portable by (simp add: renderMysql_def)
    obtain q where "p = Some q" "reads_as Mysql (cp_type (mysql_decimal p sc))
        (Portable K_decimal None (Some q) (Some (or_else sc 0)) False None [] None)"
      using mysql_decimal_reads [OF w(2,3)] assms(2) unfolding plan by blast
    then show ?thesis unfolding plan
      by (intro reads_wideI) (auto simp: Portable K_decimal size_defs)
  qed (insert assms(3) kept Portable, auto simp: size_defs renderMysql_def rs split: if_splits)
qed

lemma sqlite_scalar:
  assumes "whole_type t" and "cp_warnings (renderSqlite t) = []" and "pt_kind t \<noteq> K_double"
  shows "reads_wide Sqlite (cp_type (renderSqlite t)) t"
proof (cases t)
  case (Portable k len p sc u el nat_text nt)
  have w: "whole p" "whole sc" using assms(1) Portable by auto
  note rs = sqlite_words [THEN reads_wideI]
  note kept = assms(2) [unfolded renderSqlite_def Portable portable_type.sel lossy_def]
  show ?thesis
  proof (cases k)
    case K_decimal
    then obtain q where q: "p = Some q" "q \<le> SQLITE_EXACT_DIGITS"
      using kept by (auto split: option.splits if_splits)
    then show ?thesis
      using w(1) whole_else [OF w(2)] digits_read [of q "or_else sc 0" Sqlite "''DECIMAL''", THEN reads_wideI]
        K_decimal Portable
      by (auto simp: size_defs renderSqlite_def)
  qed (insert assms(3) kept Portable rs, auto simp: size_defs renderSqlite_def split: if_splits)
qed

text \<open>
  C24: What the module promises of a silent translation: a column type rendered for
  PostgreSQL, MySQL or SQLite without a warning is read back, in that engine, as a type that
  has room for every value of the source's type (integer ranges, digits before and after the
  point, text lengths, array elements). The one exception is a double rendered for SQLite,
  whose \<^verbatim>\<open>REAL\<close> the module itself reads as single precision.
\<close>

theorem silent_translation_holds_the_source:
  assumes "target \<in> {Postgres, Mysql, Sqlite}" and "whole_type t"
    and "cp_warnings (render_for target t isKey) = []"
    and "\<not> (target = Sqlite \<and> pt_kind t = K_double)"
  shows "holds t (parseColumnType (Some (cp_type (render_for target t isKey))) (Some target))"
proof -
  have wide: "reads_wide target s t \<Longrightarrow> holds t (parseColumnType (Some s) (Some target))" for s
    by (auto simp: reads_wide_def parse_reads)
  show ?thesis
  proof (cases "pt_kind t = K_array")
    case False
    then show ?thesis
      using assms postgres_scalar [OF assms(2) False] mysql_scalar [OF assms(2) _ False] sqlite_scalar [OF assms(2)]
      by (auto simp: render_for_def intro!: wide)
  next
    case True
    obtain len p sc u el nat_text nt where t: "t = Portable K_array len p sc u el nat_text nt"
      using True by (cases t) auto
    consider "target = Sqlite" | "target = Mysql" | "target = Postgres" "el = None"
      | e where "target = Postgres" "el = Some e" using assms(1) by (cases el) auto
    then show ?thesis
    proof cases
      case 1
      then show ?thesis using sqlite_words(4) by (auto simp: render_for_def renderSqlite_def t ok_type_def parse_reads shape_def)
    next
      case 2
      then show ?thesis using mysql_words(9) assms(3)
        by (auto simp: render_for_def renderMysql_def t ok_type_def lossy_def parse_reads shape_def split: if_splits)
    next
      case 3
      then show ?thesis using postgres_words(13) by (auto simp: render_for_def t ok_type_def parse_reads shape_def)
    next
      case 4
      then obtain t' where "reads_as Postgres (cp_type (renderPostgres e)) t'" "holds e t'"
        using postgres_scalar [of e] assms(2) by (auto simp: t reads_wide_def)
      then show ?thesis using 4 by (simp add: render_for_def t parse_array Let_def)
    qed
  qed
qed

lemma silent_translation_holds_the_source_witness:
  "holds (parseColumnType (Some ''varchar(40)'') (Some Postgres))
     (parseColumnType (Some (cp_type (render_for Mysql (parseColumnType (Some ''varchar(40)'') (Some Postgres)) True))) (Some Mysql))"
proof (rule silent_translation_holds_the_source)
  show "whole_type (parseColumnType (Some ''varchar(40)'') (Some Postgres))" by code_simp
  show "cp_warnings (render_for Mysql (parseColumnType (Some ''varchar(40)'') (Some Postgres)) True) = []" by code_simp
qed simp_all

text \<open>
  A \<^verbatim>\<open>REAL\<close> column of SQLite, eight bytes wide, is translated to
  PostgreSQL's and MySQL's single-precision types without a warning, while a
  \<^verbatim>\<open>FLOAT\<close> column of SQLite, the same storage, gets a double.
\<close>

theorem sqlite_real_becomes_single_precision:
  "translateColumnType (Some ''REAL'') (Some Sqlite) Postgres False = ok_type ''REAL'' \<and>
   translateColumnType (Some ''REAL'') (Some Sqlite) Mysql False = ok_type ''FLOAT'' \<and>
   translateColumnType (Some ''FLOAT'') (Some Sqlite) Postgres False = ok_type ''DOUBLE PRECISION''"
proof -
  have "parseColumnType (Some ''REAL'') (Some Sqlite) = with_native ''REAL'' (shape K_float)"
    by (rule parse_reads) (rule sqlite_words(2))
  moreover have "parseColumnType (Some ''FLOAT'') (Some Sqlite) = with_native ''FLOAT'' (shape K_double)"
    by (rule parse_reads) (rule word_reads', simp_all add: tables)
  ultimately show ?thesis
    by (simp add: translateColumnType_def Let_def shape_def render_for_def renderMysql_def ok_type_def)
qed

end
