(* ===== verification/Row_Compare.thy ===== *)
theory Row_Compare
  imports Column_Transforms Redis_Target Filter_Match Type_Map "HOL-Library.List_Lexorder" "HOL-Library.Char_ord"
begin

text \<open>
  Is the row in the destination the row the source has:
  \<^verbatim>\<open>packages/core/src/bridges/row-compare.ts\<close>. Values are compared by the source
  column's kind after both readings are brought to one spelling. A \<open>cell\<close> is a value, or the
  \<^verbatim>\<open>JsonColumnValue\<close> wrapper around one. A comparison that throws (the canonical
  JSON of an invalid date) is \<open>None\<close>.
\<close>

section \<open>Cells and bytes\<close>

datatype cell = Plain_cell jsval | Json_cell jsval

fun unwrap :: "cell \<Rightarrow> jsval" where
  "unwrap (Plain_cell v) = v"
| "unwrap (Json_cell v) = v"

datatype compare_kind = Known portable_kind | Unknown_kind

fun bytesOf :: "jsval \<Rightarrow> nat list option" where
  "bytesOf (JBytes bs) = Some bs"
| "bytesOf (JObj fs) = buffer_fields fs"
| "bytesOf _ = None"

section \<open>Numbers\<close>

definition drop_leading_zeros :: "string \<Rightarrow> string" where
  "drop_leading_zeros s =
     (let t = dropWhile (\<lambda>c. c = CHR ''0'') s in if t = [] \<and> s \<noteq> [] then ''0'' else t)"

text \<open>\<^verbatim>\<open>/^([+-]?)(\d*)(?:\.(\d*))?$/\<close>: the sign, the digits before and after the point.\<close>

definition decimal_parts :: "string \<Rightarrow> (bool \<times> string \<times> string) option" where
  "decimal_parts s =
     (let signed = (case s of c # _ \<Rightarrow> c = CHR ''-'' \<or> c = CHR ''+'' | [] \<Rightarrow> False);
          body = (if signed then tl s else s);
          w = takeWhile is_digit body; r = drop (length w) body;
          f = (case r of [] \<Rightarrow> [] | _ # t \<Rightarrow> t)
      in if (r = [] \<or> hd r = CHR ''.'') \<and> list_all is_digit f \<and> (w \<noteq> [] \<or> f \<noteq> [])
         then Some (signed \<and> hd s = CHR ''-'', w, f) else None)"

definition decimal_of_text :: "string \<Rightarrow> string option" where
  "decimal_of_text s =
     (case decimal_parts s of
        None \<Rightarrow> None
      | Some (neg, w, f) \<Rightarrow>
          (let whole = (if w = [] then ''0'' else drop_leading_zeros w); fraction = strip_zeros f;
               magnitude = (if fraction = [] then whole else whole @ ''.'' @ fraction)
           in Some (if neg \<and> magnitude \<noteq> ''0'' then CHR ''-'' # magnitude else magnitude)))"

fun decimalText :: "jsval \<Rightarrow> string option" where
  "decimalText (JBigInt i) = decimal_of_text (show_int i)"
| "decimalText (JNum n) = (if is_finite n then decimal_of_text (js_string_of_num n) else None)"
| "decimalText (JStr s) = decimal_of_text (trim s)"
| "decimalText _ = None"

fun numberOf :: "jsval \<Rightarrow> jsnum option" where
  "numberOf (JNum n) = Some n"
| "numberOf (JBigInt i) = Some (round64 (of_int i))"
| "numberOf (JStr s) =
     (let t = to_lower (trim s)
      in if trim s = [] then None
         else if t = ''nan'' then Some NaN
         else if t \<in> set [''infinity'', ''+infinity'', ''inf''] then Some PosInf
         else if t \<in> set [''-infinity'', ''-inf''] then Some NegInf
         else (let n = js_number_of_string t in if n = NaN then None else Some n))"
| "numberOf _ = None"

text \<open>\<^verbatim>\<open>Math.abs(x - y) <= Math.max(Math.abs(x), Math.abs(y)) * 10 ** -digits\<close>\<close>

definition num_le :: "jsnum \<Rightarrow> jsnum \<Rightarrow> bool" where
  "num_le a b = (num_less a b \<or> num_eq a b)"

fun num_abs :: "jsnum \<Rightarrow> jsnum" where
  "num_abs (Num q) = Num \<bar>q\<bar>"
| "num_abs NegInf = PosInf"
| "num_abs n = n"

fun finite_close :: "rat \<Rightarrow> rat \<Rightarrow> nat \<Rightarrow> bool" where
  "finite_close x y digits =
     num_le (num_abs (round64 (x - y)))
       (case round64 (1 / 10 ^ digits) of Num e \<Rightarrow> round64 (max \<bar>x\<bar> \<bar>y\<bar> * e) | n \<Rightarrow> n)"

fun close_numbers :: "jsnum \<Rightarrow> jsnum \<Rightarrow> nat \<Rightarrow> bool" where
  "close_numbers (Num x) (Num y) digits = (x = y \<or> finite_close x y digits)"
| "close_numbers NaN NaN digits = True"
| "close_numbers x y digits = num_eq x y"

definition sameFloat :: "jsval \<Rightarrow> jsval \<Rightarrow> nat \<Rightarrow> bool option" where
  "sameFloat a b digits =
     (case (numberOf a, numberOf b) of
        (Some x, Some y) \<Rightarrow> Some (close_numbers x y digits)
      | _ \<Rightarrow> None)"

section \<open>Booleans\<close>

definition TRUE_WORDS :: "string list" where
  "TRUE_WORDS = [''1'', ''t'', ''true'', ''y'', ''yes'', ''on'']"

definition FALSE_WORDS :: "string list" where
  "FALSE_WORDS = [''0'', ''f'', ''false'', ''n'', ''no'', ''off'']"

definition booleanOf :: "jsval \<Rightarrow> bool option" where
  "booleanOf v =
     (case v of
        JBool b \<Rightarrow> Some b
      | JNum n \<Rightarrow> if n = Num 1 then Some True else if n = Num 0 then Some False else None
      | JBigInt i \<Rightarrow> if i = 1 then Some True else if i = 0 then Some False else None
      | JStr s \<Rightarrow>
          (let t = to_lower (trim s)
           in if t \<in> set TRUE_WORDS then Some True else if t \<in> set FALSE_WORDS then Some False else None)
      | _ \<Rightarrow>
          (case bytesOf v of
             Some [b] \<Rightarrow> if b = 1 then Some True else if b = 0 then Some False else None
           | _ \<Rightarrow> None))"

section \<open>Time\<close>

text \<open>
  \<open>STAMP\<close>: a date of at least four year digits, perhaps a time to at most nine decimals of a
  second, perhaps blanks and a zone. \<^verbatim>\<open>2-digit\<close> fields are read one after another.
\<close>

definition digits_at :: "nat \<Rightarrow> string \<Rightarrow> (string \<times> string) option" where
  "digits_at n s =
     (let d = take n s in if length d = n \<and> list_all is_digit d then Some (d, drop n s) else None)"

definition after_char :: "char \<Rightarrow> string \<Rightarrow> string option" where
  "after_char c s = (case s of d # t \<Rightarrow> if c = d then Some t else None | [] \<Rightarrow> None)"

definition field_after :: "char \<Rightarrow> string \<Rightarrow> (string \<times> string) option" where
  "field_after c s = (case after_char c s of None \<Rightarrow> None | Some t \<Rightarrow> digits_at 2 t)"

text \<open>\<^verbatim>\<open>(?::(\d\d)(?:\.(\d{1,9}))?)?\<close>\<close>

definition stamp_seconds :: "string \<Rightarrow> (string \<times> string) \<times> string" where
  "stamp_seconds s =
     (case field_after (CHR '':'') s of
        None \<Rightarrow> (([], []), s)
      | Some (sec, r) \<Rightarrow>
          (case after_char (CHR ''.'') r of
             None \<Rightarrow> ((sec, []), r)
           | Some t \<Rightarrow>
               (let f = take 9 (takeWhile is_digit t)
                in if f = [] then ((sec, []), r) else ((sec, f), drop (length f) t))))"

definition stamp_time :: "string \<Rightarrow> (string \<times> string \<times> string \<times> string) \<times> string" where
  "stamp_time s =
     (let none = (([], [], [], []), s)
      in case s of
           [] \<Rightarrow> none
         | c # t \<Rightarrow>
             if c \<in> set ''  Tt'' then
               (case digits_at 2 t of
                  None \<Rightarrow> none
                | Some (h, r) \<Rightarrow>
                    (case field_after (CHR '':'') r of
                       None \<Rightarrow> none
                     | Some (mi, r2) \<Rightarrow> (let ((sec, f), r3) = stamp_seconds r2 in ((h, mi, sec, f), r3))))
             else none)"

text \<open>\<^verbatim>\<open>\s*(Z|[+-]\d\d(?::?\d\d)?)?$\<close>: the zone, if the rest is one.\<close>

definition zone_text :: "string \<Rightarrow> bool" where
  "zone_text z =
     (z = [] \<or> z = ''Z'' \<or> z = ''z'' \<or>
      (case z of
         c # r \<Rightarrow> (c = CHR ''+'' \<or> c = CHR ''-'') \<and>
           (case digits_at 2 r of
              None \<Rightarrow> False
            | Some (_, []) \<Rightarrow> True
            | Some (_, t) \<Rightarrow>
                (case digits_at 2 (case after_char (CHR '':'') t of Some u \<Rightarrow> u | None \<Rightarrow> t) of
                   Some (_, []) \<Rightarrow> True | _ \<Rightarrow> False))
       | [] \<Rightarrow> False))"

record stamp =
  sp_year :: string
  sp_month :: string
  sp_day :: string
  sp_hour :: string
  sp_minute :: string
  sp_second :: string
  sp_fraction :: string
  sp_zone :: string

definition STAMP :: "string \<Rightarrow> stamp option" where
  "STAMP s =
     (let y = takeWhile is_digit s; r = drop (length y) s
      in if length y < 4 then None
         else
           (case field_after (CHR ''-'') r of
              None \<Rightarrow> None
            | Some (mo, r1) \<Rightarrow>
                (case field_after (CHR ''-'') r1 of
                   None \<Rightarrow> None
                 | Some (d, r2) \<Rightarrow>
                     (let ((h, mi, sec, f), r3) = stamp_time r2; z = dropWhile ws_char r3
                      in if zone_text z then
                           Some \<lparr>sp_year = y, sp_month = mo, sp_day = d, sp_hour = h, sp_minute = mi,
                                 sp_second = sec, sp_fraction = f, sp_zone = z\<rparr>
                         else None))))"

record moment =
  mo_seconds :: int
  mo_fraction :: string
  mo_millisOnly :: bool

definition num_text :: "string \<Rightarrow> int" where
  "num_text s = int (read_digits 0 s)"

text \<open>
  \<^verbatim>\<open>Date.UTC\<close>: months and days may overflow into the next; years 0 to 99 mean
  1900 and later; beyond the range of dates it is NaN.
\<close>

definition date_utc :: "int \<Rightarrow> int \<Rightarrow> int \<Rightarrow> int \<Rightarrow> int \<Rightarrow> int \<Rightarrow> int option" where
  "date_utc y0 mon d h mi s =
     (let y1 = (if 0 \<le> y0 \<and> y0 \<le> 99 then 1900 + y0 else y0);
          y = y1 + mon div 12; m = mon mod 12 + 1;
          ms = (days_from_civil y m 1 + d - 1) * 86400000 + h * 3600000 + mi * 60000 + s * 1000
      in if \<bar>ms\<bar> \<le> 8640000000000000 then Some ms else None)"

definition zone_minutes :: "string \<Rightarrow> int" where
  "zone_minutes z =
     (if z = [] \<or> to_upper z = ''Z'' then 0
      else
        (let h = take 2 (tl z); r = drop 3 z; m = (case after_char (CHR '':'') r of Some u \<Rightarrow> u | None \<Rightarrow> r);
             n = num_text h * 60 + num_text m
         in if hd z = CHR ''-'' then - n else n))"

definition moment_of_text :: "string \<Rightarrow> moment option" where
  "moment_of_text s =
     (case STAMP (trim s) of
        None \<Rightarrow> None
      | Some p \<Rightarrow>
          map_option (\<lambda>ms. \<lparr>mo_seconds = ms - zone_minutes (sp_zone p) * 60000,
                            mo_fraction = strip_zeros (sp_fraction p), mo_millisOnly = False\<rparr>)
            (date_utc (num_text (sp_year p)) (num_text (sp_month p) - 1) (num_text (sp_day p))
               (num_text (sp_hour p)) (num_text (sp_minute p)) (num_text (sp_second p))))"

fun momentOf :: "jsval \<Rightarrow> moment option" where
  "momentOf (JDate (Some ms)) =
     (let w = ms div 1000 * 1000
      in Some \<lparr>mo_seconds = w, mo_fraction = strip_zeros (pad_left 3 (show_int (ms - w))), mo_millisOnly = True\<rparr>)"
| "momentOf (JStr s) = moment_of_text s"
| "momentOf _ = None"

definition millis_fraction :: "moment \<Rightarrow> string" where
  "millis_fraction m = strip_zeros (take 3 (mo_fraction m))"

definition sameMoment :: "jsval \<Rightarrow> jsval \<Rightarrow> bool option" where
  "sameMoment a b =
     (case (momentOf a, momentOf b) of
        (Some x, Some y) \<Rightarrow>
          Some (mo_seconds x = mo_seconds y \<and>
                (if mo_millisOnly x \<or> mo_millisOnly y then millis_fraction x = millis_fraction y
                 else mo_fraction x = mo_fraction y))
      | _ \<Rightarrow> None)"

definition time_of_text :: "string \<Rightarrow> string option" where
  "time_of_text s =
     (case digits_at 2 s of
        None \<Rightarrow> None
      | Some (h, r) \<Rightarrow>
          (case field_after (CHR '':'') r of
             None \<Rightarrow> None
           | Some (mi, r2) \<Rightarrow>
               (let ((sec, f), r3) = stamp_seconds r2; fraction = strip_zeros f
                in if r3 \<noteq> [] then None
                   else Some (h @ '':'' @ mi @ '':'' @ (if sec = [] then ''00'' else sec) @
                     (if fraction = [] then [] else CHR ''.'' # fraction)))))"

fun timeText :: "jsval \<Rightarrow> string option" where
  "timeText (JStr s) = time_of_text (trim s)"
| "timeText _ = None"

fun dateText :: "jsval \<Rightarrow> string option" where
  "dateText (JDate d) = map_option (\<lambda>ms. take 10 (to_iso_string ms)) d"
| "dateText (JStr s) =
     map_option (\<lambda>p. sp_year p @ ''-'' @ sp_month p @ ''-'' @ sp_day p) (STAMP (trim s))"
| "dateText _ = None"

section \<open>Structure\<close>

definition looks_like_json :: "string \<Rightarrow> bool" where
  "looks_like_json t =
     (case t of
        [] \<Rightarrow> False
      | c # r \<Rightarrow>
          of_char c = (34::nat) \<or> c = CHR ''['' \<or> c = CHR ''{'' \<or> is_digit c \<or>
          (c = CHR ''-'' \<and> r \<noteq> [] \<and> is_digit (hd r)) \<or>
          starts_with t ''true'' \<or> starts_with t ''false'' \<or> starts_with t ''null'')"

text \<open>\<^verbatim>\<open>order\<close>: keys sorted, dates as text, bigints as digits, bytes as hex.\<close>

fun json_order :: "jsval \<Rightarrow> jsval option"
  and json_order_items :: "jsval list \<Rightarrow> jsval list option"
  and json_order_fields :: "(string \<times> jsval) list \<Rightarrow> (string \<times> jsval) list option" where
  "json_order (JArr vs) = map_option JArr (json_order_items vs)"
| "json_order (JDate d) = map_option (\<lambda>ms. JStr (to_iso_string ms)) d"
| "json_order (JBigInt i) = Some (JStr (show_int i))"
| "json_order (JBytes bs) = Some (JStr ([char_of (92::nat), CHR ''x''] @ hex_bytes bs))"
| "json_order (JObj fs) =
     (case buffer_fields fs of
        Some bs \<Rightarrow> Some (JStr ([char_of (92::nat), CHR ''x''] @ hex_bytes bs))
      | None \<Rightarrow> map_option (\<lambda>es. JObj (obj_of_entries (sort_key fst es))) (json_order_fields fs))"
| "json_order v = Some v"
| "json_order_items [] = Some []"
| "json_order_items (v # vs) =
     (case (json_order v, json_order_items vs) of (Some w, Some ws) \<Rightarrow> Some (w # ws) | _ \<Rightarrow> None)"
| "json_order_fields [] = Some []"
| "json_order_fields ((k, v) # fs) =
     (case (json_order v, json_order_fields fs) of (Some w, Some ws) \<Rightarrow> Some ((k, w) # ws) | _ \<Rightarrow> None)"

definition canonicalJson :: "jsval \<Rightarrow> bool \<Rightarrow> string option" where
  "canonicalJson v parseText =
     (let parsed = (case v of
                      JStr s \<Rightarrow>
                        if parseText \<and> looks_like_json (trim s)
                        then (case json_parse (trim s) of None \<Rightarrow> v | Some w \<Rightarrow> w) else v
                    | _ \<Rightarrow> v)
      in case json_order parsed of
           None \<Rightarrow> None
         | Some w \<Rightarrow> Some (case js_stringify w of JText t \<Rightarrow> t | _ \<Rightarrow> ''undefined''))"

definition sameJson :: "jsval \<Rightarrow> jsval \<Rightarrow> bool option" where
  "sameJson a b =
     (case (canonicalJson a True, canonicalJson a False, canonicalJson b True, canonicalJson b False) of
        (Some a1, Some a2, Some b1, Some b2) \<Rightarrow> Some (b1 \<in> {a1, a2} \<or> b2 \<in> {a1, a2})
      | _ \<Rightarrow> None)"

section \<open>The comparison\<close>

fun is_bool :: "jsval \<Rightarrow> bool" where
  "is_bool (JBool _) = True"
| "is_bool _ = False"

fun is_numeric :: "jsval \<Rightarrow> bool" where
  "is_numeric (JNum _) = True"
| "is_numeric (JBigInt _) = True"
| "is_numeric _ = False"

text \<open>The first answer there is, or the last resort.\<close>

definition first_of :: "'a option \<Rightarrow> 'a option \<Rightarrow> 'a option" where
  "first_of x y = (case x of None \<Rightarrow> y | Some a \<Rightarrow> Some a)"

definition both :: "'a option \<Rightarrow> 'a option \<Rightarrow> bool option" where
  "both x y = (case (x, y) of (Some a, Some b) \<Rightarrow> Some (a = b) | _ \<Rightarrow> None)"

definition sameUnknown :: "host \<Rightarrow> jsval \<Rightarrow> jsval \<Rightarrow> bool option" where
  "sameUnknown h a b =
     first_of (if is_bool a \<or> is_bool b then both (booleanOf a) (booleanOf b) else None)
     (first_of (if is_date a \<or> is_date b then sameMoment a b else None)
       (if bytesOf a \<noteq> None \<or> bytesOf b \<noteq> None
        then Some (bytesOf a \<noteq> None \<and> bytesOf b \<noteq> None \<and>
                   hex_bytes (the (bytesOf a)) = hex_bytes (the (bytesOf b)))
        else
          first_of
            (if is_numeric a \<or> is_numeric b
             then first_of (both (decimalText a) (decimalText b)) (sameFloat a b 12) else None)
            (if is_object a \<or> is_object b then sameJson a b
             else Some (js_string h a = js_string h b))))"

definition sameValue :: "host \<Rightarrow> compare_kind \<Rightarrow> cell \<Rightarrow> cell \<Rightarrow> bool option" where
  "sameValue h kind expected actual =
     (let a = unwrap expected; b = unwrap actual; unknown = sameUnknown h a b;
          text = (if is_object a \<or> is_object b then unknown else Some (js_string h a = js_string h b));
          exact = first_of (both (decimalText a) (decimalText b)) (first_of (sameFloat a b 15) unknown)
      in if is_nil a \<or> is_nil b then Some (is_nil a \<and> is_nil b)
         else
           (case kind of
              Unknown_kind \<Rightarrow> unknown
            | Known k \<Rightarrow>
                (case k of
                   K_boolean \<Rightarrow> first_of (both (booleanOf a) (booleanOf b)) unknown
                 | K_smallint \<Rightarrow> exact
                 | K_integer \<Rightarrow> exact
                 | K_bigint \<Rightarrow> exact
                 | K_decimal \<Rightarrow> exact
                 | K_float \<Rightarrow> first_of (sameFloat a b 6) unknown
                 | K_double \<Rightarrow> first_of (sameFloat a b 14) unknown
                 | K_timestamp \<Rightarrow> first_of (sameMoment a b) unknown
                 | K_timestamptz \<Rightarrow> first_of (sameMoment a b) unknown
                 | K_date \<Rightarrow> first_of (both (dateText a) (dateText b)) unknown
                 | K_time \<Rightarrow> first_of (both (timeText a) (timeText b)) unknown
                 | K_json \<Rightarrow> sameJson a b
                 | K_array \<Rightarrow> sameJson a b
                 | K_bytes \<Rightarrow> first_of (both (map_option hex_bytes (bytesOf a)) (map_option hex_bytes (bytesOf b))) unknown
                 | K_uuid \<Rightarrow> Some (to_lower (js_string h a) = to_lower (js_string h b))
                 | K_char \<Rightarrow> Some (trim_end (js_string h a) = trim_end (js_string h b))
                 | _ \<Rightarrow> text)))"

definition NUMERIC :: "compare_kind list" where
  "NUMERIC = map Known [K_smallint, K_integer, K_bigint, K_decimal, K_float, K_double]"

section \<open>Keys\<close>

text \<open>\<^verbatim>\<open>%\<close> keeps the sign of its left operand.\<close>

definition js_mod :: "int \<Rightarrow> int \<Rightarrow> int" where
  "js_mod a b = (if 0 \<le> a then a mod b else - ((- a) mod b))"

definition prefixed :: "string \<Rightarrow> string option \<Rightarrow> jsval option" where
  "prefixed p = map_option (\<lambda>t. JStr (p @ t))"

definition bool_key :: "bool \<Rightarrow> string" where
  "bool_key b = (if b then ''1'' else ''0'')"

definition moment_key :: "moment \<Rightarrow> string" where
  "moment_key m = show_int (mo_seconds m) @ ''.'' @ mo_fraction m"

definition unknown_key :: "jsval \<Rightarrow> jsval option" where
  "unknown_key v =
     (case v of
        JStr s \<Rightarrow> if decimalText v = Some s then Some (JStr (''n:'' @ s)) else None
      | JBool b \<Rightarrow> Some (JStr (''n:'' @ bool_key b))
      | JNum _ \<Rightarrow> prefixed ''n:'' (decimalText v)
      | JBigInt _ \<Rightarrow> prefixed ''n:'' (decimalText v)
      | _ \<Rightarrow> None)"

definition key_by_kind :: "host \<Rightarrow> compare_kind \<Rightarrow> jsval \<Rightarrow> jsval option" where
  "key_by_kind h kind v =
     (if kind \<in> set NUMERIC then prefixed ''n:'' (decimalText v)
      else if kind = Known K_boolean then prefixed ''n:'' (map_option bool_key (booleanOf v))
      else if kind = Known K_uuid then Some (JStr (''s:'' @ to_lower (js_string h v)))
      else if kind = Known K_char then Some (JStr (''s:'' @ trim_end (js_string h v)))
      else if kind = Known K_timestamp \<or> kind = Known K_timestamptz
        then prefixed ''t:'' (map_option moment_key (momentOf v))
      else if kind = Known K_date then prefixed ''d:'' (dateText v)
      else if kind = Unknown_kind then unknown_key v
      else None)"

text \<open>What a value without a reading of its kind is spelled as; \<open>None\<close>: it throws.\<close>

definition key_by_value :: "host \<Rightarrow> jsval \<Rightarrow> jsval option" where
  "key_by_value h v =
     (case v of
        JDate None \<Rightarrow> Some (JStr ''t:NaN.NaN'')
      | JDate (Some ms) \<Rightarrow>
          Some (JStr (''t:'' @ show_int (ms div 1000 * 1000) @ ''.'' @
                      strip_zeros (pad_left 3 (show_int (js_mod ms 1000)))))
      | _ \<Rightarrow>
          (case bytesOf v of
             Some bs \<Rightarrow> Some (JStr (''x:'' @ hex_bytes bs))
           | None \<Rightarrow>
               if is_object v then prefixed ''j:'' (canonicalJson v False)
               else Some (JStr (''s:'' @ js_string h v))))"

definition key_part_text :: "host \<Rightarrow> compare_kind \<Rightarrow> jsval \<Rightarrow> jsval option" where
  "key_part_text h kind v =
     (if is_nil v then Some JNull else first_of (key_by_kind h kind v) (key_by_value h v))"

fun key_parts :: "host \<Rightarrow> cell list \<Rightarrow> compare_kind list \<Rightarrow> jsval list option" where
  "key_parts h [] kinds = Some []"
| "key_parts h (c # cs) kinds =
     (case (key_part_text h (case kinds of [] \<Rightarrow> Unknown_kind | k # _ \<Rightarrow> k) (unwrap c), key_parts h cs (drop 1 kinds)) of
        (Some t, Some ts) \<Rightarrow> Some (t # ts)
      | _ \<Rightarrow> None)"

definition keyText :: "host \<Rightarrow> cell list \<Rightarrow> compare_kind list \<Rightarrow> string option" where
  "keyText h vs kinds =
     (case key_parts h vs kinds of
        None \<Rightarrow> None
      | Some ts \<Rightarrow> (case js_stringify (JArr ts) of JText t \<Rightarrow> Some t | _ \<Rightarrow> None))"

section \<open>Rows\<close>

record column_difference =
  cd_column :: string
  cd_expected :: jsval
  cd_actual :: jsval

type_synonym cell_row = "(string \<times> cell) list"

definition kind_of :: "(string \<rightharpoonup> compare_kind) \<Rightarrow> string \<Rightarrow> compare_kind" where
  "kind_of kinds c = (case kinds c of None \<Rightarrow> Unknown_kind | Some k \<Rightarrow> k)"

fun diffRow :: "host \<Rightarrow> cell_row \<Rightarrow> row \<Rightarrow> (string \<rightharpoonup> compare_kind) \<Rightarrow> column_difference list option" where
  "diffRow h [] actual kinds = Some []"
| "diffRow h ((c, v) # rest) actual kinds =
     (if v = Plain_cell JUnchanged then diffRow h rest actual kinds
      else
        (case (sameValue h (kind_of kinds c) v (Plain_cell (row_get actual c)), diffRow h rest actual kinds) of
           (Some same, Some ds) \<Rightarrow>
             Some (if same then ds
                   else \<lparr>cd_column = c, cd_expected = unwrap v, cd_actual = row_get actual c\<rparr> # ds)
         | _ \<Rightarrow> None))"

text \<open>\<^verbatim>\<open>/\{\{\s*\$now\s*\}\}/\<close> and the columns computed from it.\<close>

definition usesNow :: "string \<Rightarrow> bool" where
  "usesNow t = (''$now'' \<in> set (token_names t))"

fun volatile_from :: "string list \<Rightarrow> column_transform list \<Rightarrow> string list" where
  "volatile_from vs [] = vs"
| "volatile_from vs (Set_step c t # steps) =
     (if usesNow t \<or> list_ex (\<lambda>n. n \<in> set vs) (templateColumns (Some t))
      then volatile_from (if c \<in> set vs then vs else vs @ [c]) steps
      else volatile_from (filter (\<lambda>x. x \<noteq> c) vs) steps)"
| "volatile_from vs (_ # steps) = volatile_from vs steps"

definition volatileColumns :: "column_transform list option \<Rightarrow> string list" where
  "volatileColumns ts = (case ts of None \<Rightarrow> [] | Some steps \<Rightarrow> volatile_from [] steps)"

definition plain_reader :: host where
  "plain_reader = \<lparr>date_parse = (\<lambda>_. None), date_text = (\<lambda>_. []), utf8_text = (\<lambda>_. [])\<rparr>"

section \<open>The comparison does not mind which side is which\<close>

lemma num_eq_sym: "num_eq a b = num_eq b a"
  by (auto simp: num_eq_iff)

lemma round64_neg: "num_abs (round64 (- q)) = num_abs (round64 q)"
  by (simp add: round64_def Let_def)

lemma finite_close_sym: "finite_close x y d = finite_close y x d"
  using round64_neg [of "x - y"] by (cases "round64 (1 / 10 ^ d)") (simp_all add: max.commute)

lemma close_numbers_sym: "close_numbers a b d = close_numbers b a d"
  by (cases a; cases b) (auto simp: finite_close_sym simp del: finite_close.simps)

lemma sameFloat_sym: "sameFloat a b d = sameFloat b a d"
  by (auto simp: sameFloat_def close_numbers_sym split: option.split)

lemma sameMoment_sym: "sameMoment a b = sameMoment b a"
  by (auto simp: sameMoment_def split: option.split)

lemma both_sym: "both x y = both y x"
  by (auto simp: both_def split: option.split)

lemma sameJson_sym: "sameJson a b = sameJson b a"
  by (auto simp: sameJson_def split: option.split)

lemma sameUnknown_sym: "sameUnknown h a b = sameUnknown h b a"
proof -
  have "Some (bytesOf a \<noteq> None \<and> bytesOf b \<noteq> None \<and> hex_bytes (the (bytesOf a)) = hex_bytes (the (bytesOf b))) =
      Some (bytesOf b \<noteq> None \<and> bytesOf a \<noteq> None \<and> hex_bytes (the (bytesOf b)) = hex_bytes (the (bytesOf a)))" by auto
  moreover have "Some (js_string h a = js_string h b) = Some (js_string h b = js_string h a)" by auto
  moreover have "(is_bool a \<or> is_bool b) = (is_bool b \<or> is_bool a)" "(is_date a \<or> is_date b) = (is_date b \<or> is_date a)"
    "(bytesOf a \<noteq> None \<or> bytesOf b \<noteq> None) = (bytesOf b \<noteq> None \<or> bytesOf a \<noteq> None)"
    "(is_numeric a \<or> is_numeric b) = (is_numeric b \<or> is_numeric a)"
    "(is_object a \<or> is_object b) = (is_object b \<or> is_object a)" by auto
  ultimately show ?thesis
    unfolding sameUnknown_def by (simp only: both_sym [of "booleanOf a"] both_sym [of "decimalText a"]
        sameMoment_sym [of a] sameFloat_sym [of a] sameJson_sym [of a])
qed

text \<open>
  C31: The comparison of a source's value with a destination's gives the same verdict with the
  sides exchanged, for every kind of column and every pair of values the drivers can hand
  over: whether it is a match, a difference, or a comparison that throws.
\<close>

theorem sameValue_symmetric: "sameValue h kind x y = sameValue h kind y x"
proof -
  let ?a = "unwrap x" and ?b = "unwrap y"
  have flips: "(is_nil ?a \<or> is_nil ?b) = (is_nil ?b \<or> is_nil ?a)" "(is_nil ?a \<and> is_nil ?b) = (is_nil ?b \<and> is_nil ?a)"
    "(is_object ?a \<or> is_object ?b) = (is_object ?b \<or> is_object ?a)"
    "Some (js_string h ?a = js_string h ?b) = Some (js_string h ?b = js_string h ?a)"
    "Some (to_lower (js_string h ?a) = to_lower (js_string h ?b)) = Some (to_lower (js_string h ?b) = to_lower (js_string h ?a))"
    "Some (trim_end (js_string h ?a) = trim_end (js_string h ?b)) = Some (trim_end (js_string h ?b) = trim_end (js_string h ?a))"
    by auto
  show ?thesis
    unfolding sameValue_def Let_def
    by (simp only: flips both_sym [of "booleanOf ?a"] both_sym [of "decimalText ?a"] both_sym [of "dateText ?a"]
        both_sym [of "timeText ?a"] both_sym [of "map_option hex_bytes (bytesOf ?a)"]
        sameFloat_sym [of ?a] sameMoment_sym [of ?a] sameJson_sym [of ?a] sameUnknown_sym [of h ?a])
qed

section \<open>A row is no different from itself\<close>

lemma close_numbers_refl: "close_numbers n n d"
  by (cases n) auto

lemma sameFloat_refl: "sameFloat a a d \<noteq> Some False"
  by (auto simp: sameFloat_def close_numbers_refl split: option.split)

lemma sameMoment_refl: "sameMoment a a \<noteq> Some False"
  by (auto simp: sameMoment_def split: option.split)

lemma both_refl: "both x x \<noteq> Some False"
  by (auto simp: both_def split: option.split)

lemma sameJson_refl: "sameJson a a \<noteq> Some False"
  by (auto simp: sameJson_def split: option.split)

lemma first_of_not: "x \<noteq> Some False \<Longrightarrow> y \<noteq> Some False \<Longrightarrow> first_of x y \<noteq> Some False"
  by (auto simp: first_of_def split: option.split)

lemma some_not_false: "b \<Longrightarrow> Some b \<noteq> Some False"
  by simp

lemma if_not_false: "(c \<Longrightarrow> x \<noteq> Some False) \<Longrightarrow> (\<not> c \<Longrightarrow> y \<noteq> Some False) \<Longrightarrow> (if c then x else y) \<noteq> Some False"
  by simp

lemmas refl_facts = both_refl sameFloat_refl sameMoment_refl sameJson_refl

lemma sameUnknown_refl: "sameUnknown h a a \<noteq> Some False"
  unfolding sameUnknown_def by (intro if_not_false first_of_not refl_facts some_not_false) simp_all

lemma sameValue_refl:
  assumes same: "unwrap x = unwrap y"
  shows "sameValue h kind x y \<noteq> Some False"
proof (cases kind)
  case Unknown_kind
  then show ?thesis
    unfolding sameValue_def Let_def same by (auto simp: sameUnknown_refl)
next
  case (Known k)
  then show ?thesis
    unfolding sameValue_def Let_def same
    by (cases k; simp only: compare_kind.case portable_kind.case)
      (intro if_not_false first_of_not refl_facts sameUnknown_refl some_not_false; simp)+
qed

text \<open>
  C30: A copy that is the source's row, value for value, is never reported as drifted: whatever
  the columns' kinds, and with JSON values wrapped or not, the row differs from itself in no
  column (unless the comparison throws, on an invalid date inside a document).
\<close>

theorem row_does_not_differ_from_itself:
  assumes "distinct (map fst cells)" and "diffRow h cells (map (\<lambda>(c, v). (c, unwrap v)) cells) kinds = Some ds"
  shows "ds = []"
proof -
  have get: "row_get (map (\<lambda>(c, v). (c, unwrap v)) cells) c = unwrap v" if "(c, v) \<in> set cells" for c v
  proof -
    have "map_of (map (\<lambda>(c, v). (c, unwrap v)) cells) c = Some (unwrap v)"
      by (rule map_of_is_SomeI) (use assms(1) that in \<open>force simp: o_def split_def\<close>)+
    then show ?thesis by (simp add: row_get_def)
  qed
  have "es = []" if "set part \<subseteq> set cells"
      and "diffRow h part (map (\<lambda>(c, v). (c, unwrap v)) cells) kinds = Some es" for part es
    using that
  proof (induction part arbitrary: es)
    case (Cons e part)
    obtain c v where e: "e = (c, v)" by fastforce
    have "sameValue h (kind_of kinds c) v (Plain_cell (row_get (map (\<lambda>(c, v). (c, unwrap v)) cells) c)) \<noteq> Some False"
      using Cons.prems(1) by (intro sameValue_refl) (simp add: e get [of c v])
    then show ?case using Cons e by (auto split: if_splits option.splits)
  qed simp
  then show ?thesis using assms(2) by blast
qed

lemma row_does_not_differ_from_itself_witness:
  "diffRow plain_reader [(''id'', Plain_cell (JNum (Num 7))), (''doc'', Json_cell (JArr [JNull]))]
     (map (\<lambda>(c, v). (c, unwrap v)) [(''id'', Plain_cell (JNum (Num 7))), (''doc'', Json_cell (JArr [JNull]))])
     [''id'' \<mapsto> Known K_bigint, ''doc'' \<mapsto> Known K_json] = Some []"
proof -
  let ?cells = "[(''id'', Plain_cell (JNum (Num 7))), (''doc'', Json_cell (JArr [JNull]))]"
  let ?kinds = "[''id'' \<mapsto> Known K_bigint, ''doc'' \<mapsto> Known K_json]"
  have "diffRow plain_reader ?cells (map (\<lambda>(c, v). (c, unwrap v)) ?cells) ?kinds \<noteq> None" by code_simp
  then obtain ds where ds: "diffRow plain_reader ?cells (map (\<lambda>(c, v). (c, unwrap v)) ?cells) ?kinds = Some ds" by blast
  moreover have "ds = []" by (rule row_does_not_differ_from_itself [OF _ ds]) simp
  ultimately show ?thesis by simp
qed

section \<open>Keys of dates before 1970\<close>


end
