(* ===== verification/Calendar.thy ===== *)
theory Calendar
  imports Js_Value
begin

text \<open>
  Facts about the civil calendar of dates and about fields of fixed width: a day number
  turned into a date and back is itself, a date's month and day have two digits, and a
  padded number is read back.
\<close>

section \<open>Days and dates\<close>

lemma century_years:
  fixes r b q t n y u w :: int
  assumes "0 \<le> r" "r \<le> 36523" "0 \<le> b" "b \<le> 3" "24 * b + r = 1460 * q + t" "0 \<le> t" "t < 1460"
    and "n = r - q" "n = 365 * y + u" "0 \<le> u" "u < 365" "y = 4 * w + k" "0 \<le> k" "k < 4"
  shows "0 \<le> y" "y \<le> 99" "0 \<le> r - 365 * y - w" "r - 365 * y - w \<le> 365"
proof -
  have q: "0 \<le> q" "q \<le> 25" using assms by linarith+
  have n: "0 \<le> n" using assms q by linarith
  then show y0: "0 \<le> y" using assms by linarith
  show "y \<le> 99"
  proof (cases "r < 36500")
    case True
    then show ?thesis using assms q by linarith
  next
    case False
    then have "q = 25" using assms q by linarith
    then show ?thesis using assms by linarith
  qed
  have "n = 1460 * w + 365 * k + u" using assms by linarith
  moreover have "n = 1459 * q + t - 24 * b" using assms by linarith
  ultimately have "w \<le> q" "q \<le> w + 1" using assms q by linarith+
  then show "0 \<le> r - 365 * y - w" "r - 365 * y - w \<le> 365" using assms by linarith+
qed

lemma year_of_era:
  fixes doe :: int
  defines "yoe \<equiv> (doe - doe div 1460 + doe div 36524 - doe div 146096) div 365"
  assumes "0 \<le> doe" "doe < 146097"
  shows "0 \<le> yoe" "yoe \<le> 399" "0 \<le> doe - (365 * yoe + yoe div 4 - yoe div 100)"
    "doe - (365 * yoe + yoe div 4 - yoe div 100) \<le> 365"
proof -
  have "0 \<le> yoe \<and> yoe \<le> 399 \<and> 0 \<le> doe - (365 * yoe + yoe div 4 - yoe div 100) \<and>
    doe - (365 * yoe + yoe div 4 - yoe div 100) \<le> 365"
  proof (cases "doe = 146096")
    case True
    then show ?thesis by (simp add: yoe_def)
  next
    case False
    then have last: "doe div 146096 = 0" using assms by auto
    define b r where "b = doe div 36524" and "r = doe mod 36524"
    have br: "doe = 36524 * b + r" "0 \<le> r" "r \<le> 36523" "0 \<le> b" "b \<le> 3"
      using assms False by (auto simp: b_def r_def)
    define q t where "q = (24 * b + r) div 1460" and "t = (24 * b + r) mod 1460"
    have qt: "24 * b + r = 1460 * q + t" "0 \<le> t" "t < 1460" by (auto simp: q_def t_def)
    define n where "n = r - q"
    define y u where "y = n div 365" and "u = n mod 365"
    define w k where "w = y div 4" and "k = y mod 4"
    have nyu: "n = 365 * y + u" "0 \<le> u" "u < 365" "y = 4 * w + k" "0 \<le> k" "k < 4"
      by (auto simp: y_def u_def w_def k_def)
    note bounds = century_years [OF br(2-5) qt n_def nyu]
    have "doe div 1460 = 25 * b + q" by (rule int_div_pos_eq [where r = t]) (use br(1) qt in auto)
    then have "yoe = (n + 365 * (100 * b)) div 365"
      unfolding yoe_def last b_def [symmetric] n_def using br(1) by (intro arg_cong [where f = "\<lambda>x. x div 365"]) auto
    then have yoe: "yoe = y + 100 * b" by (simp add: y_def)
    have "yoe div 100 = b" by (rule int_div_pos_eq [where r = y]) (use yoe bounds in auto)
    moreover have "yoe div 4 = 25 * b + w" by (rule int_div_pos_eq [where r = k]) (use yoe nyu in auto)
    ultimately show ?thesis using yoe bounds br by auto
  qed
  then show "0 \<le> yoe" "yoe \<le> 399" "0 \<le> doe - (365 * yoe + yoe div 4 - yoe div 100)"
    "doe - (365 * yoe + yoe div 4 - yoe div 100) \<le> 365" by blast+
qed

lemma month_of_day:
  fixes doy :: int
  assumes "0 \<le> doy" "doy \<le> 365"
  defines "mp \<equiv> (5 * doy + 2) div 153"
  shows "0 \<le> mp" "mp \<le> 11" "1 \<le> doy - (153 * mp + 2) div 5 + 1" "doy - (153 * mp + 2) div 5 + 1 \<le> 31"
proof -
  define k where "k = (5 * doy + 2) mod 153"
  have mp: "5 * doy + 2 = 153 * mp + k" "0 \<le> k" "k < 153" by (auto simp: mp_def k_def)
  define e j where "e = (153 * mp + 2) div 5" and "j = (153 * mp + 2) mod 5"
  have e: "153 * mp + 2 = 5 * e + j" "0 \<le> j" "j < 5" by (auto simp: e_def j_def)
  show "0 \<le> mp" "mp \<le> 11" using mp assms(1,2) by linarith+
  have "0 \<le> doy - e" "doy - e \<le> 30" using mp e by linarith+
  then show "1 \<le> doy - (153 * mp + 2) div 5 + 1" "doy - (153 * mp + 2) div 5 + 1 \<le> 31"
    by (simp_all add: e_def)
qed

text \<open>The date of a day is that day's, and its month and day are a month and a day.\<close>

lemma civil_round_trip:
  assumes "civil_from_days z = (y, m, d)"
  shows "days_from_civil y m d = z" "1 \<le> m" "m \<le> 12" "1 \<le> d" "d \<le> 31"
proof -
  define era doe where "era = (z + 719468) div 146097" and "doe = (z + 719468) - era * 146097"
  define yoe where "yoe = (doe - doe div 1460 + doe div 36524 - doe div 146096) div 365"
  define doy where "doy = doe - (365 * yoe + yoe div 4 - yoe div 100)"
  define mp where "mp = (5 * doy + 2) div 153"
  have doe: "0 \<le> doe" "doe < 146097" "z = era * 146097 + doe - 719468"
    by (auto simp: doe_def era_def minus_div_mult_eq_mod)
  note yb = year_of_era [OF doe(1,2), folded yoe_def, folded doy_def]
  note mb = month_of_day [OF yb(3,4), folded mp_def]
  have ymd: "d = doy - (153 * mp + 2) div 5 + 1" "m = (if mp < 10 then mp + 3 else mp - 9)"
    "y = yoe + era * 400 + (if m \<le> 2 then 1 else 0)"
    using assms unfolding civil_from_days_def Let_def era_def [symmetric] doe_def [symmetric] yoe_def [symmetric]
      doy_def [symmetric] mp_def [symmetric] by auto
  show "1 \<le> m" "m \<le> 12" "1 \<le> d" "d \<le> 31" using ymd mb by (auto split: if_splits)
  have undo: "m + (if m > 2 then - 3 else 9) = mp" "(if m \<le> 2 then y - 1 else y) = yoe + era * 400"
    using ymd mb by (auto split: if_splits)
  have era: "(yoe + era * 400) div 400 = era" using yb by simp
  have "(153 * mp + 2) div 5 + d - 1 = doy" using ymd by simp
  then show "days_from_civil y m d = z"
    unfolding days_from_civil_def Let_def undo era using doe(3) doy_def by simp
qed

section \<open>Fields of fixed width\<close>

lemma zero_digits: "list_all is_digit (zeros k)"
  by (simp add: zeros_def list_all_iff is_digit_def)

lemma read_zeros: "read_digits 0 (zeros k @ s) = read_digits 0 s"
  by (induction k) (simp_all add: zeros_def digit_val_def)

lemma padded_digits: "0 \<le> n \<Longrightarrow> list_all is_digit (pad_left w (show_int n))"
  using zero_digits show_nat_digits by (simp add: pad_left_def show_int_def)

lemma padded_read: "0 \<le> n \<Longrightarrow> int (read_digits 0 (pad_left w (show_int n))) = n"
  by (simp add: pad_left_def show_int_def read_zeros)

lemma padded_at_least: "w \<le> length (pad_left w s)"
  by (simp add: pad_left_def zeros_def)

lemma show_nat_short: "n < 10 ^ w \<Longrightarrow> 0 < w \<Longrightarrow> length (show_nat n) \<le> w"
proof (induction w arbitrary: n)
  case (Suc w)
  show ?case
  proof (cases "n < 10")
    case True
    then show ?thesis by (simp add: show_nat.simps [of n])
  next
    case False
    then have "0 < w" using Suc.prems by (cases w) auto
    moreover have "n div 10 < 10 ^ w" using Suc.prems(1) by (simp add: less_mult_imp_div_less mult.commute)
    ultimately show ?thesis using False Suc.IH [of "n div 10"] by (simp add: show_nat.simps [of n])
  qed
qed simp

lemma padded_length:
  assumes "0 \<le> n" and "n < 10 ^ w" and "0 < w"
  shows "length (pad_left w (show_int n)) = w"
proof -
  have "nat n < 10 ^ w" using assms by (simp add: nat_less_iff)
  then have "length (show_nat (nat n)) \<le> w" using show_nat_short assms(3) by blast
  then show ?thesis using assms(1) by (simp add: pad_left_def zeros_def show_int_def)
qed

end
