(* ===== verification/Value_Map.thy ===== *)
theory Value_Map
  imports Row_Compare Calendar
begin

text \<open>
  Values on their way from one engine's driver to another's:
  \<^verbatim>\<open>packages/core/src/bridges/value-map.ts\<close>. A converter is a function from the value a
  driver read to the \<open>cell\<close> the writer is given; a column or a row that needs nothing done has no
  converter (\<open>None\<close>).
\<close>

section \<open>Timestamps\<close>

text \<open>\<^verbatim>\<open>(Z|[+-]\d\d(?::?\d\d)?(?::\d\d)?)\<close>, in either case.\<close>

definition zone_of_instant :: "string \<Rightarrow> bool" where
  "zone_of_instant z =
     (z = ''Z'' \<or> z = ''z'' \<or>
      (case z of
         c # r \<Rightarrow> (c = CHR ''+'' \<or> c = CHR ''-'') \<and>
           (case digits_at 2 r of
              None \<Rightarrow> False
            | Some (_, t) \<Rightarrow>
                (let minutes = digits_at 2 (case after_char (CHR '':'') t of Some u \<Rightarrow> u | None \<Rightarrow> t);
                     ends = (\<lambda>u. u = [] \<or> (case field_after (CHR '':'') u of Some (_, []) \<Rightarrow> True | _ \<Rightarrow> False))
                 in ends t \<or> (case minutes of Some (_, u) \<Rightarrow> ends u | None \<Rightarrow> False)))
       | [] \<Rightarrow> False))"

record ts_match =
  tm_year :: string
  tm_month :: string
  tm_day :: string
  tm_hour :: string
  tm_minute :: string
  tm_second :: string
  tm_fraction :: string
  tm_zone :: string

text \<open>The optional fraction: up to nine digits behind a point.\<close>

definition ts_fraction :: "string \<Rightarrow> string \<times> string" where
  "ts_fraction s =
     (case after_char (CHR ''.'') s of
        None \<Rightarrow> ([], s)
      | Some t \<Rightarrow> (let f = take 9 (takeWhile is_digit t) in if f = [] then ([], s) else (f, drop (length f) t)))"

definition TS :: "string \<Rightarrow> ts_match option" where
  "TS s =
     (let y = takeWhile is_digit s; r = drop (length y) s
      in if length y < 4 then None
         else
           Option.bind (field_after (CHR ''-'') r) (\<lambda>(mo, r1).
           Option.bind (field_after (CHR ''-'') r1) (\<lambda>(d, r2).
           Option.bind (case r2 of c # t \<Rightarrow> if c \<in> set '' Tt'' then digits_at 2 t else None | [] \<Rightarrow> None) (\<lambda>(h, r3).
           Option.bind (field_after (CHR '':'') r3) (\<lambda>(mi, r4).
           Option.bind (field_after (CHR '':'') r4) (\<lambda>(sec, r5).
             (let (f, r6) = ts_fraction r5; z = dropWhile ws_char r6
              in if z = [] \<or> zone_of_instant z then
                   Some \<lparr>tm_year = y, tm_month = mo, tm_day = d, tm_hour = h, tm_minute = mi,
                         tm_second = sec, tm_fraction = f, tm_zone = z\<rparr>
                 else None)))))))"

record instant =
  in_ms :: int
  in_micros :: string

text \<open>\<^verbatim>\<open>(frac ?? '').padEnd(6, '0').slice(0, 6)\<close>\<close>

definition six_digits :: "string \<Rightarrow> string" where
  "six_digits f = take 6 (f @ zeros (6 - length f))"

text \<open>\<^verbatim>\<open>/^([+-])(\d\d)(?::?(\d\d))?/\<close>: hours and minutes of the zone, as minutes.\<close>

definition offset_minutes :: "string \<Rightarrow> int" where
  "offset_minutes z =
     (if to_upper z = ''Z'' then 0
      else
        (let r = drop 3 z; m = (case after_char (CHR '':'') r of Some u \<Rightarrow> u | None \<Rightarrow> r);
             n = num_text (take 2 (tl z)) * 60 + (case digits_at 2 m of Some (d, _) \<Rightarrow> num_text d | None \<Rightarrow> 0)
         in if hd z = CHR ''-'' then - n else n))"

definition parseInstant :: "string \<Rightarrow> instant option" where
  "parseInstant t =
     (case TS (trim t) of
        None \<Rightarrow> None
      | Some m \<Rightarrow>
          if tm_zone m = [] then None
          else
            map_option (\<lambda>ms. \<lparr>in_ms = ms - offset_minutes (tm_zone m) * 60000, in_micros = six_digits (tm_fraction m)\<rparr>)
              (date_utc (num_text (tm_year m)) (num_text (tm_month m) - 1) (num_text (tm_day m))
                 (num_text (tm_hour m)) (num_text (tm_minute m)) (num_text (tm_second m))))"

definition two :: "int \<Rightarrow> string" where
  "two n = pad_left 2 (show_int n)"

text \<open>\<^verbatim>\<open>new Date(ms)\<close> holds no time beyond this range.\<close>

definition date_ms :: "int \<Rightarrow> int option" where
  "date_ms ms = (if \<bar>ms\<bar> \<le> 8640000000000000 then Some ms else None)"

definition utcWallClock :: "instant \<Rightarrow> char \<Rightarrow> string" where
  "utcWallClock i sep =
     (case date_ms (in_ms i) of
        None \<Rightarrow> ''0NaN-NaN-NaN'' @ [sep] @ ''NaN:NaN:NaN.'' @ in_micros i
      | Some ms \<Rightarrow>
          (let (y, m, d) = civil_from_days (ms div 86400000); t = ms mod 86400000
           in pad_left 4 (show_int y) @ ''-'' @ two m @ ''-'' @ two d @ [sep] @
              two (t div 3600000) @ '':'' @ two (t div 60000 mod 60) @ '':'' @ two (t div 1000 mod 60) @
              ''.'' @ in_micros i))"

fun instantOf :: "jsval \<Rightarrow> instant option" where
  "instantOf (JDate d) =
     map_option (\<lambda>t. let w = t div 1000 * 1000
                      in \<lparr>in_ms = w, in_micros = pad_left 3 (show_int (t - w)) @ ''000''\<rparr>) d"
| "instantOf (JStr s) = parseInstant s"
| "instantOf _ = None"

text \<open>\<^verbatim>\<open>/^(0000-\d\d-\d\d|\d{4}-00-\d\d|\d{4}-\d\d-00)/\<close>\<close>

fun isZeroDate :: "jsval \<Rightarrow> bool" where
  "isZeroDate (JStr s) =
     (case digits_at 4 s of
        None \<Rightarrow> False
      | Some (y, r) \<Rightarrow>
          (case field_after (CHR ''-'') r of
             None \<Rightarrow> False
           | Some (m, r1) \<Rightarrow>
               (case field_after (CHR ''-'') r1 of
                  None \<Rightarrow> False
                | Some (d, _) \<Rightarrow> y = ''0000'' \<or> m = ''00'' \<or> d = ''00'')))"
| "isZeroDate _ = False"

section \<open>Converters\<close>

type_synonym converter = "jsval \<Rightarrow> cell"

text \<open>The value an instant becomes, or the value itself where there is no instant in it.\<close>

definition on_instant :: "(instant \<Rightarrow> jsval) \<Rightarrow> converter" where
  "on_instant f v = Plain_cell (case instantOf v of Some i \<Rightarrow> f i | None \<Rightarrow> v)"

definition isoInstant :: converter where
  "isoInstant = on_instant (\<lambda>i. JStr (utcWallClock i (CHR ''T'') @ ''Z''))"

definition instant_date :: "instant \<Rightarrow> jsval" where
  "instant_date i = JDate (date_ms (in_ms i + num_text (take 3 (in_micros i))))"

definition timestamptzTo :: "database_engine \<Rightarrow> bool \<Rightarrow> converter option" where
  "timestamptzTo target isoInstants =
     (if target = Redis \<and> isoInstants then Some isoInstant
      else
        (case target of
           Mysql \<Rightarrow> Some (on_instant (\<lambda>i. JStr (utcWallClock i (CHR '' ''))))
         | Sqlite \<Rightarrow> Some (on_instant (\<lambda>i. JStr (utcWallClock i (CHR ''T'') @ ''Z'')))
         | Mongodb \<Rightarrow> Some (\<lambda>v. case v of JDate _ \<Rightarrow> Plain_cell v | _ \<Rightarrow> on_instant instant_date v)
         | _ \<Rightarrow> None))"

definition set_bit :: "nat list \<Rightarrow> bool" where
  "set_bit bs = (bs \<noteq> [] \<and> last bs \<noteq> 0)"

definition booleanTo :: "database_engine \<Rightarrow> converter" where
  "booleanTo target =
     (if target = Mysql \<or> target = Sqlite
      then (\<lambda>v. Plain_cell (case v of JBytes bs \<Rightarrow> JNum (Num (if set_bit bs then 1 else 0)) | _ \<Rightarrow> v))
      else (\<lambda>v. Plain_cell (case v of
                  JBytes bs \<Rightarrow> JBool (set_bit bs)
                | JNum n \<Rightarrow> JBool (\<not> num_eq n (Num 0))
                | JStr s \<Rightarrow> if s = ''0'' \<or> s = ''1'' then JBool (s = ''1'') else v
                | _ \<Rightarrow> v)))"

definition READS_JSON_AS_TEXT :: "database_engine list" where
  "READS_JSON_AS_TEXT = [Sqlite, Redis]"

definition parse_value :: "database_engine \<Rightarrow> jsval \<Rightarrow> jsval" where
  "parse_value source v =
     (case v of
        JStr s \<Rightarrow>
          if source \<in> set READS_JSON_AS_TEXT then (case json_parse s of Some w \<Rightarrow> w | None \<Rightarrow> v) else v
      | _ \<Rightarrow> v)"

definition jsonTo :: "database_engine \<Rightarrow> database_engine \<Rightarrow> converter option" where
  "jsonTo source target =
     (if target = Mysql \<or> target = Sqlite \<or> target = Redis then None
      else if target = Postgres then Some (\<lambda>v. Json_cell (parse_value source v))
      else Some (\<lambda>v. Plain_cell (parse_value source v)))"

definition isSafeInteger :: "jsnum \<Rightarrow> bool" where
  "isSafeInteger n = (case n of Num q \<Rightarrow> q = of_int \<lfloor>q\<rfloor> \<and> \<bar>q\<bar> \<le> 9007199254740991 | _ \<Rightarrow> False)"

definition integer_text :: "string \<Rightarrow> bool" where
  "integer_text s =
     (let t = (if s \<noteq> [] \<and> hd s = CHR ''-'' then tl s else s) in t \<noteq> [] \<and> list_all is_digit t)"

definition integerTo :: "database_engine \<Rightarrow> converter option" where
  "integerTo target =
     (if target \<noteq> Mongodb then None
      else Some (\<lambda>v. Plain_cell (case v of
                   JStr s \<Rightarrow>
                     if integer_text s \<and> isSafeInteger (js_number_of_string s)
                     then JNum (js_number_of_string s) else v
                 | _ \<Rightarrow> v)))"

definition is_integer_kind :: "portable_kind \<Rightarrow> bool" where
  "is_integer_kind k = (k = K_smallint \<or> k = K_integer \<or> k = K_bigint)"

text \<open>A wall-clock reading for an engine that only has instants is taken as UTC.\<close>

definition wall_clock_date :: converter where
  "wall_clock_date v =
     Plain_cell (case v of
       JStr s \<Rightarrow> (case parseInstant (trim s @ ''Z'') of Some i \<Rightarrow> instant_date i | None \<Rightarrow> v)
     | _ \<Rightarrow> v)"

definition bytes_as_text :: converter where
  "bytes_as_text v = Plain_cell (case v of JBytes bs \<Rightarrow> JStr (hex_bytes bs) | _ \<Rightarrow> v)"

definition convert_kind ::
  "portable_kind \<Rightarrow> database_engine \<Rightarrow> database_engine \<Rightarrow> bool \<Rightarrow> converter option" where
  "convert_kind kind source target isoInstants =
     (if kind = K_timestamptz then timestamptzTo target isoInstants
      else if kind = K_boolean then Some (booleanTo target)
      else if kind = K_json then jsonTo source target
      else if is_integer_kind kind then integerTo target
      else if kind = K_timestamp \<and> target = Mongodb then Some wall_clock_date
      else if kind = K_opaque then Some bytes_as_text
      else None)"

definition temporal :: "portable_kind \<Rightarrow> bool" where
  "temporal kind = (kind = K_date \<or> kind = K_timestamp \<or> kind = K_timestamptz)"

definition valueConverterFor ::
  "string \<Rightarrow> database_engine \<Rightarrow> database_engine \<Rightarrow> bool \<Rightarrow> converter option" where
  "valueConverterFor dataType source target isoInstants =
     (let kind = pt_kind (parseColumnType (Some dataType) (Some source))
      in if kind = K_json \<and> target = Postgres then jsonTo source target
         else if source = target then None
         else
           (let convert = convert_kind kind source target isoInstants
            in if source = Mysql \<and> temporal kind
               then Some (\<lambda>v. if isZeroDate v then Plain_cell JNull
                              else (case convert of Some inner \<Rightarrow> inner v | None \<Rightarrow> Plain_cell v))
               else convert))"

section \<open>Rows\<close>

record column_spec =
  vc_name :: string
  vc_sourceType :: string

fun converters_for ::
  "column_spec list \<Rightarrow> database_engine \<Rightarrow> database_engine \<Rightarrow> bool \<Rightarrow> (string \<times> converter) list" where
  "converters_for [] source target isoInstants = []"
| "converters_for (c # cs) source target isoInstants =
     (case valueConverterFor (vc_sourceType c) source target isoInstants of
        None \<Rightarrow> converters_for cs source target isoInstants
      | Some f \<Rightarrow> (vc_name c, f) # converters_for cs source target isoInstants)"

fun put_cell :: "string \<Rightarrow> cell \<Rightarrow> cell_row \<Rightarrow> cell_row" where
  "put_cell c v [] = [(c, v)]"
| "put_cell c v ((k, w) # r) = (if k = c then (c, v) # r else (k, w) # put_cell c v r)"

definition plain_row :: "row \<Rightarrow> cell_row" where
  "plain_row r = map (\<lambda>(c, v). (c, Plain_cell v)) r"

fun convert_row :: "(string \<times> converter) list \<Rightarrow> row \<Rightarrow> cell_row \<Rightarrow> cell_row" where
  "convert_row [] row out = out"
| "convert_row ((name, convert) # rest) row out =
     (let before = row_get row name
      in if \<not> row_has row name \<or> is_nil before \<or> before = JUnchanged then convert_row rest row out
         else
           (let after = convert before
            in convert_row rest row (if after = Plain_cell before then out else put_cell name after out)))"

definition rowConverterFor ::
  "column_spec list \<Rightarrow> database_engine \<Rightarrow> database_engine \<Rightarrow> bool \<Rightarrow> (row \<Rightarrow> cell_row) option" where
  "rowConverterFor columns source target isoInstants =
     (let converters = converters_for columns source target isoInstants
      in if converters = [] then None else Some (\<lambda>row. convert_row converters row (plain_row row)))"

section \<open>Reading a wall clock back\<close>

lemma digits_at_app: "length d = n \<Longrightarrow> list_all is_digit d \<Longrightarrow> digits_at n (d @ r) = Some (d, r)"
  by (simp add: digits_at_def)

lemma field_after_app: "length d = 2 \<Longrightarrow> list_all is_digit d \<Longrightarrow> field_after c (c # d @ r) = Some (d, r)"
  by (simp add: field_after_def after_char_def digits_at_app)

lemma digit_run: "list_all is_digit y \<Longrightarrow> r = [] \<or> \<not> is_digit (hd r) \<Longrightarrow> takeWhile is_digit (y @ r) = y"
  by (induction y) (auto simp: takeWhile_eq_Nil_iff)

definition two_digits :: "string \<Rightarrow> bool" where
  "two_digits d = (length d = 2 \<and> list_all is_digit d)"

lemma two_digits_two: "0 \<le> n \<Longrightarrow> n < 100 \<Longrightarrow> two_digits (two n)"
  using padded_length [of n 2] padded_digits [of n 2] by (simp add: two_digits_def two_def)

lemma num_text_two: "0 \<le> n \<Longrightarrow> num_text (two n) = n"
  using padded_read by (simp add: num_text_def two_def)

lemma marks_are_no_digits: "\<not> is_digit (CHR ''-'')" "\<not> is_digit (CHR ''Z'')" "\<not> is_digit (CHR '':'')"
  by (simp_all add: is_digit_def)

lemma ts_fraction_app:
  assumes "length f = 6" and "list_all is_digit f"
  shows "ts_fraction (CHR ''.'' # f @ ''Z'') = (f, ''Z'')"
  using assms digit_run [of f "''Z''"] marks_are_no_digits(2) by (auto simp: ts_fraction_def after_char_def)

lemma TS_app:
  assumes "4 \<le> length y" and "list_all is_digit y" and "two_digits mo" and "two_digits d" and "two_digits h"
    and "two_digits mi" and "two_digits sec" and "length f = 6" and "list_all is_digit f" and "sep \<in> set '' T''"
  shows "TS (y @ CHR ''-'' # mo @ CHR ''-'' # d @ sep # h @ CHR '':'' # mi @ CHR '':'' # sec @ CHR ''.'' # f @ ''Z'') =
    Some \<lparr>tm_year = y, tm_month = mo, tm_day = d, tm_hour = h, tm_minute = mi, tm_second = sec,
          tm_fraction = f, tm_zone = ''Z''\<rparr>"
proof -
  have year: "takeWhile is_digit (y @ CHR ''-'' # r) = y" for r
    using digit_run [of y "CHR ''-'' # r"] assms(2) marks_are_no_digits(1) by simp
  have sep: "sep \<in> set '' Tt''" using assms(10) by auto
  have z: "\<not> ws_char (CHR ''Z'')" "zone_of_instant ''Z''" by (simp_all add: ws_char_def zone_of_instant_def)
  show ?thesis
    using assms(1,3-7) sep
    by (simp add: TS_def year field_after_app digits_at_app two_digits_def ts_fraction_app [OF assms(8,9)] z Let_def)
qed

text \<open>An instant as the readers make it: a whole second and six digits.\<close>

definition well_formed :: "instant \<Rightarrow> bool" where
  "well_formed i = (in_ms i mod 1000 = 0 \<and> length (in_micros i) = 6 \<and> list_all is_digit (in_micros i))"

definition year_of :: "instant \<Rightarrow> int" where
  "year_of i = fst (civil_from_days (in_ms i div 86400000))"

lemma clock_parts:
  fixes t :: int
  shows "t = t div 3600000 * 3600000 + t div 60000 mod 60 * 60000 + t div 1000 mod 60 * 1000 + t mod 1000"
proof -
  have h: "t div 3600000 = t div 60000 div 60" using zdiv_zmult2_eq [of 60 t 60000] by simp
  have m: "t div 60000 = t div 1000 div 60" using zdiv_zmult2_eq [of 60 t 1000] by simp
  have "t div 60000 = t div 60000 div 60 * 60 + t div 60000 mod 60"
    and "t div 1000 = t div 1000 div 60 * 60 + t div 1000 mod 60" by simp_all
  then show ?thesis using h m mult_div_mod_eq [of 1000 t] by linarith
qed

lemma ms_parts:
  fixes ms D t a b c e :: int
  assumes "ms = D * 86400000 + t" and "t = a * 3600000 + b * 60000 + c * 1000 + e" and "e = 0"
  shows "D * 86400000 + a * 3600000 + b * 60000 + c * 1000 = ms"
  using assms by simp

lemma first_of_month: "days_from_civil y m 1 + d - 1 = days_from_civil y m d"
  unfolding days_from_civil_def Let_def by linarith

lemma date_utc_civil:
  assumes civil: "civil_from_days (ms div 86400000) = (y, m, d)" and "100 \<le> y" and "date_ms ms \<noteq> None"
    and whole: "ms mod 1000 = 0"
  defines "t \<equiv> ms mod 86400000"
  shows "date_utc y (m - 1) d (t div 3600000) (t div 60000 mod 60) (t div 1000 mod 60) = Some ms"
proof -
  have m: "(m - 1) div 12 = 0" "(m - 1) mod 12 + 1 = m" using civil_round_trip(2,3) [OF civil] by auto
  have day: "days_from_civil y m 1 + d - 1 = ms div 86400000"
    using first_of_month civil_round_trip(1) [OF civil] by (rule trans)
  have "ms = ms div 86400000 * 86400000 + t" unfolding t_def by (rule div_mult_mod_eq [symmetric])
  moreover have "t mod 1000 = 0" using whole unfolding t_def by (simp add: mod_mod_cancel)
  ultimately have ms: "(days_from_civil y m 1 + d - 1) * 86400000 + t div 3600000 * 3600000 +
      t div 60000 mod 60 * 60000 + t div 1000 mod 60 * 1000 = ms"
    unfolding day by (rule ms_parts [OF _ clock_parts])
  have y: "(if 0 \<le> y \<and> y \<le> 99 then 1900 + y else y) = y" "\<bar>ms\<bar> \<le> 8640000000000000"
    using assms(2,3) by (auto simp: date_ms_def split: if_splits)
  show ?thesis unfolding date_utc_def Let_def y(1) m add_0_right ms using y(2) by (simp only: if_True)
qed

lemma wall_clock_fields:
  assumes "civil_from_days (in_ms i div 86400000) = (y, m, d)" and "date_ms (in_ms i) \<noteq> None"
  defines "t \<equiv> in_ms i mod 86400000"
  shows "utcWallClock i sep @ ''Z'' =
    pad_left 4 (show_int y) @ CHR ''-'' # two m @ CHR ''-'' # two d @ sep # two (t div 3600000) @ CHR '':'' #
      two (t div 60000 mod 60) @ CHR '':'' # two (t div 1000 mod 60) @ CHR ''.'' # in_micros i @ ''Z''"
  using assms by (auto simp: utcWallClock_def date_ms_def Let_def split: if_splits)

lemma trim_ends: "s \<noteq> [] \<Longrightarrow> \<not> ws_char (hd s) \<Longrightarrow> \<not> ws_char (last s) \<Longrightarrow> trim s = s"
  by (cases s) (simp_all add: trim_def trim_start_def trim_end_id)

lemma digit_no_ws: "is_digit c \<Longrightarrow> \<not> ws_char c"
  by (auto simp: is_digit_def ws_char_def)

lemma six_digits_id: "length f = 6 \<Longrightarrow> six_digits f = f"
  by (simp add: six_digits_def zeros_def)

lemma parse_wall_clock:
  assumes "well_formed i" and "100 \<le> year_of i" and "date_ms (in_ms i) \<noteq> None" and "sep \<in> set '' T''"
  shows "parseInstant (utcWallClock i sep @ ''Z'') = Some i"
proof -
  obtain y m d where c: "civil_from_days (in_ms i div 86400000) = (y, m, d)" using prod_cases3 by blast
  define t where "t = in_ms i mod 86400000"
  have y: "100 \<le> y" using assms(2) c by (simp add: year_of_def)
  note civil = civil_round_trip [OF c]
  have f: "length (in_micros i) = 6" "list_all is_digit (in_micros i)" "in_ms i mod 1000 = 0"
    using assms(1) by (auto simp: well_formed_def)
  have t: "0 \<le> t" "t < 86400000" by (auto simp: t_def)
  have clock: "0 \<le> t div 3600000" "t div 3600000 < 100" "0 \<le> t div 60000 mod 60" "t div 60000 mod 60 < 100"
    "0 \<le> t div 1000 mod 60" "t div 1000 mod 60 < 100"
    using t by (auto intro: less_trans [OF pos_mod_bound])
  note digits = two_digits_two [of m] two_digits_two [of d] two_digits_two [OF clock(1,2)]
    two_digits_two [OF clock(3,4)] two_digits_two [OF clock(5,6)]
  let ?y = "pad_left 4 (show_int y)"
  have year: "4 \<le> length ?y" "list_all is_digit ?y" "num_text ?y = y"
    using padded_at_least padded_digits [of y] padded_read [of y] y by (auto simp: num_text_def)
  let ?s = "utcWallClock i sep @ ''Z''"
  note fields = wall_clock_fields [OF c assms(3), of sep, folded t_def]
  have "hd ?s \<in> set ?y" using year(1) unfolding fields by (cases ?y) auto
  then have "\<not> ws_char (hd ?s)" using year(2) digit_no_ws by (auto simp: list_all_iff)
  then have "trim ?s = ?s" by (intro trim_ends) (simp_all add: ws_char_def [of "CHR ''Z''"])
  moreover have "TS ?s = Some \<lparr>tm_year = ?y, tm_month = two m, tm_day = two d, tm_hour = two (t div 3600000),
      tm_minute = two (t div 60000 mod 60), tm_second = two (t div 1000 mod 60), tm_fraction = in_micros i, tm_zone = ''Z''\<rparr>"
    unfolding fields using civil digits by (intro TS_app year f assms(4)) auto
  moreover have "offset_minutes ''Z'' = 0" by (simp add: offset_minutes_def to_upper_def upper_char_def)
  ultimately show ?thesis
    using date_utc_civil [OF c y assms(3) f(3), folded t_def] civil
    by (simp add: parseInstant_def year(3) num_text_two clock six_digits_id [OF f(1)])
qed

lemma instant_of_text: "parseInstant s = Some i \<Longrightarrow> well_formed i"
proof -
  assume "parseInstant s = Some i"
  then obtain m ms where m: "TS (trim s) = Some m"
      "date_utc (num_text (tm_year m)) (num_text (tm_month m) - 1) (num_text (tm_day m)) (num_text (tm_hour m))
         (num_text (tm_minute m)) (num_text (tm_second m)) = Some ms"
      "i = \<lparr>in_ms = ms - offset_minutes (tm_zone m) * 60000, in_micros = six_digits (tm_fraction m)\<rparr>"
    by (auto simp: parseInstant_def split: option.splits if_splits)
  have digits: "list_all is_digit (tm_fraction m)"
    using m(1) by (auto simp: TS_def ts_fraction_def Let_def bind_eq_Some_conv list_all_iff
        split: if_splits option.splits prod.splits dest!: in_set_takeD set_takeWhileD)
  have "ms mod 1000 = 0" using m(2) by (auto simp: date_utc_def Let_def mod_add_eq split: if_splits)
  then have "(ms - offset_minutes (tm_zone m) * 60000) mod 1000 = 0" by (simp add: mod_diff_eq [symmetric])
  moreover have "length (six_digits (tm_fraction m)) = 6" by (simp add: six_digits_def zeros_def)
  moreover have "list_all is_digit (six_digits (tm_fraction m))"
    using digits zero_digits by (auto simp: six_digits_def list_all_iff dest: in_set_takeD)
  ultimately show ?thesis using m(3) by (simp add: well_formed_def)
qed

lemma instantOf_well_formed: "instantOf v = Some i \<Longrightarrow> well_formed i"
proof (cases v)
  case (JDate d)
  assume "instantOf v = Some i"
  then obtain t where t: "i = \<lparr>in_ms = t div 1000 * 1000, in_micros = pad_left 3 (show_int (t - t div 1000 * 1000)) @ ''000''\<rparr>"
    using JDate by (auto simp: Let_def)
  have "0 \<le> t - t div 1000 * 1000" "t - t div 1000 * 1000 < 10 ^ 3"
    by (simp_all add: minus_div_mult_eq_mod)
  then show ?thesis
    unfolding t well_formed_def using padded_length [of "t - t div 1000 * 1000" 3] padded_digits
    by (auto simp: is_digit_def)
next
  case (JStr s)
  assume "instantOf v = Some i"
  then show ?thesis using JStr instant_of_text by simp
qed auto

section \<open>What the conversions keep\<close>




section \<open>Rows are converted column by column\<close>

definition column_value :: "(string \<times> converter) list \<Rightarrow> string \<Rightarrow> jsval \<Rightarrow> cell" where
  "column_value convs c v =
     (if is_nil v \<or> v = JUnchanged then Plain_cell v
      else (case map_of convs c of Some convert \<Rightarrow> convert v | None \<Rightarrow> Plain_cell v))"

lemma map_of_put_cell: "map_of (put_cell c v out) = (map_of out)(c \<mapsto> v)"
  by (induction c v out rule: put_cell.induct) auto

lemma map_of_plain_row: "map_of (plain_row row) c = map_option Plain_cell (map_of row c)"
  by (simp add: plain_row_def map_of_map)

lemma row_has_map_of: "row_has row c = (map_of row c \<noteq> None)"
  by (simp add: row_has_def map_of_eq_None_iff)

lemma convert_row_values:
  assumes "distinct (map fst convs)"
    and "\<And>c. c \<in> fst ` set convs \<Longrightarrow> map_of out c = map_option Plain_cell (map_of row c)"
  shows "map_of (convert_row convs row out) c =
    (if c \<in> fst ` set convs then map_option (column_value convs c) (map_of row c) else map_of out c)"
  using assms
proof (induction convs row out rule: convert_row.induct)
  case (2 name convert rest row out)
  have apart: "name \<notin> fst ` set rest" using "2.prems"(1) by simp
  have column: "map_option (column_value ((name, convert) # rest) k) (map_of row k) =
      map_option (column_value rest k) (map_of row k)" if "k \<in> fst ` set rest" for k
    using that apart by (cases "map_of row k") (auto simp: column_value_def)
  let ?before = "row_get row name"
  show ?case
  proof (cases "\<not> row_has row name \<or> is_nil ?before \<or> ?before = JUnchanged")
    case True
    then have "map_option (column_value ((name, convert) # rest) name) (map_of row name) = map_of out name"
      using "2.prems"(2) [of name] by (cases "map_of row name") (auto simp: row_has_map_of row_get_def column_value_def)
    then show ?thesis
      using True "2.IH"(1) [OF _ True] "2.prems" column apart by (auto simp: Let_def)
  next
    case False
    then obtain v where v: "map_of row name = Some v" "?before = v" by (auto simp: row_has_map_of row_get_def)
    let ?out = "if convert v = Plain_cell v then out else put_cell name (convert v) out"
    have out: "map_of ?out k = (if k = name then Some (convert v) else map_of out k)" for k
      using "2.prems"(2) [of name] v by (simp add: map_of_put_cell)
    have prem: "map_of ?out k = map_option Plain_cell (map_of row k)" if "k \<in> fst ` set rest" for k
    proof -
      have "k \<noteq> name" using that apart by blast
      moreover have "k \<in> fst ` set ((name, convert) # rest)" using that by simp
      ultimately show ?thesis unfolding out using "2.prems"(2) [of k] by simp
    qed
    have step: "convert_row ((name, convert) # rest) row out = convert_row rest row ?out"
      unfolding v(2) [symmetric] using False by (simp add: Let_def)
    have rest: "map_of (convert_row rest row ?out) c =
        (if c \<in> fst ` set rest then map_option (column_value rest c) (map_of row c) else map_of ?out c)"
      by (rule "2.IH"(2) [OF refl False refl, unfolded v(2), OF _ prem]) (use "2.prems"(1) in simp_all)
    have here: "column_value ((name, convert) # rest) name v = convert v"
      using False v(2) by (simp add: column_value_def)
    show ?thesis
    proof (cases "c = name")
      case True
      then show ?thesis unfolding step rest using apart out [of c] v(1) here by simp
    next
      case False
      then show ?thesis unfolding step rest using out [of c] column [of c] by auto
    qed
  qed
qed simp

lemma converters_names: "set (map fst (converters_for cols source target asIso)) \<subseteq> set (map vc_name cols)"
  by (induction cols) (auto split: option.splits)

lemma converters_distinct:
  "distinct (map vc_name cols) \<Longrightarrow> distinct (map fst (converters_for cols source target asIso))"
proof (induction cols)
  case (Cons c cols)
  then show ?case using converters_names [of cols source target asIso] by (auto split: option.splits)
qed simp

text \<open>
  C29: A converted row holds in every column what that column's converter makes of its value:
  nulls and the marker of a value that was not sent pass untouched, and a column without a converter is
  not touched at all.
\<close>

theorem rows_are_converted_column_by_column:
  assumes "distinct (map vc_name columns)" and "rowConverterFor columns source target isoInstants = Some convert"
  shows "map_of (convert row) c =
    map_option (column_value (converters_for columns source target isoInstants) c) (map_of row c)"
proof -
  let ?convs = "converters_for columns source target isoInstants"
  have f: "convert = (\<lambda>row. convert_row ?convs row (plain_row row))"
    using assms(2) by (auto simp: rowConverterFor_def Let_def split: if_splits)
  have "column_value ?convs c = Plain_cell" if "c \<notin> fst ` set ?convs"
    using that by (auto simp: column_value_def map_of_eq_None_iff [THEN iffD2])
  then show ?thesis
    unfolding f using convert_row_values [OF converters_distinct [OF assms(1)] map_of_plain_row]
    by (auto simp: map_of_plain_row)
qed

definition moved_columns :: "column_spec list" where
  "moved_columns = [\<lparr>vc_name = ''paid'', vc_sourceType = ''boolean''\<rparr>, \<lparr>vc_name = ''n'', vc_sourceType = ''bigint''\<rparr>,
     \<lparr>vc_name = ''note'', vc_sourceType = ''text''\<rparr>]"

lemma rows_are_converted_column_by_column_witness:
  "case rowConverterFor moved_columns Mysql Mongodb False of
     None \<Rightarrow> False
   | Some convert \<Rightarrow>
       map_of (convert [(''n'', JStr ''12''), (''note'', JStr ''12''), (''paid'', JUnchanged)]) ''n'' =
         Some (Plain_cell (JNum (Num 12)))"
proof -
  let ?row = "[(''n'', JStr ''12''), (''note'', JStr ''12''), (''paid'', JUnchanged)]"
  have d: "distinct (map vc_name moved_columns)" by code_simp
  have "rowConverterFor moved_columns Mysql Mongodb False \<noteq> None" by code_simp
  then obtain f where f: "rowConverterFor moved_columns Mysql Mongodb False = Some f" by blast
  have "map_option (column_value (converters_for moved_columns Mysql Mongodb False) ''n'') (map_of ?row ''n'') =
      Some (Plain_cell (JNum (Num 12)))" by code_simp
  then show ?thesis using rows_are_converted_column_by_column [OF d f, of ?row "''n''"] f by simp
qed

end
