(* ===== verification/Statement_Safety.thy ===== *)
theory Statement_Safety
  imports Type_Map Json_Parse
begin

text \<open>
  What a statement typed into the query editor would do, as far as its text can say:
  \<^verbatim>\<open>packages/core/src/statement-safety.ts\<close>. The text is masked (comments and quoted
  things taken out), cut at its semicolons, and each piece judged by its words. A reason is its
  text, or one of two fixed ones. \<open>None\<close> is the exception of a command document that is JSON
  but not an object.
\<close>

section \<open>Risks\<close>

datatype statement_risk = Risk_read | Risk_write | Risk_destructive

datatype risk_reason = Said string | Select_into | Alter_drop

record statement_assessment =
  sa_risk :: statement_risk
  sa_statements :: nat
  sa_reasons :: "risk_reason list"

fun WORSE :: "statement_risk \<Rightarrow> nat" where
  "WORSE Risk_read = 0"
| "WORSE Risk_write = 1"
| "WORSE Risk_destructive = 2"

definition worse_of :: "statement_risk \<Rightarrow> statement_risk \<Rightarrow> statement_risk" where
  "worse_of r risk = (if WORSE r > WORSE risk then r else risk)"

section \<open>Masking\<close>

abbreviation newline :: char where
  "newline \<equiv> CHR 0x0A"

abbreviation backslash :: char where
  "backslash \<equiv> CHR 0x5C"

abbreviation double_quote :: char where
  "double_quote \<equiv> CHR 0x22"

abbreviation single_quote :: char where
  "single_quote \<equiv> CHR 0x27"

text \<open>What follows the first occurrence of a marker, if there is one.\<close>

fun after_text :: "string \<Rightarrow> string \<Rightarrow> string option" where
  "after_text m s =
     (if starts_with s m then Some (drop (length m) s)
      else (case s of [] \<Rightarrow> None | _ # t \<Rightarrow> after_text m t))"

declare after_text.simps [simp del]

text \<open>
  What follows a quoted thing: a backslash takes the next character with it (not inside double
  quotes), a doubled quote is the quote itself.
\<close>

fun skip_quoted :: "char \<Rightarrow> string \<Rightarrow> string" where
  "skip_quoted q [] = []"
| "skip_quoted q [c] = []"
| "skip_quoted q (c # d # s) =
     (if c = backslash \<and> q \<noteq> double_quote then skip_quoted q s
      else if c = q then (if d = q then skip_quoted q s else d # s)
      else skip_quoted q (d # s))"

definition tag_char :: "char \<Rightarrow> bool" where
  "tag_char c =
     (let n = (of_char c :: nat) in (65 \<le> n \<and> n \<le> 90) \<or> (97 \<le> n \<and> n \<le> 122) \<or> c = CHR ''_'')"

text \<open>\<^verbatim>\<open>/^\$[A-Za-z_]*\$/\<close>, with what is behind it.\<close>

definition dollar_tag :: "string \<Rightarrow> (string \<times> string) option" where
  "dollar_tag s =
     (case s of
        [] \<Rightarrow> None
      | c # t \<Rightarrow>
          (let name = takeWhile tag_char t; r = drop (length name) t
           in if c = CHR ''$'' \<and> r \<noteq> [] \<and> hd r = CHR ''$''
              then Some (CHR ''$'' # name @ ''$'', tl r) else None))"

definition or_end :: "string option \<Rightarrow> string" where
  "or_end r = (case r of Some t \<Rightarrow> t | None \<Rightarrow> [])"

lemma length_after_text: "after_text m s = Some t \<Longrightarrow> length t \<le> length s"
proof (induction s)
  case Nil
  then show ?case by (simp add: after_text.simps [of m "[]"] split: if_splits)
next
  case (Cons c s)
  then show ?case by (auto simp: after_text.simps [of m "c # s"] split: if_splits)
qed

lemma length_or_end: "length (or_end (after_text m s)) \<le> length s"
  by (auto simp: or_end_def length_after_text split: option.split)

lemma length_skip_quoted: "length (skip_quoted q s) \<le> length s"
  by (induction q s rule: skip_quoted.induct) auto

lemma length_dollar_tag: "dollar_tag s = Some (tag, r) \<Longrightarrow> length r < length s"
  by (auto simp: dollar_tag_def Let_def split: list.splits if_splits)

definition a_quote :: "char \<Rightarrow> bool" where
  "a_quote c = (c = single_quote \<or> c = double_quote \<or> c = CHR ''`'')"

definition placeholder :: "char \<Rightarrow> string" where
  "placeholder c =
     (if c = single_quote then [CHR '' '', single_quote, single_quote, CHR '' '']
      else [CHR '' '', double_quote, CHR ''x'', double_quote, CHR '' ''])"

function maskSql :: "string \<Rightarrow> string" where
  "maskSql s =
     (case s of
        [] \<Rightarrow> []
      | ch # t \<Rightarrow>
          if starts_with s ''--'' \<or> ch = CHR ''#'' then maskSql (dropWhile (\<lambda>c. c \<noteq> newline) t)
          else if starts_with s ''/*'' then CHR '' '' # maskSql (or_end (after_text ''*/'' (tl t)))
          else if a_quote ch then placeholder ch @ maskSql (skip_quoted ch t)
          else
            (case dollar_tag s of
               Some (tag, r) \<Rightarrow> placeholder single_quote @ maskSql (or_end (after_text tag r))
             | None \<Rightarrow> ch # maskSql t))"
  by auto

termination maskSql
proof (relation "measure length", goal_cases)
  case (2 s ch t)
  then show ?case by (simp add: length_dropWhile_le le_imp_less_Suc)
next
  case (3 s ch t)
  then show ?case using length_or_end [of "''*/''" "tl t"] by (auto simp: le_less_trans)
next
  case (4 s ch t)
  then show ?case using length_skip_quoted [of ch t] by simp
qed (auto dest!: length_dollar_tag intro: le_less_trans [OF length_or_end])

declare maskSql.simps [simp del]

section \<open>One SQL statement\<close>

definition regex_word :: "char \<Rightarrow> bool" where
  "regex_word c = (tag_char c \<or> is_digit c)"

text \<open>\<^verbatim>\<open>/\bW\b/\<close>, with \<open>inside\<close> whether the character before is one of a word.\<close>

fun word_from :: "bool \<Rightarrow> string \<Rightarrow> string \<Rightarrow> bool" where
  "word_from inside [] w = False"
| "word_from inside (c # t) w =
     ((\<not> inside \<and> starts_with (c # t) w \<and>
       (let r = drop (length w) (c # t) in r = [] \<or> \<not> regex_word (hd r))) \<or>
      word_from (regex_word c) t w)"

definition has_word :: "string \<Rightarrow> string \<Rightarrow> bool" where
  "has_word s w = word_from False s w"

definition WRITES_INSIDE :: "string list" where
  "WRITES_INSIDE = [''INSERT'', ''UPDATE'', ''DELETE'', ''MERGE'', ''TRUNCATE'', ''DROP'', ''ALTER'', ''CREATE'']"

definition upper_letter :: "char \<Rightarrow> bool" where
  "upper_letter c = (let n = (of_char c :: nat) in 65 \<le> n \<and> n \<le> 90)"

text \<open>\<^verbatim>\<open>statement.slice(statement.toUpperCase().indexOf(w))\<close>\<close>

fun slice_at :: "string \<Rightarrow> string \<Rightarrow> string option" where
  "slice_at w s =
     (if starts_with (to_upper s) w then Some s
      else (case s of [] \<Rightarrow> None | _ # t \<Rightarrow> slice_at w t))"

declare slice_at.simps [simp del]

definition slice_from :: "string \<Rightarrow> string \<Rightarrow> string" where
  "slice_from w s = (case slice_at w s of Some t \<Rightarrow> t | None \<Rightarrow> drop (length s - 1) s)"

definition normal_text :: "string \<Rightarrow> string" where
  "normal_text statement = to_upper (trim (squeeze statement))"

definition first_word :: "string \<Rightarrow> string" where
  "first_word s = takeWhile upper_letter s"

definition leading_two :: "string \<Rightarrow> string" where
  "leading_two s = join_with '' '' (take 2 (split_on (CHR '' '') s))"

text \<open>Every statement but a \<^verbatim>\<open>WITH\<close>, which may carry its write inside.\<close>

definition assess_verb :: "string \<Rightarrow> string \<Rightarrow> statement_risk \<times> risk_reason option" where
  "assess_verb s first =
     (let writesInside = find (has_word s) WRITES_INSIDE
      in if first \<in> set [''SELECT'', ''TABLE'', ''VALUES''] then
           (if has_word s ''INTO'' then (Risk_write, Some Select_into) else (Risk_read, None))
         else if first \<in> set [''SHOW'', ''DESCRIBE'', ''DESC''] then (Risk_read, None)
         else if first = ''EXPLAIN'' then
           (case writesInside of
              Some w \<Rightarrow>
                if has_word s ''ANALYZE'' then (Risk_write, Some (Said (''EXPLAIN ANALYZE '' @ w))) else (Risk_read, None)
            | None \<Rightarrow> (Risk_read, None))
         else if first = ''PRAGMA'' then
           (if list_ex (\<lambda>c. c = CHR ''='' \<or> c = CHR ''('') s
            then (Risk_write, Some (Said ''PRAGMA that sets a value'')) else (Risk_read, None))
         else if first = ''DROP'' then (Risk_destructive, Some (Said (leading_two s)))
         else if first = ''TRUNCATE'' then (Risk_destructive, Some (Said ''TRUNCATE''))
         else if first \<in> set [''DELETE'', ''UPDATE''] then
           (if has_word s ''WHERE'' then (Risk_write, Some (Said first))
            else (Risk_destructive, Some (Said (first @ '' without WHERE''))))
         else if first = ''ALTER'' then
           (if has_word s ''DROP'' then (Risk_destructive, Some Alter_drop)
            else (Risk_write, Some (Said (leading_two s))))
         else (Risk_write, Some (Said (if first = [] then ''an empty statement'' else first))))"

lemma slice_at_length: "slice_at w s = Some t \<Longrightarrow> length t \<le> length s"
proof (induction s)
  case Nil
  then show ?case by (simp add: slice_at.simps [of w "[]"] split: if_splits)
next
  case (Cons c s)
  then show ?case by (auto simp: slice_at.simps [of w "c # s"] split: if_splits)
qed

lemma upper_char_ws: "ws_char (upper_char c) = ws_char c"
proof (cases "97 \<le> (of_char c :: nat) \<and> (of_char c :: nat) \<le> 122")
  case True
  then have "((of_char c :: nat) - 32) mod 256 = of_char c - 32" by (intro mod_less) linarith
  then show ?thesis using True by (auto simp: ws_char_def upper_char_def Let_def)
next
  case False
  then show ?thesis by (simp only: ws_char_def upper_char_def Let_def if_False)
qed

text \<open>The slice a \<^verbatim>\<open>WITH\<close> is judged by is shorter, for it begins with another word.\<close>

lemma squeeze_head: "\<not> ws_char c \<Longrightarrow> \<exists>u. squeeze (c # t) = c # u"
  by (cases t) auto

lemma slice_shorter:
  assumes "first_word (normal_text s) = ''WITH''" and "w \<in> set WRITES_INSIDE"
  shows "length (slice_from w s) < length s"
proof -
  have ne: "s \<noteq> []" using assms(1) by (auto simp: normal_text_def first_word_def to_upper_def trim_def trim_start_def)
  show ?thesis
  proof (cases "starts_with (to_upper s) w")
    case True
    obtain c t where s: "s = c # t" using ne by (cases s) auto
    have w: "\<exists>u. w = hd w # u \<and> hd w \<in> set ''IUDMTAC''" using assms(2) by (auto simp: WRITES_INSIDE_def)
    then have c: "upper_char c \<in> set ''IUDMTAC''"
      using True s by (auto simp: starts_with_iff to_upper_def)
    then have "\<not> ws_char (upper_char c)" by (auto simp: ws_char_def)
    then have nws: "\<not> ws_char c" by (simp add: upper_char_ws)
    then obtain u where "squeeze s = c # u" using squeeze_head s by blast
    then have "trim (squeeze s) = trim_end (c # u)" using nws by (simp add: trim_def trim_start_def)
    moreover have "\<exists>u'. trim_end (c # u) = c # u'"
    proof -
      have "rev (dropWhile ws_char (rev u @ [c])) = c # rev (dropWhile ws_char (rev u))"
        using nws by (simp add: dropWhile_append)
      then show ?thesis by (auto simp: trim_end_def)
    qed
    ultimately obtain u' where "normal_text s = upper_char c # to_upper u'" by (auto simp: normal_text_def to_upper_def)
    then have "upper_char c = CHR ''W''" using assms(1) by (auto simp: first_word_def split: if_splits)
    then show ?thesis using c by simp
  next
    case False
    show ?thesis
    proof (cases "slice_at w s")
      case None
      obtain c t where s: "s = c # t" using ne by (cases s) auto
      have "t \<noteq> []"
      proof
        assume "t = []"
        then have "length (normal_text s) \<le> 1"
          using s by (simp add: normal_text_def to_upper_def trim_def trim_start_def trim_end_def)
        then show False using assms(1) length_takeWhile_le [of upper_letter "normal_text s"]
          by (simp add: first_word_def)
      qed
      then show ?thesis using None s by (cases t) (simp_all add: slice_from_def)
    next
      case (Some v)
      obtain c t where s: "s = c # t" using ne by (cases s) auto
      then have "slice_at w t = Some v" using Some False by (simp add: slice_at.simps [of w "c # t"])
      then show ?thesis using slice_at_length [of w t v] s Some by (simp add: slice_from_def)
    qed
  qed
qed

function assessSqlStatement :: "string \<Rightarrow> statement_risk \<times> risk_reason option" where
  "assessSqlStatement statement =
     (let s = normal_text statement; first = first_word s
      in if first = ''WITH'' then
           (case find (has_word s) WRITES_INSIDE of
              Some w \<Rightarrow> assessSqlStatement (slice_from w statement)
            | None \<Rightarrow> if has_word s ''INTO'' then (Risk_write, Some Select_into) else (Risk_read, None))
         else assess_verb s first)"
  by auto

termination assessSqlStatement
  by (relation "measure length") (auto dest!: find_sound intro: slice_shorter)

declare assessSqlStatement.simps [simp del]

definition sql_statements :: "string \<Rightarrow> string list" where
  "sql_statements text = filter (\<lambda>s. s \<noteq> []) (map trim (split_on (CHR '';'') (maskSql text)))"

definition worst_of :: "(statement_risk \<times> risk_reason option) list \<Rightarrow> statement_risk" where
  "worst_of as = fold (\<lambda>a risk. worse_of (fst a) risk) as Risk_read"

definition assessSql :: "string \<Rightarrow> statement_assessment" where
  "assessSql t =
     (let statements = sql_statements t; as = map assessSqlStatement statements
      in \<lparr>sa_risk = worst_of as, sa_statements = length statements,
          sa_reasons = List.map_filter (\<lambda>(risk, reason). if risk = Risk_read then None else reason) as\<rparr>)"

section \<open>Redis\<close>

definition REDIS_READS :: "string list" where
  "REDIS_READS = [
    ''GET'', ''MGET'', ''STRLEN'', ''GETRANGE'', ''SUBSTR'', ''EXISTS'', ''TYPE'', ''TTL'',
     ''PTTL'', ''EXPIRETIME'', ''PEXPIRETIME'', ''KEYS'', ''SCAN'', ''RANDOMKEY'', ''DBSIZE'',
     ''INFO'', ''PING'', ''ECHO'', ''TIME'', ''LASTSAVE'', ''HGET'', ''HMGET'', ''HGETALL'',
     ''HKEYS'', ''HVALS'', ''HLEN'', ''HEXISTS'', ''HSTRLEN'', ''HSCAN'', ''HRANDFIELD'',
     ''LRANGE'', ''LLEN'', ''LINDEX'', ''LPOS'', ''SMEMBERS'', ''SCARD'', ''SISMEMBER'',
     ''SMISMEMBER'', ''SRANDMEMBER'', ''SSCAN'', ''SINTER'', ''SUNION'', ''SDIFF'', ''SINTERCARD'',
     ''ZRANGE'', ''ZREVRANGE'', ''ZRANGEBYSCORE'', ''ZREVRANGEBYSCORE'', ''ZRANGEBYLEX'',
     ''ZCARD'', ''ZCOUNT'', ''ZSCORE'', ''ZMSCORE'', ''ZRANK'', ''ZREVRANK'', ''ZSCAN'',
     ''ZRANDMEMBER'', ''ZLEXCOUNT'', ''XRANGE'', ''XREVRANGE'', ''XLEN'', ''XINFO'', ''XPENDING'',
     ''BITCOUNT'', ''BITPOS'', ''GETBIT'', ''PFCOUNT'', ''GEOPOS'', ''GEODIST'', ''GEOHASH'',
     ''GEOSEARCH'', ''OBJECT'', ''MEMORY'', ''DUMP'', ''TOUCH'']"

definition REDIS_DESTRUCTIVE :: "string list" where
  "REDIS_DESTRUCTIVE = [
    ''FLUSHALL'', ''FLUSHDB'', ''SHUTDOWN'', ''SWAPDB'', ''DEBUG'', ''MIGRATE'', ''RESTORE'']"

text \<open>\<^verbatim>\<open>line.split(/\s+/)\<close> of a line with no blanks at its ends.\<close>

definition tokens_of :: "string \<Rightarrow> string list" where
  "tokens_of line = split_on (CHR '' '') (squeeze line)"

definition redis_risk :: "string list \<Rightarrow> statement_risk" where
  "redis_risk tokens =
     (let command = to_upper (hd tokens)
      in if command \<in> set REDIS_DESTRUCTIVE then Risk_destructive
         else if command = ''CONFIG'' then
           (if 1 < length tokens \<and> to_upper (tokens ! 1) = ''GET'' then Risk_read else Risk_destructive)
         else if command \<in> set REDIS_READS then Risk_read else Risk_write)"

definition redis_lines :: "string \<Rightarrow> string list" where
  "redis_lines t =
     filter (\<lambda>l. l \<noteq> [] \<and> \<not> starts_with l ''#'') (map trim (split_on newline t))"

definition assessRedis :: "string \<Rightarrow> statement_assessment" where
  "assessRedis t =
     (let lines = redis_lines t;
          as = map (\<lambda>l. let tokens = tokens_of l in (redis_risk tokens, Some (Said (to_upper (hd tokens))))) lines
      in \<lparr>sa_risk = worst_of as, sa_statements = length lines,
          sa_reasons = List.map_filter (\<lambda>(risk, reason). if risk = Risk_read then None else reason) as\<rparr>)"

section \<open>MongoDB\<close>

text \<open>
  \<^verbatim>\<open>text.replace(/^\s*\/\/.*$/gm, '')\<close>: at the start of a line, blanks (and empty lines) and
  a comment to the end of its line.
\<close>

definition line_end :: "char \<Rightarrow> bool" where
  "line_end c = (of_char c = (10::nat) \<or> of_char c = (13::nat))"

function strip_comments :: "bool \<Rightarrow> string \<Rightarrow> string" where
  "strip_comments start s =
     (case s of
        [] \<Rightarrow> []
      | c # t \<Rightarrow>
          (let r = dropWhile ws_char s
           in if start \<and> starts_with r ''//'' then strip_comments False (dropWhile (\<lambda>c. \<not> line_end c) r)
              else c # strip_comments (line_end c) t))"
  by auto

lemma length_dropWhile_less: "s \<noteq> [] \<Longrightarrow> P (hd s) \<Longrightarrow> length (dropWhile P s) < length s"
  by (cases s) (simp_all add: length_dropWhile_le le_imp_less_Suc)

lemma comment_shorter:
  assumes "starts_with (dropWhile ws_char s) ''//''"
  shows "length (dropWhile (\<lambda>c. \<not> line_end c) (dropWhile ws_char s)) < length s"
proof -
  obtain u where u: "dropWhile ws_char s = ''//'' @ u" using assms by (auto simp: starts_with_iff)
  have "length (dropWhile (\<lambda>c. \<not> line_end c) (dropWhile ws_char s)) < length (dropWhile ws_char s)"
    by (rule length_dropWhile_less) (simp_all add: u line_end_def)
  then show ?thesis using length_dropWhile_le [of ws_char s] by linarith
qed

termination strip_comments
  by (relation "measure (\<lambda>(_, s). length s)") (auto simp del: dropWhile.simps dest!: comment_shorter)

declare strip_comments.simps [simp del]

definition a_stage :: "string \<Rightarrow> jsval \<Rightarrow> bool" where
  "a_stage k v = (case v of JObj fs \<Rightarrow> row_has fs k | _ \<Rightarrow> False)"

definition mongo_object :: "(string \<times> jsval) list \<Rightarrow> statement_assessment" where
  "mongo_object spec =
     (let stages = (case row_get spec ''aggregate'' of JArr vs \<Rightarrow> vs | _ \<Rightarrow> []);
          reads = list_ex (row_has spec) [''find'', ''aggregate'', ''countDocuments'', ''distinct''];
          plain = list_all (\<lambda>(k, _). k \<in> set [''collection'', ''sort'', ''limit'', ''skip'', ''projection'']) spec
      in if list_ex (a_stage ''$out'') stages
         then \<lparr>sa_risk = Risk_destructive, sa_statements = 1, sa_reasons = [Said ''$out'']\<rparr>
         else if list_ex (a_stage ''$merge'') stages
         then \<lparr>sa_risk = Risk_write, sa_statements = 1, sa_reasons = [Said ''$merge'']\<rparr>
         else if reads \<or> plain then \<lparr>sa_risk = Risk_read, sa_statements = 1, sa_reasons = []\<rparr>
         else \<lparr>sa_risk = Risk_write, sa_statements = 1,
               sa_reasons = [Said (case find (\<lambda>k. k \<noteq> ''collection'') (map fst spec) of
                                     Some k \<Rightarrow> k | None \<Rightarrow> ''unknown command'')]\<rparr>)"

text \<open>
  A document that is not an object: \<^verbatim>\<open>in\<close> throws on a primitive, and finds
  \<^verbatim>\<open>Array.prototype.find\<close> on an array.
\<close>

definition assessMongo :: "string \<Rightarrow> statement_assessment option" where
  "assessMongo t =
     (case json_parse (strip_comments True t) of
        None \<Rightarrow> Some \<lparr>sa_risk = Risk_write, sa_statements = 1, sa_reasons = [Said ''not a JSON command document'']\<rparr>
      | Some (JObj spec) \<Rightarrow> Some (mongo_object spec)
      | Some (JArr _) \<Rightarrow> Some \<lparr>sa_risk = Risk_read, sa_statements = 1, sa_reasons = []\<rparr>
      | Some _ \<Rightarrow> None)"

definition assessStatement :: "database_engine \<Rightarrow> string \<Rightarrow> statement_assessment option" where
  "assessStatement engine t =
     (if engine = Redis then Some (assessRedis t)
      else if engine = Mongodb then assessMongo t
      else Some (assessSql t))"

section \<open>What is called a read\<close>

lemma worst_fold: "fold (\<lambda>a risk. worse_of (fst a) risk) as r = Risk_read \<longleftrightarrow> r = Risk_read \<and> (\<forall>a \<in> set as. fst a = Risk_read)"
proof (induction as arbitrary: r)
  case (Cons a as)
  have "worse_of (fst a) r = Risk_read \<longleftrightarrow> r = Risk_read \<and> fst a = Risk_read"
    by (cases "fst a"; cases r) (simp_all add: worse_of_def)
  then show ?case using Cons by auto
qed simp

lemma worst_of_read: "worst_of as = Risk_read \<longleftrightarrow> (\<forall>a \<in> set as. fst a = Risk_read)"
  by (simp add: worst_of_def worst_fold)

lemma squeeze_prefix: "list_all (\<lambda>c. \<not> ws_char c) p \<Longrightarrow> squeeze (p @ r) = p @ squeeze r"
proof (induction p)
  case (Cons c p)
  then show ?case by (cases "p @ r") auto
qed simp

lemma trim_end_prefix:
  assumes "p \<noteq> []" and "\<not> ws_char (last p)"
  shows "\<exists>u. trim_end (p @ r) = p @ u"
proof -
  have "dropWhile ws_char (rev p) = rev p" using assms by (cases p rule: rev_cases) auto
  then have "trim_end (p @ r) = p @ rev (dropWhile ws_char (rev r)) \<or> trim_end (p @ r) = p"
    by (auto simp: trim_end_def dropWhile_append dropWhile_eq_Nil_conv)
  then show ?thesis by (metis append_Nil2)
qed

lemma normal_text_prefix:
  assumes "p \<noteq> []" and "list_all (\<lambda>c. \<not> ws_char c) p"
  shows "\<exists>u. normal_text (p @ r) = to_upper p @ u"
proof -
  have "squeeze (p @ r) = p @ squeeze r" by (rule squeeze_prefix [OF assms(2)])
  moreover have "trim_start (p @ squeeze r) = p @ squeeze r"
    using assms by (cases p) (simp_all add: trim_start_def)
  moreover have "\<not> ws_char (last p)" using assms by (simp add: list_all_iff)
  ultimately show ?thesis
    using trim_end_prefix [OF assms(1), of "squeeze r"] by (auto simp: normal_text_def trim_def to_upper_def)
qed

definition READ_VERBS :: "string list" where
  "READ_VERBS = [''SELECT'', ''TABLE'', ''VALUES'', ''WITH'', ''SHOW'', ''DESCRIBE'', ''DESC'', ''EXPLAIN'', ''PRAGMA'']"

lemma assess_verb_read: "fst (assess_verb s first) = Risk_read \<Longrightarrow> first \<in> set READ_VERBS"
  by (auto simp: assess_verb_def READ_VERBS_def Let_def split: if_splits)

lemma write_word_is_no_read: "w \<in> set WRITES_INSIDE \<Longrightarrow> first_word (w @ u) \<notin> set READ_VERBS"
  by (auto simp: WRITES_INSIDE_def READ_VERBS_def first_word_def upper_letter_def)

lemma slice_at_starts: "slice_at w s = Some t \<Longrightarrow> starts_with (to_upper t) w"
proof (induction s)
  case Nil
  then show ?case by (simp add: slice_at.simps [of w "[]"] split: if_splits)
next
  case (Cons c s)
  then show ?case by (auto simp: slice_at.simps [of w "c # s"] split: if_splits)
qed

lemma normal_text_short: "length (normal_text s) \<le> length s"
proof -
  have "length (squeeze s) \<le> length s" by (induction s rule: squeeze.induct) auto
  moreover have "length (trim u) \<le> length u" for u
    unfolding trim_def trim_end_def trim_start_def length_rev
    by (metis length_dropWhile_le length_rev order_trans)
  ultimately show ?thesis by (metis length_map normal_text_def order_trans to_upper_def)
qed

lemma slice_is_no_read:
  assumes "w \<in> set WRITES_INSIDE" and "s \<noteq> []"
  shows "first_word (normal_text (slice_from w s)) \<notin> set READ_VERBS"
proof (cases "slice_at w s")
  case None
  then have "length (slice_from w s) = 1" using assms(2) by (cases s) (simp_all add: slice_from_def)
  then have "length (first_word (normal_text (slice_from w s))) \<le> 1"
    using normal_text_short [of "slice_from w s"] length_takeWhile_le [of upper_letter "normal_text (slice_from w s)"]
    by (simp add: first_word_def)
  then show ?thesis by (auto simp: READ_VERBS_def)
next
  case (Some t)
  then obtain u where u: "to_upper t = w @ u" using slice_at_starts [OF Some] by (auto simp: starts_with_iff)
  define p r where "p = take (length w) t" and "r = drop (length w) t"
  have t: "t = p @ r" by (simp add: p_def r_def)
  have p: "to_upper p = w" using u by (simp add: p_def to_upper_def take_map [symmetric])
  have "w \<noteq> [] \<and> list_all (\<lambda>c. \<not> ws_char c) w" using assms(1) by (auto simp: WRITES_INSIDE_def ws_char_def)
  then have "p \<noteq> []" "list_all (\<lambda>c. \<not> ws_char c) p"
    unfolding p [symmetric] by (auto simp: to_upper_def list_all_iff upper_char_ws)
  then obtain v where "normal_text t = w @ v" using normal_text_prefix [of p r] p t by auto
  then show ?thesis using write_word_is_no_read [OF assms(1)] Some by (simp add: slice_from_def)
qed

text \<open>A statement that is only a read, said without the code's order of cases.\<close>

definition only_reads :: "string \<Rightarrow> bool" where
  "only_reads statement =
     (let s = normal_text statement; first = first_word s;
          writes = list_ex (has_word s) WRITES_INSIDE
      in first \<in> set READ_VERBS \<and>
         (first \<in> set [''SELECT'', ''TABLE'', ''VALUES'', ''WITH''] \<longrightarrow> \<not> has_word s ''INTO'') \<and>
         (first = ''WITH'' \<longrightarrow> \<not> writes) \<and>
         (first = ''EXPLAIN'' \<longrightarrow> \<not> (has_word s ''ANALYZE'' \<and> writes)) \<and>
         (first = ''PRAGMA'' \<longrightarrow> CHR ''='' \<notin> set s \<and> CHR ''('' \<notin> set s))"

lemma find_any: "(find P xs = None) = (\<not> list_ex P xs)"
  by (auto simp: find_None_iff list_ex_iff)

lemma with_word_reads:
  assumes "first_word (normal_text st) = ''WITH''"
  shows "fst (assessSqlStatement st) = Risk_read \<longleftrightarrow> only_reads st"
proof (cases "find (has_word (normal_text st)) WRITES_INSIDE")
  case None
  then have "\<not> list_ex (has_word (normal_text st)) WRITES_INSIDE" by (rule find_any [THEN iffD1])
  then show ?thesis
    using assms None unfolding assessSqlStatement.simps [of st] only_reads_def Let_def
    by (auto simp: READ_VERBS_def)
next
  case (Some w)
  then have w: "w \<in> set WRITES_INSIDE" using find_sound by metis
  have "st \<noteq> []" using assms by (auto simp: normal_text_def first_word_def to_upper_def trim_def trim_start_def)
  note no = slice_is_no_read [OF w this]
  have step: "assessSqlStatement st = assessSqlStatement (slice_from w st)"
    using assms Some by (simp add: assessSqlStatement.simps [of st])
  have "first_word (normal_text (slice_from w st)) \<noteq> ''WITH''" using no by (auto simp: READ_VERBS_def)
  then have "assessSqlStatement (slice_from w st) =
      assess_verb (normal_text (slice_from w st)) (first_word (normal_text (slice_from w st)))"
    by (simp add: assessSqlStatement.simps [of "slice_from w st"] Let_def)
  then have "fst (assessSqlStatement st) \<noteq> Risk_read" using no assess_verb_read step by metis
  moreover have "list_ex (has_word (normal_text st)) WRITES_INSIDE" using Some find_any by (metis option.distinct(1))
  ultimately show ?thesis using assms by (simp add: only_reads_def Let_def)
qed

lemma verb_reads:
  assumes "first_word (normal_text st) \<noteq> ''WITH''"
  shows "fst (assessSqlStatement st) = Risk_read \<longleftrightarrow> only_reads st"
proof -
  let ?s = "normal_text st"
  have e: "assessSqlStatement st = assess_verb ?s (first_word ?s)"
    using assms by (simp add: assessSqlStatement.simps [of st] Let_def)
  show ?thesis
    unfolding e using assms find_any [of "has_word ?s" WRITES_INSIDE]
    by (cases "find (has_word ?s) WRITES_INSIDE")
      (auto simp: assess_verb_def only_reads_def READ_VERBS_def Let_def list_ex_iff)
qed

text \<open>
  C26: A text is called a read exactly when, comments and quoted things taken out, every statement
  in it begins with one of nine reading words and holds nothing that writes: no \<^verbatim>\<open>INTO\<close>, no
  writing word behind a \<^verbatim>\<open>WITH\<close> or an \<^verbatim>\<open>EXPLAIN ANALYZE\<close>, no value for a \<^verbatim>\<open>PRAGMA\<close>.
\<close>

theorem read_iff_every_statement_only_reads:
  "sa_risk (assessSql t) = Risk_read \<longleftrightarrow> list_all only_reads (sql_statements t)"
  using with_word_reads verb_reads by (fastforce simp: assessSql_def Let_def worst_of_read list_all_iff)

section \<open>Quoted text\<close>

definition plain_char :: "char \<Rightarrow> bool" where
  "plain_char c = (c \<noteq> CHR ''-'' \<and> c \<noteq> CHR ''#'' \<and> c \<noteq> CHR ''/'' \<and> c \<noteq> CHR ''$'' \<and> \<not> a_quote c)"

lemma mask_plain: "list_all plain_char a \<Longrightarrow> maskSql (a @ s) = a @ maskSql s"
proof (induction a)
  case (Cons c a)
  then have "plain_char c" by simp
  then have "dollar_tag (c # a @ s) = None" "\<not> starts_with (c # a @ s) ''--''" "\<not> starts_with (c # a @ s) ''/*''"
    "c \<noteq> CHR ''#''" "\<not> a_quote c"
    by (auto simp: plain_char_def dollar_tag_def Let_def starts_with_iff)
  then show ?case using Cons by (simp add: maskSql.simps [of "c # a @ s"])
qed simp

definition inside_quotes :: "char \<Rightarrow> string \<Rightarrow> bool" where
  "inside_quotes q x = (q \<notin> set x \<and> backslash \<notin> set x)"

lemma skip_inside: "inside_quotes q x \<Longrightarrow> b = [] \<or> hd b \<noteq> q \<Longrightarrow> q \<noteq> backslash \<Longrightarrow> skip_quoted q (x @ q # b) = b"
proof (induction x)
  case Nil
  then show ?case by (cases b) auto
next
  case (Cons c x)
  then show ?case by (cases x) (auto simp: inside_quotes_def)
qed

lemma mask_quoted:
  assumes "a_quote q" and "inside_quotes q x" and "b = [] \<or> hd b \<noteq> q"
  shows "maskSql (q # x @ q # b) = placeholder q @ maskSql b"
proof -
  have q: "q \<noteq> CHR ''-''" "q \<noteq> CHR ''#''" "q \<noteq> CHR ''/''" "q \<noteq> backslash"
    using assms(1) by (auto simp: a_quote_def)
  then have "\<not> starts_with (q # x @ q # b) ''--''" "\<not> starts_with (q # x @ q # b) ''/*''"
    by (auto simp: starts_with_iff)
  then show ?thesis
    using assms(1) q skip_inside [OF assms(2,3) q(4)] by (simp add: maskSql.simps [of "q # x @ q # b"])
qed




end
