(* ===== verification/Isolate_Failures.thy ===== *)
theory Isolate_Failures
  imports Prelude
begin

text \<open>
  Poison-row isolation, \<^verbatim>\<open>apps/api/src/bridges/cdc/isolate-failures.ts\<close>: a batch
  that failed as a whole is split in halves, breadth-first, until each failure is pinned
  to a single row, or until a budget says that the destination rejects everything.

  A segment's identity (the object reference that \<^verbatim>\<open>iso_queue.includes(seg_sibling)\<close>
  compares) is its number \<open>seg_id\<close>. The callback \<^verbatim>\<open>attempt\<close> acts on the iso_world
  outside, so it is a function on a iso_world \<open>'w\<close> that the loop threads through. A
  \<^verbatim>\<open>ReadonlySet\<close> of targets is a list in insertion order.
\<close>

section \<open>Data\<close>

record isolation_attempt =
  att_ok :: bool
  att_error :: "string option"
  att_targets :: "string list"

record 'r poisoned_row =
  p_row :: 'r
  p_error :: string
  p_targets :: "string list"

record isolation_options =
  batchError :: "string option"
  alreadySucceeded :: "string list"
  maxAttempts :: nat
  maxPoisoned :: nat
  failuresBeforeSystemic :: nat

record 'r segment =
  seg_id :: nat
  seg_rows :: "'r list"
  seg_skip :: "string list"
  seg_sibling :: nat
  seg_knownBad :: bool

record 'r isolation_result =
  iso_delivered :: "'r list"
  iso_poisoned :: "'r poisoned_row list"
  iso_systemic :: bool
  iso_reason :: "string option"
  iso_attempts :: nat

text \<open>The local state of the loop.\<close>

record ('r, 'w) iso_state =
  iso_queue :: "'r segment list"
  next_seg :: nat
  iso_successes :: nat
  iso_res :: "'r isolation_result"
  iso_world :: 'w

definition default_error :: "string option \<Rightarrow> string" where
  "default_error e = (case e of None \<Rightarrow> ''delivery failed'' | Some m \<Rightarrow> m)"

section \<open>Operations\<close>

text \<open>\<^verbatim>\<open>split\<close>: the two halves of a group, each aware of the other.\<close>

definition split_rows :: "nat \<Rightarrow> 'r list \<Rightarrow> string list \<Rightarrow> 'r segment list" where
  "split_rows n rs sk =
     (let mid = (length rs + 1) div 2
      in [\<lparr>seg_id = n, seg_rows = take mid rs, seg_skip = sk, seg_sibling = n + 1, seg_knownBad = False\<rparr>,
          \<lparr>seg_id = n + 1, seg_rows = drop mid rs, seg_skip = sk, seg_sibling = n, seg_knownBad = False\<rparr>])"

definition give_up :: "string \<Rightarrow> ('r, 'w) iso_state \<Rightarrow> ('r, 'w) iso_state" where
  "give_up why st = st\<lparr>iso_res := (iso_res st)\<lparr>iso_systemic := True, iso_reason := Some why\<rparr>\<rparr>"

text \<open>\<^verbatim>\<open>if (sibling && queue.includes(sibling)) sibling.knownBad = true\<close>\<close>

definition mark_bad :: "nat \<Rightarrow> 'r segment list \<Rightarrow> 'r segment list" where
  "mark_bad s q = map (\<lambda>g. if seg_id g = s then g\<lparr>seg_knownBad := True\<rparr> else g) q"

type_synonym ('r, 'w) attempt_fn = "'w \<Rightarrow> 'r list \<Rightarrow> string list \<Rightarrow> isolation_attempt \<times> 'w"

text \<open>
  One turn of the \<^verbatim>\<open>while\<close> loop on the segment just shifted off the iso_queue: the
  new state, and whether the loop goes on (\<^verbatim>\<open>True\<close>) or has returned.
\<close>

definition iso_turn ::
  "('r, 'w) attempt_fn \<Rightarrow> isolation_options \<Rightarrow> 'r segment \<Rightarrow> ('r, 'w) iso_state \<Rightarrow>
     ('r, 'w) iso_state \<times> bool" where
  "iso_turn attempt opts seg st =
     (if seg_knownBad seg \<and> 1 < length (seg_rows seg) then
        (st\<lparr>iso_queue := iso_queue st @ split_rows (next_seg st) (seg_rows seg) (seg_skip seg),
            next_seg := next_seg st + 2\<rparr>, True)
      else if maxAttempts opts \<le> iso_attempts (iso_res st) then
        (give_up (''gave up isolating the failing rows after '' @ show_nat (iso_attempts (iso_res st))
                  @ '' attempts'') st, False)
      else
        (let (outcome, w) = attempt (iso_world st) (seg_rows seg) (seg_skip seg);
             n = iso_attempts (iso_res st) + 1;
             st1 = st\<lparr>iso_world := w, iso_res := (iso_res st)\<lparr>iso_attempts := n\<rparr>\<rparr>
         in if att_ok outcome then
              (st1\<lparr>iso_successes := iso_successes st1 + 1,
                   iso_res := (iso_res st1)\<lparr>iso_delivered := iso_delivered (iso_res st1) @ seg_rows seg\<rparr>,
                   iso_queue := mark_bad (seg_sibling seg) (iso_queue st1)\<rparr>, True)
            else
              (let err = default_error (att_error outcome)
               in if iso_successes st1 = 0 \<and> failuresBeforeSystemic opts \<le> n then
                    (give_up (''every attempt failed ('' @ show_nat n @ '' in a row): '' @ err) st1,
                     False)
                  else
                    (let sk = uniq (seg_skip seg @ att_targets outcome)
                     in if length (seg_rows seg) = 1 then
                          (let st2 = st1\<lparr>iso_res := (iso_res st1)\<lparr>iso_poisoned := iso_poisoned (iso_res st1) @
                                 [\<lparr>p_row = seg_rows seg ! 0, p_error = err, p_targets = sk\<rparr>]\<rparr>\<rparr>
                           in if maxPoisoned opts < length (iso_poisoned (iso_res st2)) then
                                (give_up (''more than '' @ show_nat (maxPoisoned opts)
                                          @ '' rows in one batch are failing: '' @ err) st2, False)
                              else (st2, True))
                        else
                          (st1\<lparr>iso_queue := iso_queue st1 @ split_rows (next_seg st1) (seg_rows seg) sk,
                               next_seg := next_seg st1 + 2\<rparr>, True)))))"

text \<open>
  The loop. It stops because every turn either spends an attempt out of a budget or
  splits a segment marked bad into two that are not.
\<close>

definition iso_measure :: "isolation_options \<Rightarrow> ('r, 'w) iso_state \<Rightarrow> nat" where
  "iso_measure opts st = maxAttempts opts - iso_attempts (iso_res st)"

definition bad_count :: "('r, 'w) iso_state \<Rightarrow> nat" where
  "bad_count st = length (filter seg_knownBad (iso_queue st))"

lemma length_filter_split_rows [simp]: "filter seg_knownBad (split_rows n rs sk) = []"
  by (simp add: split_rows_def Let_def)

lemma iso_turn_decreases:
  assumes "iso_queue st = seg # q" and "iso_turn attempt opts seg (st\<lparr>iso_queue := q\<rparr>) = (st', True)"
  shows "iso_measure opts st' < iso_measure opts st \<or>
    iso_measure opts st' = iso_measure opts st \<and> bad_count st' < bad_count st"
  using assms
  by (auto simp: iso_turn_def iso_measure_def bad_count_def give_up_def Let_def
      split: if_splits prod.splits)

function iso_loop ::
  "('r, 'w) attempt_fn \<Rightarrow> isolation_options \<Rightarrow> ('r, 'w) iso_state \<Rightarrow> ('r, 'w) iso_state" where
  "iso_loop attempt opts st =
     (case iso_queue st of
        [] \<Rightarrow> st
      | seg # q \<Rightarrow>
          (case iso_turn attempt opts seg (st\<lparr>iso_queue := q\<rparr>) of
             (st', go) \<Rightarrow> if go then iso_loop attempt opts st' else st'))"
  by pat_completeness auto
termination
proof (relation "measures [\<lambda>(a, opts, st). iso_measure opts st, \<lambda>(a, opts, st). bad_count st]",
    goal_cases)
  case 1
  show ?case by simp
next
  case (2 attempt opts st seg q st' go)
  then have "iso_turn attempt opts seg (st\<lparr>iso_queue := q\<rparr>) = (st', True)" by simp
  from iso_turn_decreases [OF 2(1) this] show ?case by auto
qed

declare iso_loop.simps [simp del]

text \<open>\<^verbatim>\<open>isolateFailures(rows, attempt, opts)\<close>: the result and the iso_world after it.\<close>

definition empty_result :: "'r isolation_result" where
  "empty_result = \<lparr>iso_delivered = [], iso_poisoned = [], iso_systemic = False, iso_reason = None, iso_attempts = 0\<rparr>"

definition iso_start :: "'r list \<Rightarrow> isolation_options \<Rightarrow> 'w \<Rightarrow> ('r, 'w) iso_state" where
  "iso_start rs opts w =
     \<lparr>iso_queue = split_rows 0 rs (uniq (alreadySucceeded opts)), next_seg = 2, iso_successes = 0,
      iso_res = empty_result, iso_world = w\<rparr>"

definition isolateFailures ::
  "('r, 'w) attempt_fn \<Rightarrow> isolation_options \<Rightarrow> 'r list \<Rightarrow> 'w \<Rightarrow> 'r isolation_result \<times> 'w" where
  "isolateFailures attempt opts rs w =
     (case rs of
        [] \<Rightarrow> (empty_result, w)
      | [r] \<Rightarrow> (empty_result\<lparr>iso_poisoned := [\<lparr>p_row = r, p_error = default_error (batchError opts),
                     p_targets = uniq (alreadySucceeded opts)\<rparr>]\<rparr>, w)
      | _ \<Rightarrow> (let st = iso_loop attempt opts (iso_start rs opts w) in (iso_res st, iso_world st)))"


section \<open>The branches of a turn\<close>

lemma iso_turn_cases [consumes 1, case_names split_bad budget success all_failed poison too_many halve]:
  assumes turn: "iso_turn attempt opts seg st = (st', go)"
    and split_bad: "\<lbrakk>seg_knownBad seg; 1 < length (seg_rows seg); go;
      st' = st\<lparr>iso_queue := iso_queue st @ split_rows (next_seg st) (seg_rows seg) (seg_skip seg),
               next_seg := next_seg st + 2\<rparr>\<rbrakk> \<Longrightarrow> P"
    and budget: "\<And>why. \<lbrakk>maxAttempts opts \<le> iso_attempts (iso_res st); \<not> go; st' = give_up why st\<rbrakk> \<Longrightarrow> P"
    and success: "\<And>out w. \<lbrakk>iso_attempts (iso_res st) < maxAttempts opts;
      attempt (iso_world st) (seg_rows seg) (seg_skip seg) = (out, w); att_ok out; go;
      st' = st\<lparr>iso_world := w, iso_successes := iso_successes st + 1,
               iso_res := (iso_res st)\<lparr>iso_attempts := iso_attempts (iso_res st) + 1,
                   iso_delivered := iso_delivered (iso_res st) @ seg_rows seg\<rparr>,
               iso_queue := mark_bad (seg_sibling seg) (iso_queue st)\<rparr>\<rbrakk> \<Longrightarrow> P"
    and all_failed: "\<And>out w why. \<lbrakk>iso_attempts (iso_res st) < maxAttempts opts;
      attempt (iso_world st) (seg_rows seg) (seg_skip seg) = (out, w); \<not> att_ok out; \<not> go;
      iso_successes st = 0; failuresBeforeSystemic opts \<le> iso_attempts (iso_res st) + 1;
      st' = give_up why (st\<lparr>iso_world := w,
               iso_res := (iso_res st)\<lparr>iso_attempts := iso_attempts (iso_res st) + 1\<rparr>\<rparr>)\<rbrakk> \<Longrightarrow> P"
    and poison: "\<And>out w e r. \<lbrakk>iso_attempts (iso_res st) < maxAttempts opts;
      attempt (iso_world st) (seg_rows seg) (seg_skip seg) = (out, w); \<not> att_ok out; go;
      seg_rows seg = [r]; length (iso_poisoned (iso_res st)) < maxPoisoned opts;
      st' = st\<lparr>iso_world := w,
               iso_res := (iso_res st)\<lparr>iso_attempts := iso_attempts (iso_res st) + 1,
                 iso_poisoned := iso_poisoned (iso_res st) @ [\<lparr>p_row = r, p_error = e,
                     p_targets = uniq (seg_skip seg @ att_targets out)\<rparr>]\<rparr>\<rparr>\<rbrakk> \<Longrightarrow> P"
    and too_many: "\<And>out w e r why. \<lbrakk>iso_attempts (iso_res st) < maxAttempts opts;
      attempt (iso_world st) (seg_rows seg) (seg_skip seg) = (out, w); \<not> att_ok out; \<not> go;
      seg_rows seg = [r]; maxPoisoned opts \<le> length (iso_poisoned (iso_res st));
      st' = give_up why (st\<lparr>iso_world := w,
               iso_res := (iso_res st)\<lparr>iso_attempts := iso_attempts (iso_res st) + 1,
                 iso_poisoned := iso_poisoned (iso_res st) @ [\<lparr>p_row = r, p_error = e,
                     p_targets = uniq (seg_skip seg @ att_targets out)\<rparr>]\<rparr>\<rparr>)\<rbrakk> \<Longrightarrow> P"
    and halve: "\<And>out w. \<lbrakk>iso_attempts (iso_res st) < maxAttempts opts;
      attempt (iso_world st) (seg_rows seg) (seg_skip seg) = (out, w); \<not> att_ok out; go;
      length (seg_rows seg) \<noteq> 1;
      iso_successes st \<noteq> 0 \<or> iso_attempts (iso_res st) + 1 < failuresBeforeSystemic opts;
      st' = st\<lparr>iso_world := w, iso_res := (iso_res st)\<lparr>iso_attempts := iso_attempts (iso_res st) + 1\<rparr>,
               iso_queue := iso_queue st @ split_rows (next_seg st) (seg_rows seg)
                 (uniq (seg_skip seg @ att_targets out)),
               next_seg := next_seg st + 2\<rparr>\<rbrakk> \<Longrightarrow> P"
  shows P
proof -
  obtain out w where att: "attempt (iso_world st) (seg_rows seg) (seg_skip seg) = (out, w)"
    by (cases "attempt (iso_world st) (seg_rows seg) (seg_skip seg)")
  show P
  proof (cases "seg_knownBad seg \<and> 1 < length (seg_rows seg)")
    case True
    with turn split_bad show P by (auto simp: iso_turn_def)
  next
    case nb: False
    show P
    proof (cases "maxAttempts opts \<le> iso_attempts (iso_res st)")
      case True
      with turn nb budget show P by (auto simp: iso_turn_def)
    next
      case nm: False
      show P
      proof (cases "att_ok out")
        case True
        with turn nb nm att success show P by (auto simp: iso_turn_def Let_def)
      next
        case nok: False
        show P
        proof (cases "iso_successes st = 0 \<and> failuresBeforeSystemic opts \<le> iso_attempts (iso_res st) + 1")
          case True
          with turn nb nm att nok all_failed show P by (auto simp: iso_turn_def Let_def)
        next
          case ns: False
          show P
          proof (cases "length (seg_rows seg) = 1")
            case True
            then obtain r where r: "seg_rows seg = [r]" by (auto simp: length_Suc_conv)
            show P
              using turn nb nm att nok ns r poison too_many
              by (cases "maxPoisoned opts \<le> length (iso_poisoned (iso_res st))")
                (auto simp: iso_turn_def Let_def)
          next
            case False
            with turn nb nm att nok ns halve show P by (auto simp: iso_turn_def Let_def)
          qed
        qed
      qed
    qed
  qed
qed

text \<open>An invariant of the turns that go on, and what a last turn leaves, hold of the loop.\<close>

lemma iso_loop_rule:
  assumes "I st"
    and "\<And>st seg q st' go. \<lbrakk>I st; iso_queue st = seg # q;
        iso_turn attempt opts seg (st\<lparr>iso_queue := q\<rparr>) = (st', go)\<rbrakk> \<Longrightarrow> if go then I st' else J st'"
    and "\<And>st. \<lbrakk>I st; iso_queue st = []\<rbrakk> \<Longrightarrow> J st"
  shows "J (iso_loop attempt opts st)"
  using assms
proof (induction attempt opts st rule: iso_loop.induct)
  case (1 attempt opts st)
  show ?case
  proof (cases "iso_queue st")
    case Nil
    with "1.prems" show ?thesis by (simp add: iso_loop.simps [of attempt opts st])
  next
    case (Cons seg q)
    obtain st' go where t: "iso_turn attempt opts seg (st\<lparr>iso_queue := q\<rparr>) = (st', go)"
      by (cases "iso_turn attempt opts seg (st\<lparr>iso_queue := q\<rparr>)")
    have next_st: "if go then I st' else J st'" by (rule "1.prems"(2) [OF "1.prems"(1) Cons t])
    show ?thesis
    proof (cases go)
      case True
      with next_st have "I st'" by simp
      then have "J (iso_loop attempt opts st')"
        by (rule "1.IH" [OF Cons t [symmetric] True _ "1.prems"(2,3)])
      with Cons t True show ?thesis by (simp add: iso_loop.simps [of attempt opts st])
    next
      case False
      with next_st Cons t show ?thesis by (simp add: iso_loop.simps [of attempt opts st])
    qed
  qed
qed

section \<open>Every row is accounted for\<close>

definition queued_rows :: "'r segment list \<Rightarrow> 'r list" where
  "queued_rows q = concat (map seg_rows q)"

lemma queued_rows_simps [simp]:
  "queued_rows [] = []" "queued_rows (g # q) = seg_rows g @ queued_rows q"
  "queued_rows (q @ q') = queued_rows q @ queued_rows q'"
  by (simp_all add: queued_rows_def)

lemma queued_rows_mark_bad [simp]: "queued_rows (mark_bad s q) = queued_rows q"
  by (induction q) (auto simp: mark_bad_def)

lemma queued_rows_split [simp]: "queued_rows (split_rows n rs sk) = rs"
  by (simp add: split_rows_def Let_def)

definition iso_rows :: "('r, 'w) iso_state \<Rightarrow> 'r multiset" where
  "iso_rows st = mset (iso_delivered (iso_res st)) + mset (map p_row (iso_poisoned (iso_res st)))
     + mset (queued_rows (iso_queue st))"

lemma iso_rows_turn:
  assumes "iso_queue st = seg # q" "iso_turn attempt opts seg (st\<lparr>iso_queue := q\<rparr>) = (st', go)"
  shows "if go then iso_rows st' = iso_rows st \<and> iso_systemic (iso_res st') = iso_systemic (iso_res st)
    else iso_rows st' \<subseteq># iso_rows st \<and> iso_systemic (iso_res st')"
  using assms(2)
proof (cases rule: iso_turn_cases)
  case split_bad
  with assms(1) show ?thesis by (simp add: iso_rows_def)
next
  case (budget why)
  with assms(1) show ?thesis by (simp add: iso_rows_def give_up_def)
next
  case (success out w)
  with assms(1) show ?thesis by (simp add: iso_rows_def)
next
  case (all_failed out w why)
  with assms(1) show ?thesis by (simp add: iso_rows_def give_up_def)
next
  case (poison out w e r)
  with assms(1) show ?thesis by (simp add: iso_rows_def)
next
  case (too_many out w e r why)
  with assms(1) show ?thesis by (simp add: iso_rows_def give_up_def)
next
  case (halve out w)
  with assms(1) show ?thesis by (simp add: iso_rows_def)
qed

lemma iso_loop_rows:
  assumes "\<not> iso_systemic (iso_res st)"
  shows "iso_rows (iso_loop attempt opts st) \<subseteq># iso_rows st \<and>
    (\<not> iso_systemic (iso_res (iso_loop attempt opts st)) \<longrightarrow>
       iso_rows (iso_loop attempt opts st) = iso_rows st \<and>
       iso_queue (iso_loop attempt opts st) = [])"
proof (rule iso_loop_rule [where I = "\<lambda>s. iso_rows s = iso_rows st \<and> \<not> iso_systemic (iso_res s)"])
  show "iso_rows st = iso_rows st \<and> \<not> iso_systemic (iso_res st)" using assms by simp
next
  fix s seg q s' go
  assume "iso_rows s = iso_rows st \<and> \<not> iso_systemic (iso_res s)" "iso_queue s = seg # q"
    "iso_turn attempt opts seg (s\<lparr>iso_queue := q\<rparr>) = (s', go)"
  with iso_rows_turn [of s seg q attempt opts s' go]
  show "if go then iso_rows s' = iso_rows st \<and> \<not> iso_systemic (iso_res s')
    else iso_rows s' \<subseteq># iso_rows st \<and>
      (\<not> iso_systemic (iso_res s') \<longrightarrow> iso_rows s' = iso_rows st \<and> iso_queue s' = [])"
    by (auto split: if_splits)
qed auto


lemma isolateFailures_cases [case_names none one many]:
  assumes "rs = [] \<Longrightarrow> P" and "\<And>r. rs = [r] \<Longrightarrow> P"
    and "\<lbrakk>1 < length rs; isolateFailures attempt opts rs w =
        (iso_res (iso_loop attempt opts (iso_start rs opts w)),
         iso_world (iso_loop attempt opts (iso_start rs opts w)))\<rbrakk> \<Longrightarrow> P"
  shows P
  using assms by (cases rs; cases "tl rs") (auto simp: isolateFailures_def Let_def)

lemma iso_start_simps [simp]:
  "iso_rows (iso_start rs opts w) = mset rs" "iso_res (iso_start rs opts w) = empty_result"
  "\<not> iso_systemic empty_result" "iso_attempts empty_result = 0"
  "iso_poisoned empty_result = []" "iso_delivered empty_result = []"
  by (simp_all add: iso_rows_def iso_start_def empty_result_def)

lemma isolate_rows:
  fixes attempt :: "('r, 'w) attempt_fn" and rs :: "'r list" and opts :: isolation_options and w :: 'w
  defines "r \<equiv> fst (isolateFailures attempt opts rs w)"
  shows "mset (iso_delivered r) + mset (map p_row (iso_poisoned r)) \<subseteq># mset rs"
    and "\<not> iso_systemic r \<Longrightarrow>
      mset (iso_delivered r) + mset (map p_row (iso_poisoned r)) = mset rs"
proof -
  let ?fin = "iso_loop attempt opts (iso_start rs opts w)"
  have loop: "iso_rows ?fin \<subseteq># mset rs \<and> (\<not> iso_systemic (iso_res ?fin) \<longrightarrow>
      iso_rows ?fin = mset rs \<and> iso_queue ?fin = [])"
    using iso_loop_rows [of "iso_start rs opts w" attempt opts] by simp
  have sub: "mset (iso_delivered (iso_res ?fin)) + mset (map p_row (iso_poisoned (iso_res ?fin)))
      \<subseteq># iso_rows ?fin"
    by (simp add: iso_rows_def)
  show "mset (iso_delivered r) + mset (map p_row (iso_poisoned r)) \<subseteq># mset rs"
  proof (cases rule: isolateFailures_cases [of rs _ attempt opts w])
    case many
    with loop sub show ?thesis unfolding r_def by (auto intro: subset_mset.order_trans)
  qed (auto simp: r_def isolateFailures_def empty_result_def)
  show "mset (iso_delivered r) + mset (map p_row (iso_poisoned r)) = mset rs"
    if ns: "\<not> iso_systemic r"
  proof (cases rule: isolateFailures_cases [of rs _ attempt opts w])
    case many
    with loop ns show ?thesis unfolding r_def by (auto simp: iso_rows_def)
  qed (auto simp: r_def isolateFailures_def empty_result_def)
qed

section \<open>Against a destination that judges each row on its own\<close>

text \<open>
  \<open>rowwise bad attempt\<close>: a delivery succeeds exactly when it holds no bad row, whatever
  else the destination has been sent. This is the destination the search is made for.
\<close>

definition rowwise :: "('r \<Rightarrow> bool) \<Rightarrow> ('r, 'w) attempt_fn \<Rightarrow> bool" where
  "rowwise bad attempt = (\<forall>w rs sk. att_ok (fst (attempt w rs sk)) = (\<forall>r \<in> set rs. \<not> bad r))"

lemma rowwiseD: "rowwise bad attempt \<Longrightarrow> attempt w rs sk = (out, w') \<Longrightarrow>
    att_ok out = (\<forall>r \<in> set rs. \<not> bad r)"
  by (metis fst_conv rowwise_def)

definition iso_judged :: "('r \<Rightarrow> bool) \<Rightarrow> 'r isolation_result \<Rightarrow> bool" where
  "iso_judged bad r = ((\<forall>x \<in> set (iso_delivered r). \<not> bad x) \<and>
     (\<forall>x \<in> set (map p_row (iso_poisoned r)). bad x))"

lemma iso_judged_turn:
  assumes "rowwise bad attempt" "iso_judged bad (iso_res st)"
    "iso_turn attempt opts seg st = (st', go)"
  shows "iso_judged bad (iso_res st')"
  using assms(3)
proof (cases rule: iso_turn_cases)
  case (success out w)
  with assms rowwiseD [OF assms(1) success(2)] show ?thesis by (auto simp: iso_judged_def)
next
  case (poison out w e r)
  with assms rowwiseD [OF assms(1) poison(2)] show ?thesis by (auto simp: iso_judged_def)
next
  case (too_many out w e r why)
  with assms rowwiseD [OF assms(1) too_many(2)] show ?thesis
    by (auto simp: iso_judged_def give_up_def)
qed (use assms(2) in \<open>simp_all add: iso_judged_def give_up_def\<close>)

lemma iso_loop_judged:
  assumes "rowwise bad attempt" "iso_judged bad (iso_res st)"
  shows "iso_judged bad (iso_res (iso_loop attempt opts st))"
proof (rule iso_loop_rule [where I = "\<lambda>s. iso_judged bad (iso_res s)"])
  fix s seg q s' go
  assume "iso_judged bad (iso_res s)" "iso_turn attempt opts seg (s\<lparr>iso_queue := q\<rparr>) = (s', go)"
  with iso_judged_turn [OF assms(1), of "s\<lparr>iso_queue := q\<rparr>" opts seg s' go]
  show "if go then iso_judged bad (iso_res s') else iso_judged bad (iso_res s')" by simp
qed (use assms(2) in simp_all)

lemma judged_partition:
  assumes "mset ds + mset ps = mset rs" "\<forall>x \<in> set ds. \<not> bad x" "\<forall>x \<in> set ps. bad x"
  shows "mset ds = filter_mset (\<lambda>x. \<not> bad x) (mset rs) \<and> mset ps = filter_mset bad (mset rs)"
proof -
  have d: "filter_mset (\<lambda>x. \<not> bad x) (mset ds) = mset ds" "filter_mset bad (mset ds) = {#}"
    and p: "filter_mset (\<lambda>x. \<not> bad x) (mset ps) = {#}" "filter_mset bad (mset ps) = mset ps"
    using assms(2,3) by (auto simp: filter_mset_eq_conv)
  have "filter_mset bad (mset rs) = mset ps" "filter_mset (\<lambda>x. \<not> bad x) (mset rs) = mset ds"
    using d p by (simp_all flip: assms(1))
  then show ?thesis by simp
qed

section \<open>Budgets\<close>

definition iso_within :: "isolation_options \<Rightarrow> 'r isolation_result \<Rightarrow> bool" where
  "iso_within opts r = (iso_attempts r \<le> maxAttempts opts \<and>
     length (iso_poisoned r) \<le> (if iso_systemic r then maxPoisoned opts + 1 else maxPoisoned opts))"

lemma iso_loop_within:
  assumes "iso_within opts (iso_res st)" "\<not> iso_systemic (iso_res st)"
  shows "iso_within opts (iso_res (iso_loop attempt opts st))"
proof (rule iso_loop_rule [where I = "\<lambda>s. iso_within opts (iso_res s) \<and> \<not> iso_systemic (iso_res s)"])
  fix s seg q s' go
  assume I: "iso_within opts (iso_res s) \<and> \<not> iso_systemic (iso_res s)"
    and t: "iso_turn attempt opts seg (s\<lparr>iso_queue := q\<rparr>) = (s', go)"
  from t show "if go then iso_within opts (iso_res s') \<and> \<not> iso_systemic (iso_res s')
      else iso_within opts (iso_res s')"
    by (cases rule: iso_turn_cases) (use I in \<open>auto simp: iso_within_def give_up_def\<close>)
qed (use assms in simp_all)

text \<open>
  The whole search of \<open>n\<close> rows is a binary tree with \<open>2 * n - 1\<close> nodes, and its root has
  already been tried.
\<close>

definition seg_cost :: "'r segment \<Rightarrow> nat" where
  "seg_cost g = 2 * length (seg_rows g) - 1"

definition iso_cost :: "('r, 'w) iso_state \<Rightarrow> nat" where
  "iso_cost st = iso_attempts (iso_res st) + sum_list (map seg_cost (iso_queue st))"

definition iso_segs_ok :: "('r, 'w) iso_state \<Rightarrow> bool" where
  "iso_segs_ok st = (\<forall>g \<in> set (iso_queue st). seg_rows g \<noteq> [])"

lemma seg_cost_mark_bad [simp]: "map seg_cost (mark_bad s q) = map seg_cost q"
  by (simp add: mark_bad_def seg_cost_def)

lemma sum_cost_split:
  "1 < length rs \<Longrightarrow> sum_list (map seg_cost (split_rows n rs sk)) = 2 * length rs - 2"
  by (simp add: split_rows_def Let_def seg_cost_def)

lemma segs_ok_split: "1 < length rs \<Longrightarrow> g \<in> set (split_rows n rs sk) \<Longrightarrow> seg_rows g \<noteq> []"
  by (auto simp: split_rows_def Let_def)


definition roomy :: "('r \<Rightarrow> bool) \<Rightarrow> isolation_options \<Rightarrow> 'r list \<Rightarrow> bool" where
  "roomy bad opts rs = (2 * length rs - 2 \<le> maxAttempts opts \<and>
     2 * length rs - 2 < failuresBeforeSystemic opts \<and>
     length (filter bad rs) \<le> maxPoisoned opts)"

definition iso_on_course :: "('r \<Rightarrow> bool) \<Rightarrow> 'r list \<Rightarrow> ('r, 'w) iso_state \<Rightarrow> bool" where
  "iso_on_course bad rs st = (iso_segs_ok st \<and> iso_cost st \<le> 2 * length rs - 2 \<and>
     iso_rows st = mset rs \<and> iso_judged bad (iso_res st) \<and> \<not> iso_systemic (iso_res st))"

lemma poisoned_count:
  assumes "iso_judged bad r" "bad x"
    "mset (iso_delivered r) + mset (map p_row (iso_poisoned r)) + add_mset x M = mset rs"
  shows "length (iso_poisoned r) < length (filter bad rs)"
proof -
  have "filter_mset bad (mset (map p_row (iso_poisoned r))) = mset (map p_row (iso_poisoned r))"
    using assms(1) by (auto simp: iso_judged_def filter_mset_eq_conv)
  with arg_cong [OF assms(3), of "\<lambda>m. size (filter_mset bad m)"] assms(2)
  have "length (iso_poisoned r) + 1 \<le> size (filter_mset bad (mset rs))"
    by simp
  then show ?thesis by (simp add: size_mset flip: mset_filter)
qed

lemma on_course_costs:
  assumes "iso_on_course bad rs st" "iso_queue st = seg # q" "roomy bad opts rs"
  shows "iso_attempts (iso_res st) < maxAttempts opts"
    and "iso_attempts (iso_res st) + 1 < failuresBeforeSystemic opts"
proof -
  have "0 < seg_cost seg" using assms by (cases "seg_rows seg") (auto simp: iso_on_course_def iso_segs_ok_def seg_cost_def)
  with assms show "iso_attempts (iso_res st) < maxAttempts opts"
    "iso_attempts (iso_res st) + 1 < failuresBeforeSystemic opts"
    by (auto simp: iso_on_course_def iso_cost_def roomy_def)
qed

lemma iso_on_course_turn:
  assumes rw: "rowwise bad attempt" and room: "roomy bad opts rs"
    and I: "iso_on_course bad rs st" and q: "iso_queue st = seg # q"
    and t: "iso_turn attempt opts seg (st\<lparr>iso_queue := q\<rparr>) = (st', go)"
  shows "go \<and> iso_on_course bad rs st'"
proof -
  note cost = on_course_costs [OF I q room]
  have judged: "iso_judged bad (iso_res st')"
    using iso_judged_turn [OF rw _ t] I by (simp add: iso_on_course_def)
  have total: "go \<Longrightarrow> iso_rows st' = mset rs \<and> \<not> iso_systemic (iso_res st')"
    using iso_rows_turn [OF q t] I by (simp add: iso_on_course_def)
  have ne: "seg_rows seg \<noteq> []" and segs: "\<forall>g \<in> set q. seg_rows g \<noteq> []"
    using I q by (auto simp: iso_on_course_def iso_segs_ok_def)
  have c: "iso_attempts (iso_res st) + seg_cost seg + sum_list (map seg_cost q) \<le> 2 * length rs - 2"
    using I q by (simp add: iso_on_course_def iso_cost_def)
  from t have "go \<and> iso_segs_ok st' \<and> iso_cost st' \<le> 2 * length rs - 2"
  proof (cases rule: iso_turn_cases)
    case split_bad
    with segs c sum_cost_split [of "seg_rows seg" "next_seg st" "seg_skip seg"] show ?thesis
      by (auto simp: iso_segs_ok_def iso_cost_def seg_cost_def segs_ok_split)
  next
    case (budget why)
    with cost show ?thesis by simp
  next
    case (success out w)
    have "\<forall>g \<in> set (mark_bad (seg_sibling seg) q). seg_rows g \<noteq> []"
      using segs by (auto simp: mark_bad_def)
    moreover have "0 < seg_cost seg" using ne by (cases "seg_rows seg") (auto simp: seg_cost_def)
    ultimately show ?thesis using success c by (simp add: iso_segs_ok_def iso_cost_def)
  next
    case (all_failed out w why)
    with cost show ?thesis by simp
  next
    case (poison out w e r)
    with segs c show ?thesis by (auto simp: iso_segs_ok_def iso_cost_def seg_cost_def)
  next
    case (too_many out w e r why)
    have "bad r" using rowwiseD [OF rw too_many(2)] too_many(3,5) by simp
    moreover have "mset (iso_delivered (iso_res st)) + mset (map p_row (iso_poisoned (iso_res st)))
        + add_mset r (mset (queued_rows q)) = mset rs"
      using I q too_many(5) by (simp add: iso_on_course_def iso_rows_def)
    ultimately have "length (iso_poisoned (iso_res st)) < length (filter bad rs)"
      using poisoned_count [of bad "iso_res st" r] I by (simp add: iso_on_course_def)
    with too_many(6) room show ?thesis by (simp add: roomy_def)
  next
    case (halve out w)
    from ne halve(5) have "1 < length (seg_rows seg)" by (cases "seg_rows seg") auto
    with halve segs c sum_cost_split [of "seg_rows seg"] show ?thesis
      by (auto simp: iso_segs_ok_def iso_cost_def seg_cost_def segs_ok_split)
  qed
  with judged total show ?thesis by (simp add: iso_on_course_def)
qed

lemma iso_on_course_start:
  assumes "1 < length rs" shows "iso_on_course bad rs (iso_start rs opts w)"
  using assms sum_cost_split [OF assms, of 0 "uniq (alreadySucceeded opts)"]
  by (auto simp: iso_on_course_def iso_segs_ok_def iso_cost_def iso_judged_def iso_start_def
      segs_ok_split iso_rows_def empty_result_def)

lemma iso_not_systemic:
  assumes "rowwise bad attempt" "roomy bad opts rs"
  shows "\<not> iso_systemic (fst (isolateFailures attempt opts rs w))"
proof (cases rule: isolateFailures_cases [of rs _ attempt opts w])
  case many
  have "\<not> iso_systemic (iso_res (iso_loop attempt opts (iso_start rs opts w)))"
  proof (rule iso_loop_rule [where I = "iso_on_course bad rs"])
    show "iso_on_course bad rs (iso_start rs opts w)" by (rule iso_on_course_start) (rule many)
  next
    fix st seg q st' go
    assume "iso_on_course bad rs st" "iso_queue st = seg # q"
      "iso_turn attempt opts seg (st\<lparr>iso_queue := q\<rparr>) = (st', go)"
    from iso_on_course_turn [OF assms this]
    show "if go then iso_on_course bad rs st' else \<not> iso_systemic (iso_res st')" by simp
  qed (simp add: iso_on_course_def)
  with many show ?thesis by simp
qed (simp_all add: isolateFailures_def empty_result_def)


section \<open>What each delivery attempt is given\<close>

text \<open>
  A destination that records the calls made to it: the rows, the targets it was told to
  leave alone, and what it answered.
\<close>

type_synonym 'r call = "'r list \<times> string list \<times> isolation_attempt"

definition recording :: "('r list \<Rightarrow> string list \<Rightarrow> isolation_attempt) \<Rightarrow> ('r, 'r call list) attempt_fn" where
  "recording f = (\<lambda>log rs sk. (f rs sk, log @ [(rs, sk, f rs sk)]))"

text \<open>A later call on any of the rows of a failed call leaves alone what that call wrote.\<close>

definition honours :: "'r call \<Rightarrow> 'r list \<Rightarrow> string list \<Rightarrow> bool" where
  "honours c rs sk = (case c of (crs, csk, out) \<Rightarrow>
     (set crs \<inter> set rs \<noteq> {} \<longrightarrow> \<not> att_ok out \<and> set csk \<union> set (att_targets out) \<subseteq> set sk))"

definition log_ok :: "'r call list \<Rightarrow> bool" where
  "log_ok log = (\<forall>j < length log. \<forall>i < j. honours (log ! i) (fst (log ! j)) (fst (snd (log ! j))))"

lemma log_ok_snoc:
  "log_ok (log @ [(rs, sk, out)]) \<longleftrightarrow> log_ok log \<and> (\<forall>c \<in> set log. honours c rs sk)"
proof -
  have "(\<forall>c \<in> set log. honours c rs sk) \<longleftrightarrow> (\<forall>i < length log. honours (log ! i) rs sk)"
    by (simp add: all_set_conv_all_nth)
  then show ?thesis
    by (auto simp: log_ok_def nth_append less_Suc_eq simp del: split_paired_All)
qed

definition iso_log_inv :: "string list \<Rightarrow> ('r, 'r call list) iso_state \<Rightarrow> bool" where
  "iso_log_inv base st = (log_ok (iso_world st) \<and> distinct (queued_rows (iso_queue st)) \<and>
     (\<forall>c \<in> set (iso_world st). \<forall>g \<in> set (iso_queue st). honours c (seg_rows g) (seg_skip g)) \<and>
     (\<forall>g \<in> set (iso_queue st). set base \<subseteq> set (seg_skip g)) \<and>
     (\<forall>c \<in> set (iso_world st). set base \<subseteq> set (fst (snd c))))"

lemma honours_mono:
  "honours c rs sk \<Longrightarrow> set rs' \<subseteq> set rs \<Longrightarrow> set sk \<subseteq> set sk' \<Longrightarrow> honours c rs' sk'"
  by (fastforce simp: honours_def split: prod.splits)

lemma honours_disjoint: "set (fst c) \<inter> set rs = {} \<Longrightarrow> honours c rs sk"
  by (auto simp: honours_def split: prod.splits)

lemma split_rows_parts:
  "g \<in> set (split_rows n rs sk) \<Longrightarrow> set (seg_rows g) \<subseteq> set rs \<and> seg_skip g = sk"
  by (auto simp: split_rows_def Let_def dest: in_set_takeD in_set_dropD)

lemma mark_bad_parts:
  "g \<in> set (mark_bad s q) \<Longrightarrow> \<exists>g' \<in> set q. seg_rows g = seg_rows g' \<and> seg_skip g = seg_skip g'"
  by (auto simp: mark_bad_def split: if_splits intro: bexI)

lemma queued_rows_mem: "g \<in> set q \<Longrightarrow> set (seg_rows g) \<subseteq> set (queued_rows q)"
  by (induction q) auto

lemma iso_log_inv_turn:
  assumes I: "iso_log_inv base st" and q: "iso_queue st = seg # q"
    and t: "iso_turn (recording f) opts seg (st\<lparr>iso_queue := q\<rparr>) = (st', go)"
  shows "if go then iso_log_inv base st' else log_ok (iso_world st') \<and>
      (\<forall>c \<in> set (iso_world st'). set base \<subseteq> set (fst (snd c)))"
proof -
  have dist: "distinct (seg_rows seg)" "distinct (queued_rows q)"
      "set (seg_rows seg) \<inter> set (queued_rows q) = {}"
    and logged: "log_ok (iso_world st)"
    and resp: "\<forall>c \<in> set (iso_world st). honours c (seg_rows seg) (seg_skip seg)"
    and respq: "\<forall>c \<in> set (iso_world st). \<forall>g \<in> set q. honours c (seg_rows g) (seg_skip g)"
    and base: "set base \<subseteq> set (seg_skip seg)" "\<forall>g \<in> set q. set base \<subseteq> set (seg_skip g)"
    and baselog: "\<forall>c \<in> set (iso_world st). set base \<subseteq> set (fst (snd c))"
    using I q by (auto simp: iso_log_inv_def)
  let ?c = "\<lambda>out. (seg_rows seg, seg_skip seg, out)"
  have fresh: "honours (?c out) (seg_rows g) (seg_skip g)" if "g \<in> set q" for out g
    using queued_rows_mem [OF that] dist(3) by (intro honours_disjoint) auto
  have snoc: "log_ok (iso_world st @ [?c out])" for out
    using logged resp by (simp add: log_ok_snoc)
  from t show ?thesis
  proof (cases rule: iso_turn_cases)
    case split_bad
    have parts: "honours c (seg_rows g) (seg_skip g)"
      if "c \<in> set (iso_world st)" "g \<in> set (split_rows (next_seg st) (seg_rows seg) (seg_skip seg))" for c g
      using split_rows_parts [OF that(2)] resp that(1) by (auto intro: honours_mono)
    moreover have "\<forall>g \<in> set (split_rows (next_seg st) (seg_rows seg) (seg_skip seg)).
        set base \<subseteq> set (seg_skip g)"
      using split_rows_parts base(1) by fastforce
    ultimately show ?thesis
      using split_bad logged dist respq base baselog by (auto simp: iso_log_inv_def ball_Un)
  next
    case (budget why)
    with logged baselog show ?thesis by (simp add: give_up_def)
  next
    case (success out w)
    have "\<forall>c \<in> set (iso_world st @ [?c out]). \<forall>g \<in> set (mark_bad (seg_sibling seg) q).
        honours c (seg_rows g) (seg_skip g)"
      using mark_bad_parts respq fresh by fastforce
    moreover have "\<forall>g \<in> set (mark_bad (seg_sibling seg) q). set base \<subseteq> set (seg_skip g)"
      using mark_bad_parts base(2) by fastforce
    moreover have "w = iso_world st @ [?c out]" using success(2) by (auto simp: recording_def)
    ultimately show ?thesis
      using success snoc [of out] dist(2) base(1) baselog by (simp add: iso_log_inv_def)
  next
    case (all_failed out w why)
    then have "w = iso_world st @ [?c out]" by (auto simp: recording_def)
    with all_failed snoc [of out] base(1) baselog show ?thesis by (simp add: give_up_def)
  next
    case (poison out w e r)
    then have "w = iso_world st @ [?c out]" by (auto simp: recording_def)
    moreover have "\<forall>g \<in> set q. honours (?c out) (seg_rows g) (seg_skip g)" using fresh by simp
    ultimately show ?thesis
      using poison snoc [of out] dist(2) respq base baselog by (simp add: iso_log_inv_def)
  next
    case (too_many out w e r why)
    then have "w = iso_world st @ [?c out]" by (auto simp: recording_def)
    with too_many snoc [of out] base(1) baselog show ?thesis by (simp add: give_up_def)
  next
    case (halve out w)
    let ?sk = "uniq (seg_skip seg @ att_targets out)"
    let ?new = "set (split_rows (next_seg st) (seg_rows seg) ?sk)"
    have sk: "set (seg_skip seg) \<union> set (att_targets out) = set ?sk" by simp
    have parts: "honours c (seg_rows g) (seg_skip g)"
      if "c \<in> set (iso_world st @ [?c out])" "g \<in> ?new" for c g
    proof (cases "c \<in> set (iso_world st)")
      case True
      with resp split_rows_parts [OF that(2)] sk show ?thesis
        by (metis Un_upper1 honours_mono)
    next
      case False
      with that(1) have "c = ?c out" by simp
      with halve(3) split_rows_parts [OF that(2)] sk show ?thesis
        by (auto simp: honours_def)
    qed
    have new: "\<forall>c \<in> set (iso_world st @ [?c out]). \<forall>g \<in> ?new. honours c (seg_rows g) (seg_skip g)"
      using parts by blast
    have old: "\<forall>c \<in> set (iso_world st @ [?c out]). \<forall>g \<in> set q. honours c (seg_rows g) (seg_skip g)"
      using fresh respq by auto
    have "\<forall>g \<in> ?new. set base \<subseteq> set (seg_skip g)"
      using split_rows_parts base(1) by fastforce
    moreover have "w = iso_world st @ [?c out]" using halve by (auto simp: recording_def)
    ultimately show ?thesis
      using halve snoc [of out] dist new old base baselog by (simp add: iso_log_inv_def ball_Un Int_commute)
  qed
qed

lemma isolate_log:
  assumes "distinct rs"
  shows "log_ok (snd (isolateFailures (recording f) opts rs [])) \<and>
    (\<forall>c \<in> set (snd (isolateFailures (recording f) opts rs [])). set (alreadySucceeded opts) \<subseteq> set (fst (snd c)))"
proof (cases rule: isolateFailures_cases [of rs _ "recording f" opts "[]"])
  case many
  let ?J = "\<lambda>st. log_ok (iso_world st) \<and>
      (\<forall>c \<in> set (iso_world st). set (alreadySucceeded opts) \<subseteq> set (fst (snd c)))"
  have "?J (iso_loop (recording f) opts (iso_start rs opts []))"
  proof (rule iso_loop_rule [where I = "iso_log_inv (alreadySucceeded opts)"])
    show "iso_log_inv (alreadySucceeded opts) (iso_start rs opts [])"
      using assms by (auto simp: iso_log_inv_def iso_start_def log_ok_def dest: split_rows_parts)
  next
    fix st seg q st' go
    assume "iso_log_inv (alreadySucceeded opts) st" "iso_queue st = seg # q"
      "iso_turn (recording f) opts seg (st\<lparr>iso_queue := q\<rparr>) = (st', go)"
    from iso_log_inv_turn [OF this]
    show "if go then iso_log_inv (alreadySucceeded opts) st' else ?J st'" .
  qed (auto simp: iso_log_inv_def)
  with many show ?thesis by simp
qed (simp_all add: isolateFailures_def log_ok_def)


section \<open>Properties\<close>

text \<open>
  C12: When the search does not give up, every row of the failed batch is either delivered
  or set aside, exactly once each: no row is lost and none is counted twice.
\<close>

theorem isolate_partition:
  assumes "\<not> iso_systemic (fst (isolateFailures attempt opts rs w))"
  shows "mset (iso_delivered (fst (isolateFailures attempt opts rs w)))
      + mset (map p_row (iso_poisoned (fst (isolateFailures attempt opts rs w)))) = mset rs"
  using assms by (rule isolate_rows(2))

text \<open>A destination that refuses odd numbers, and the production limits.\<close>

definition odd_sink :: "(nat, unit) attempt_fn" where
  "odd_sink = (\<lambda>w rs sk. (\<lparr>att_ok = list_all even rs, att_error = Some ''odd'', att_targets = []\<rparr>, w))"

definition production_limits :: isolation_options where
  "production_limits = \<lparr>batchError = Some ''odd'', alreadySucceeded = [], maxAttempts = 128,
     maxPoisoned = 100, failuresBeforeSystemic = 14\<rparr>"

lemma odd_sink_run:
  "fst (isolateFailures odd_sink production_limits [2, 4, 5, 6, 8] ()) =
     \<lparr>iso_delivered = [6, 8, 2, 4], iso_poisoned = [\<lparr>p_row = 5, p_error = ''odd'', p_targets = []\<rparr>],
      iso_systemic = False, iso_reason = None, iso_attempts = 4\<rparr>"
  by code_simp

theorem isolate_partition_witness:
  "mset [6, 8, 2, 4] + mset [5] = mset [2, 4, 5, 6, 8 :: nat]"
  using isolate_partition [of odd_sink production_limits "[2, 4, 5, 6, 8]" "()"]
  by (simp add: odd_sink_run)

text \<open>
  C14: Against a destination that refuses a group exactly when it holds a bad row, and with
  budgets that allow the whole search tree, the search ends without giving up, what it
  delivered is the good rows and what it set aside is the bad ones.
\<close>

theorem isolate_exact:
  assumes "rowwise bad attempt" and "1 < length rs" and "roomy bad opts rs"
  shows "\<not> iso_systemic (fst (isolateFailures attempt opts rs w)) \<and>
    mset (iso_delivered (fst (isolateFailures attempt opts rs w))) =
      filter_mset (\<lambda>x. \<not> bad x) (mset rs) \<and>
    mset (map p_row (iso_poisoned (fst (isolateFailures attempt opts rs w)))) =
      filter_mset bad (mset rs)"
proof -
  let ?r = "fst (isolateFailures attempt opts rs w)"
  have ns: "\<not> iso_systemic ?r" by (rule iso_not_systemic) (use assms in simp_all)
  have "iso_judged bad ?r"
    using assms(2) iso_loop_judged [OF assms(1), of "iso_start rs opts w" opts]
    by (cases rule: isolateFailures_cases [of rs _ attempt opts w])
      (simp_all add: iso_judged_def)
  with isolate_rows(2) [OF ns] ns show ?thesis
    using judged_partition [of "iso_delivered ?r" "map p_row (iso_poisoned ?r)" rs bad]
    by (simp add: iso_judged_def)
qed

definition wide_limits :: isolation_options where
  "wide_limits = \<lparr>batchError = None, alreadySucceeded = [''t1''], maxAttempts = 8,
     maxPoisoned = 3, failuresBeforeSystemic = 9\<rparr>"

theorem isolate_exact_witness:
  "mset (iso_delivered (fst (isolateFailures odd_sink wide_limits [1, 2, 3, 4, 5] ()))) = {#2, 4#}"
proof -
  have "rowwise odd odd_sink"
    by (auto simp: rowwise_def odd_sink_def list_all_iff)
  moreover have "roomy odd wide_limits [1, 2, 3, 4, 5 :: nat]"
    by (simp add: roomy_def wide_limits_def)
  ultimately show ?thesis
    using isolate_exact [of odd odd_sink "[1, 2, 3, 4, 5]" wide_limits "()"] by simp
qed

text \<open>
  C15: Whatever the destination answers, the search returns, makes at most
  \<^verbatim>\<open>maxAttempts\<close> deliveries, and sets aside at most \<^verbatim>\<open>maxPoisoned\<close>
  rows unless it gives up (then the one row over the limit is in the list as well).
\<close>

theorem isolate_budget:
  assumes "1 < length rs"
  shows "iso_attempts (fst (isolateFailures attempt opts rs w)) \<le> maxAttempts opts \<and>
    length (iso_poisoned (fst (isolateFailures attempt opts rs w))) \<le>
      (if iso_systemic (fst (isolateFailures attempt opts rs w)) then maxPoisoned opts + 1
       else maxPoisoned opts)"
  using assms iso_loop_within [of opts "iso_start rs opts w" attempt]
  by (cases rule: isolateFailures_cases [of rs _ attempt opts w]) (simp_all add: iso_within_def)

definition dead_sink :: "(nat, unit) attempt_fn" where
  "dead_sink = (\<lambda>w rs sk. (\<lparr>att_ok = False, att_error = None, att_targets = []\<rparr>, w))"

theorem isolate_budget_witness:
  "iso_attempts (fst (isolateFailures dead_sink production_limits [1, 2, 3] ())) \<le> 128"
  using isolate_budget [of "[1, 2, 3]" dead_sink production_limits "()"]
  by (simp add: production_limits_def)

text \<open>
  C13: No row is written twice to a target that took it. Every delivery attempt leaves alone
  the targets the full batch had already committed to; and when an attempt is made on a row
  that an earlier attempt carried, that earlier attempt failed, and the later one leaves
  alone every target it reported as committed.
\<close>

theorem isolate_skips_committed_targets:
  assumes "distinct rs"
  shows "log_ok (snd (isolateFailures (recording f) opts rs [])) \<and>
    (\<forall>c \<in> set (snd (isolateFailures (recording f) opts rs [])).
       set (alreadySucceeded opts) \<subseteq> set (fst (snd c)))"
  using assms by (rule isolate_log)

theorem isolate_skips_committed_targets_witness:
  "log_ok (snd (isolateFailures
     (recording (\<lambda>rs sk. \<lparr>att_ok = list_all even rs, att_error = None, att_targets = [''t2'']\<rparr>))
     wide_limits [1, 2, 3 :: nat] []))"
  using isolate_skips_committed_targets [of "[1, 2, 3 :: nat]"] by simp

end
