(* ===== verification/Postgres_Lsn.thy ===== *)
theory Postgres_Lsn
  imports Bridge_Config "HOL-Library.Product_Lexorder"
begin

text \<open>
  Positions in a PostgreSQL change stream,
  \<^verbatim>\<open>apps/api/src/bridges/cdc/providers/postgres-lsn.ts\<close>. A \<^verbatim>\<open>bigint\<close> is an
  \<open>int\<close>; a parse that throws is \<open>None\<close>.
\<close>

unbundle bit_operations_syntax

section \<open>LSN text\<close>

definition lsn_part :: "string \<Rightarrow> bool" where
  "lsn_part s = (s \<noteq> [] \<and> length s \<le> 8 \<and> list_all (\<lambda>c. hex_digit c \<noteq> None) s)"

definition hex_value :: "string \<Rightarrow> int" where
  "hex_value s = (case read_radix 16 0 s of None \<Rightarrow> 0 | Some n \<Rightarrow> int n)"

text \<open>\<^verbatim>\<open>lsnValue\<close>: exactly two hexadecimal parts of at most 32 bits each.\<close>

definition lsnValue :: "string \<Rightarrow> int option" where
  "lsnValue text =
     (case split_on (CHR ''/'') text of
        [h, lo] \<Rightarrow>
          if lsn_part h \<and> lsn_part lo then Some (push_bit 32 (hex_value h) OR hex_value lo) else None
      | _ \<Rightarrow> None)"

definition hex_upper :: "nat \<Rightarrow> char" where
  "hex_upper d = (if d < 10 then char_of (48 + d) else char_of (55 + d))"

fun show_hex :: "nat \<Rightarrow> string" where
  "show_hex n = (if n < 16 then [hex_upper n] else show_hex (n div 16) @ [hex_upper (n mod 16)])"

declare show_hex.simps [simp del]

definition formatLsn :: "int \<Rightarrow> string" where
  "formatLsn v =
     show_hex (nat (drop_bit 32 v)) @ CHR ''/'' # show_hex (nat (v AND 0xFFFFFFFF))"

section \<open>Cursors\<close>

record pg_position =
  pos_commit :: int
  pos_change :: int
  pos_ordinal :: int
  pos_ack :: "string option"

definition END_MARK :: int where
  "END_MARK = 18446744073709551616"

text \<open>\<^verbatim>\<open>Number(text)\<close> followed by \<^verbatim>\<open>Number.isInteger\<close> and the sign test.\<close>

definition ordinal_of :: "string \<Rightarrow> int option" where
  "ordinal_of s =
     (case js_number_of_string s of
        Num q \<Rightarrow> if of_int \<lfloor>q\<rfloor> = q \<and> 0 \<le> q then Some \<lfloor>q\<rfloor> else None
      | _ \<Rightarrow> None)"

text \<open>\<^verbatim>\<open>s.lastIndexOf(c)\<close>: what is before it and after it.\<close>

definition split_last :: "char \<Rightarrow> string \<Rightarrow> (string \<times> string) option" where
  "split_last c s =
     (if c \<in> set s then
        (let r = rev s; after = takeWhile (\<lambda>x. x \<noteq> c) r
         in Some (rev (drop (length after + 1) r), rev after))
      else None)"

definition parsePgCursor :: "string \<Rightarrow> pg_position option" where
  "parsePgCursor cursor =
     (if CHR ''#'' \<notin> set cursor then
        map_option (\<lambda>v. \<lparr>pos_commit = v, pos_change = - 1, pos_ordinal = 0, pos_ack = Some cursor\<rparr>)
          (lsnValue cursor)
      else
        (let before = takeWhile (\<lambda>x. x \<noteq> CHR ''#'') cursor; rest = drop (length before + 1) cursor
         in case lsnValue before of
              None \<Rightarrow> None
            | Some commit \<Rightarrow>
                (if starts_with rest ''c:'' then
                   (case lsnValue (drop 2 rest) of
                      None \<Rightarrow> None
                    | Some _ \<Rightarrow> Some \<lparr>pos_commit = commit, pos_change = END_MARK, pos_ordinal = 0,
                                       pos_ack = Some (drop 2 rest)\<rparr>)
                 else
                   (case split_last (CHR ''.'') rest of
                      None \<Rightarrow> None
                    | Some (lsn, ord) \<Rightarrow>
                        (case (ordinal_of ord, lsnValue lsn) of
                           (Some k, Some ch) \<Rightarrow> Some \<lparr>pos_commit = commit, pos_change = ch,
                                                      pos_ordinal = k, pos_ack = None\<rparr>
                         | _ \<Rightarrow> None)))))"

definition lsnAfter :: "string \<Rightarrow> string option \<Rightarrow> bool" where
  "lsnAfter a b =
     (case b of
        None \<Rightarrow> True
      | Some b' \<Rightarrow>
          if b' = [] then True
          else
          (case (parsePgCursor a, parsePgCursor b') of
             (Some pa, Some pb) \<Rightarrow>
               if pos_commit pa \<noteq> pos_commit pb then pos_commit pb < pos_commit pa
               else if pos_change pa \<noteq> pos_change pb then pos_change pb < pos_change pa
               else pos_ordinal pb < pos_ordinal pa
           | _ \<Rightarrow> False))"

definition normalizeLsn :: "string \<Rightarrow> string" where
  "normalizeLsn lsn = (case lsnValue lsn of None \<Rightarrow> lsn | Some v \<Rightarrow> formatLsn v)"

definition lsnForClient :: "string \<Rightarrow> string option" where
  "lsnForClient lsn =
     (case lsnValue lsn of None \<Rightarrow> None | Some v \<Rightarrow> if 0 < v then Some (formatLsn (v - 1)) else None)"

section \<open>Old and new row images\<close>

definition withUnchanged :: "row \<Rightarrow> row" where
  "withUnchanged r = map (\<lambda>(k, v). (k, if v = JUndefined then JUnchanged else v)) r"

definition present :: "row \<Rightarrow> row" where
  "present r = filter (\<lambda>(k, v). v \<noteq> JUndefined) r"

text \<open>
  \<^verbatim>\<open>===\<close> on primitives, content on bytes, JSON text on other objects (where
  \<^verbatim>\<open>===\<close> is object identity, which implies equal text).
\<close>

definition pg_same_value :: "jsval \<Rightarrow> jsval \<Rightarrow> bool" where
  "pg_same_value a b =
     (case (a, b) of
        (JBytes x, JBytes y) \<Rightarrow> x = y
      | (JNum x, JNum y) \<Rightarrow> num_eq x y
      | _ \<Rightarrow> if is_object a \<and> is_object b then js_stringify a = js_stringify b
             else \<not> is_object a \<and> \<not> is_object b \<and> a = b)"

record pg_images =
  img_key :: "row option"
  img_old :: "row option"
  img_new :: row

definition old_image :: "pg_images \<Rightarrow> row option" where
  "old_image m = (case img_key m of Some r \<Rightarrow> Some r | None \<Rightarrow> img_old m)"

definition column_moved :: "(jsval \<Rightarrow> jsval \<Rightarrow> bool) \<Rightarrow> row \<Rightarrow> row \<Rightarrow> string \<Rightarrow> bool" where
  "column_moved same before new c =
     (row_get before c \<noteq> JUndefined \<and> \<not> same (row_get before c) (row_get new c))"

definition reservesOldRow ::
  "pg_images \<Rightarrow> string list \<Rightarrow> (jsval \<Rightarrow> jsval \<Rightarrow> bool) \<Rightarrow> bool" where
  "reservesOldRow m identityColumns same =
     (case old_image m of None \<Rightarrow> False
      | Some before \<Rightarrow> list_ex (column_moved same before (img_new m)) identityColumns)"

definition rowMoved ::
  "pg_images \<Rightarrow> string list \<Rightarrow> string list \<Rightarrow> (jsval \<Rightarrow> jsval \<Rightarrow> bool) \<Rightarrow> bool" where
  "rowMoved m identityColumns identifying same =
     (case old_image m of None \<Rightarrow> False
      | Some before \<Rightarrow>
          list_ex (column_moved same before (img_new m))
            (if img_key m \<noteq> None then identityColumns
             else filter (\<lambda>c. c \<in> set identifying) identityColumns))"

text \<open>The replication client's queue, read through its internals.\<close>

definition clientIsDrained :: "jsval \<Rightarrow> bool" where
  "clientIsDrained s =
     (case s of
        JObj fs \<Rightarrow> row_get fs ''_messageQueue'' = JArr [] \<and> row_get fs ''_processing'' = JBool False
      | _ \<Rightarrow> False)"

definition target_key_sources :: "database_target \<Rightarrow> string list" where
  "target_key_sources t = map (\<lambda>k. sourceColumnFor k (dt_mapping t)) (dt_keyColumns t)"

definition identifyingColumns :: "bridge_destination \<Rightarrow> string list option \<Rightarrow> string list" where
  "identifyingColumns d primaryKey =
     uniq ((case primaryKey of None \<Rightarrow> [] | Some ks \<Rightarrow> ks) @
           (case d of Database ts \<Rightarrow> concat (map target_key_sources ts) | Http h \<Rightarrow> []))"

section \<open>LSN text and value\<close>

lemma hex_digit_upper: "d < 16 \<Longrightarrow> hex_digit (hex_upper d) = Some d"
  by (simp add: hex_digit_def hex_upper_def Let_def)

lemma hex_upper_not_slash: "d < 16 \<Longrightarrow> hex_upper d \<noteq> CHR ''/''"
  using hex_digit_upper [of d] by (auto simp: hex_digit_def Let_def)

lemma hex_upper_not_sep: "d < 16 \<Longrightarrow> hex_upper d \<noteq> CHR ''#'' \<and> hex_upper d \<noteq> CHR ''.'' \<and> hex_upper d \<noteq> CHR '':''"
  using hex_digit_upper [of d] by (auto simp: hex_digit_def Let_def)

lemma show_hex_digits:
  "show_hex n \<noteq> [] \<and> list_all (\<lambda>c. hex_digit c \<noteq> None) (show_hex n) \<and>
     CHR ''/'' \<notin> set (show_hex n) \<and> CHR ''#'' \<notin> set (show_hex n) \<and> CHR ''.'' \<notin> set (show_hex n)"
proof (induction n rule: show_hex.induct)
  case (1 n)
  have d: "n mod 16 < 16" by simp
  note d' = hex_digit_upper hex_upper_not_slash hex_upper_not_sep
  show ?case
  proof (cases "n < 16")
    case True
    with d' [of n] show ?thesis by (auto simp: show_hex.simps [of n])
  next
    case False
    with 1 d' [OF d] show ?thesis by (auto simp: show_hex.simps [of n])
  qed
qed

lemma read_radix_append:
  "read_radix b acc (xs @ ys) = (case read_radix b acc xs of None \<Rightarrow> None | Some n \<Rightarrow> read_radix b n ys)"
  by (induction xs arbitrary: acc) (auto split: option.splits)

lemma read_show_hex: "read_radix 16 0 (show_hex n) = Some n"
proof (induction n rule: show_hex.induct)
  case (1 n)
  have d: "n mod 16 < 16" by simp
  show ?case
  proof (cases "n < 16")
    case True
    with hex_digit_upper [of n] show ?thesis by (simp add: show_hex.simps [of n])
  next
    case False
    with 1 hex_digit_upper [OF d] show ?thesis
      by (simp add: show_hex.simps [of n] read_radix_append)
  qed
qed

lemma length_show_hex: "n < 16 ^ k \<Longrightarrow> 0 < k \<Longrightarrow> length (show_hex n) \<le> k"
proof (induction n arbitrary: k rule: show_hex.induct)
  case (1 n)
  show ?case
  proof (cases "n < 16")
    case True
    with 1(3) show ?thesis by (simp add: show_hex.simps [of n])
  next
    case False
    then obtain j where k: "k = Suc j" "0 < j" using 1(2,3) by (cases k; cases "k - 1") auto
    then have "n div 16 < 16 ^ j" using 1(2) by (simp add: less_mult_imp_div_less mult.commute)
    with 1(1) [OF False this k(2)] False k show ?thesis by (simp add: show_hex.simps [of n])
  qed
qed

lemma show_hex_part: "n < 2 ^ 32 \<Longrightarrow> lsn_part (show_hex n) \<and> hex_value (show_hex n) = int n"
proof -
  assume "n < 2 ^ 32"
  then have "n < 16 ^ 8" by simp
  then have "length (show_hex n) \<le> 8" by (rule length_show_hex) simp
  then show ?thesis using show_hex_digits [of n] by (simp add: lsn_part_def hex_value_def read_show_hex)
qed

lemma lsn_halves:
  fixes v :: int
  assumes "0 \<le> v" and "v < 2 ^ 64"
  shows "nat (drop_bit 32 v) < 2 ^ 32" and "nat (v AND 0xFFFFFFFF) < 2 ^ 32"
    and "push_bit 32 (drop_bit 32 v) OR (v AND 0xFFFFFFFF) = v" and "0 \<le> drop_bit 32 v" and "0 \<le> v AND 0xFFFFFFFF"
proof -
  have m: "v AND 0xFFFFFFFF = take_bit 32 v" by (simp add: take_bit_eq_mask mask_numeral)
  have "drop_bit 32 v < 2 ^ 32" using assms by (simp add: drop_bit_eq_div)
  then show "nat (drop_bit 32 v) < 2 ^ 32" by (simp add: nat_less_iff)
  show "nat (v AND 0xFFFFFFFF) < 2 ^ 32" unfolding m by (simp add: nat_less_iff take_bit_eq_mod)
  show "push_bit 32 (drop_bit 32 v) OR (v AND 0xFFFFFFFF) = v"
    unfolding m by (rule bit_eqI) (auto simp: bit_simps)
  show "0 \<le> drop_bit 32 v" "0 \<le> v AND 0xFFFFFFFF" using assms(1) m by (simp_all add: m)
qed

lemma lsnValue_formatLsn:
  assumes "0 \<le> v" and "v < 2 ^ 64"
  shows "lsnValue (formatLsn v) = Some v"
proof -
  let ?h = "nat (drop_bit 32 v)" and ?l = "nat (v AND 0xFFFFFFFF)"
  note halves = lsn_halves [OF assms]
  have s: "split_on (CHR ''/'') (formatLsn v) = [show_hex ?h, show_hex ?l]"
    using show_hex_digits [of ?h] show_hex_digits [of ?l]
    by (simp add: formatLsn_def split_on_append split_on_absent)
  show ?thesis
    using show_hex_part [OF halves(1)] show_hex_part [OF halves(2)] halves(3-5)
    by (simp add: lsnValue_def s)
qed

lemma read_radix_bound:
  "read_radix b acc s = Some n \<Longrightarrow> n < (acc + 1) * b ^ length s"
proof (induction s arbitrary: acc)
  case (Cons c s)
  then obtain d where d: "hex_digit c = Some d" "d < b" "read_radix b (b * acc + d) s = Some n"
    by (auto split: option.splits if_splits)
  then have "n < (b * acc + d + 1) * b ^ length s" by (metis Cons.IH)
  also have "\<dots> \<le> (b * acc + b) * b ^ length s" using d(2) by (intro mult_right_mono) simp_all
  also have "\<dots> = (acc + 1) * b ^ length (c # s)" by (simp add: algebra_simps)
  finally show ?case .
qed simp

lemma hex_value_bound: "lsn_part s \<Longrightarrow> 0 \<le> hex_value s \<and> hex_value s < 2 ^ 32"
proof -
  assume s: "lsn_part s"
  show ?thesis
  proof (cases "read_radix 16 0 s")
    case (Some n)
    have "n < 16 ^ length s" using read_radix_bound [OF Some] by simp
    also have "(16::nat) ^ length s \<le> 16 ^ 8" using s by (intro power_increasing) (auto simp: lsn_part_def)
    finally show ?thesis using Some by (simp add: hex_value_def)
  qed (simp add: hex_value_def)
qed

lemma lsnValue_bound:
  assumes "lsnValue t = Some v"
  shows "0 \<le> v \<and> v < 2 ^ 64"
proof -
  obtain h lo where v: "v = push_bit 32 (hex_value h) OR hex_value lo" and p: "lsn_part h" "lsn_part lo"
    using assms by (auto simp: lsnValue_def split: list.splits if_splits)
  note b = hex_value_bound [OF p(1)] hex_value_bound [OF p(2)]
  have "0 \<le> v" using b by (simp add: v push_bit_eq_mult)
  moreover have "take_bit 64 v = v"
  proof -
    have "take_bit 64 (push_bit 32 (hex_value h)) = push_bit 32 (hex_value h)"
      using b by (simp add: take_bit_int_eq_self_iff push_bit_eq_mult)
    moreover have "take_bit 64 (hex_value lo) = hex_value lo"
      using b by (simp add: take_bit_int_eq_self_iff)
    ultimately show ?thesis by (simp add: v take_bit_or)
  qed
  ultimately show ?thesis by (simp add: take_bit_int_eq_self_iff)
qed

text \<open>
  Every 64-bit position has one text, which reads back as the position; normalising the text
  of a position keeps the position and gives that one text, whatever padding or case it was
  written with, and normalising twice changes nothing.
\<close>
theorem lsn_text_round_trip:
  assumes "0 \<le> v" and "v < 2 ^ 64"
  shows "lsnValue (formatLsn v) = Some v \<and>
    (\<forall>t. lsnValue t = Some v \<longrightarrow> normalizeLsn t = formatLsn v \<and> lsnValue (normalizeLsn t) = Some v) \<and>
    normalizeLsn (normalizeLsn t) = normalizeLsn t"
proof -
  have "normalizeLsn (normalizeLsn t) = normalizeLsn t"
    using lsnValue_bound [of t] lsnValue_formatLsn by (cases "lsnValue t") (auto simp: normalizeLsn_def)
  with lsnValue_formatLsn [OF assms] show ?thesis by (simp add: normalizeLsn_def)
qed

theorem lsn_text_round_trip_witness:
  "normalizeLsn ''00000000/0000001a'' = formatLsn 26 \<and> lsnValue (normalizeLsn ''00000000/0000001a'') = Some 26"
proof -
  have v: "lsnValue ''00000000/0000001a'' = Some 26" by code_simp
  from lsn_text_round_trip [of 26] v show ?thesis by simp
qed

text \<open>
  C11: The client adds one to the position it is handed; what it is handed is one less, so the
  server is told exactly the position that was confirmed - never a byte inside the next
  record - and position zero is not sent at all.
\<close>
theorem client_confirms_exactly:
  assumes "lsnValue lsn = Some v"
  shows "if 0 < v then \<exists>c. lsnForClient lsn = Some c \<and> map_option (\<lambda>x. x + 1) (lsnValue c) = Some v
    else lsnForClient lsn = None"
  using lsnValue_formatLsn [of "v - 1"] lsnValue_bound [OF assms] assms by (simp add: lsnForClient_def)

theorem client_confirms_exactly_witness:
  "\<exists>c. lsnForClient ''0/20'' = Some c \<and> map_option (\<lambda>x. x + 1) (lsnValue c) = Some 32"
proof -
  have "lsnValue ''0/20'' = Some 32" by code_simp
  from client_confirms_exactly [OF this] show ?thesis by simp
qed

end
