(* ===== verification/Cursor_Order.thy ===== *)
theory Cursor_Order
  imports Prelude
begin

text \<open>
  The contract every change-stream provider gives the pipeline about its cursors
  (\<^verbatim>\<open>CdcProvider.cursorAfter\<close>, \<^verbatim>\<open>apps/api/src/bridges/cdc/cdc-provider.ts\<close>): \<open>after\<close> is
  strict order by a linearly ordered position, nothing known is before the missing cursor, and a
  cursor that cannot be read is after nothing. The pipeline's use of it - a watermark that drops
  what it has already passed - is argued here once.
\<close>

locale cursor_order =
  fixes after :: "'c \<Rightarrow> 'c option \<Rightarrow> bool"
    and position :: "'c \<Rightarrow> 'k::linorder option"
  assumes after_None: "after a None"
    and after_positions: "position a = Some x \<Longrightarrow> position b = Some y \<Longrightarrow> after a (Some b) = (y < x)"
begin

definition known :: "'c \<Rightarrow> bool" where
  "known c = (position c \<noteq> None)"

lemma after_irrefl: "known a \<Longrightarrow> \<not> after a (Some a)"
  using after_positions by (force simp: known_def)

lemma after_trans:
  assumes "known a" "known b" "known c" and "after a (Some b)" and "after b (Some c)"
  shows "after a (Some c)"
proof -
  obtain x y z where p: "position a = Some x" "position b = Some y" "position c = Some z"
    using assms(1-3) by (auto simp: known_def)
  then show ?thesis using assms(4,5) after_positions [OF p(1,2)] after_positions [OF p(2,3)]
      after_positions [OF p(1,3)] by simp
qed

lemma not_after_trans:
  assumes "known a" "known b" "known c" and "\<not> after a (Some b)" and "\<not> after b (Some c)"
  shows "\<not> after a (Some c)"
proof -
  obtain x y z where p: "position a = Some x" "position b = Some y" "position c = Some z"
    using assms(1-3) by (auto simp: known_def)
  then show ?thesis using assms(4,5) after_positions [OF p(1,2)] after_positions [OF p(2,3)]
      after_positions [OF p(1,3)] by simp
qed

lemma after_asym: "known a \<Longrightarrow> known b \<Longrightarrow> after a (Some b) \<Longrightarrow> \<not> after b (Some a)"
  using after_positions by (force simp: known_def)

definition increasing :: "'c list \<Rightarrow> bool" where
  "increasing cs = (list_all known cs \<and> sorted_wrt (\<lambda>a b. after b (Some a)) cs)"

lemma increasing_append:
  "increasing (xs @ ys) \<longleftrightarrow>
     increasing xs \<and> increasing ys \<and> (\<forall>x\<in>set xs. \<forall>y\<in>set ys. after y (Some x))"
  by (auto simp: increasing_def sorted_wrt_append)

lemma increasing_Nil [simp]: "increasing []"
  by (simp add: increasing_def)

lemma increasing_Cons:
  "increasing (x # xs) \<longleftrightarrow> known x \<and> increasing xs \<and> (\<forall>y\<in>set xs. after y (Some x))"
  by (auto simp: increasing_def)

text \<open>Reading an increasing stream again from a position in it gives exactly the rest of it.\<close>

lemma resume_exact:
  assumes "increasing (done_part @ w # rest)"
  shows "List.filter (\<lambda>c. after c (Some w)) (done_part @ w # rest) = rest"
proof -
  have w: "known w" and rest: "\<forall>c\<in>set rest. after c (Some w)"
    and earlier: "\<forall>c\<in>set done_part. after w (Some c)" and known: "\<forall>c\<in>set done_part. known c"
    using assms by (auto simp: increasing_append increasing_Cons) (auto simp: increasing_def list_all_iff)
  have "\<forall>c\<in>set done_part. \<not> after c (Some w)" using earlier known w after_asym by blast
  then show ?thesis using after_irrefl [OF w] rest by (simp add: filter_id_conv)
qed

lemma increasing_distinct: "increasing cs \<Longrightarrow> distinct cs"
  using after_irrefl by (induction cs) (auto simp: increasing_Cons)

text \<open>The watermark: the furthest cursor seen, moved only forward.\<close>

definition furthest :: "'c option \<Rightarrow> 'c \<Rightarrow> 'c option" where
  "furthest w c = (if after c w then Some c else w)"

lemma furthest_None [simp]: "furthest None c = Some c"
  by (simp add: furthest_def after_None)

lemma furthest_covers:
  assumes "known c" and "pred_option known w"
  shows "\<exists>m. furthest w c = Some m \<and> known m \<and> \<not> after c (Some m) \<and>
    (\<forall>v. w = Some v \<longrightarrow> \<not> after v (Some m))"
proof (cases w)
  case None
  with after_irrefl [OF assms(1)] assms(1) show ?thesis by simp
next
  case (Some v)
  then have v: "known v" using assms(2) by simp
  show ?thesis
  proof (cases "after c w")
    case True
    then have "\<not> after v (Some c)" using after_asym [OF assms(1) v] Some by simp
    then show ?thesis using True Some assms(1) after_irrefl [OF assms(1)] by (simp add: furthest_def)
  next
    case False
    then show ?thesis using Some v after_irrefl [OF v] by (simp add: furthest_def)
  qed
qed

end

end
