(* ===== verification/Postgres_Stream.thy ===== *)
theory Postgres_Stream
  imports Postgres_Lsn Cursor_Order
begin

text \<open>
  The PostgreSQL change stream as one bridge reads it,
  \<^verbatim>\<open>apps/api/src/bridges/cdc/providers/postgres-cdc.provider.ts\<close> (\<^verbatim>\<open>startStream\<close>): how a
  decoded message becomes the changes, notices and skipped positions handed to the pipeline, what
  is answered to keepalives, and what is confirmed to the server. The replication client (a
  third-party package) is what delivers the messages and takes the acknowledgements.
\<close>

section \<open>Messages\<close>

record pg_relation =
  rel_name :: string
  rel_schema :: string
  rel_keyColumns :: "string list option"

datatype pg_message =
    Msg_begin "string option"
  | Msg_commit "string option" "string option"
  | Msg_truncate "pg_relation option list"
  | Msg_insert "pg_relation option" pg_images
  | Msg_update "pg_relation option" pg_images
  | Msg_delete "pg_relation option" pg_images
  | Msg_description

text \<open>What is handed to the pipeline: a change, a notice, or a position passed over.\<close>

datatype handed =
    Hand_change cdc_operation row string bool
  | Hand_notice string
  | Hand_skip string

fun handed_cursor :: "handed \<Rightarrow> string" where
  "handed_cursor (Hand_change op r c k) = c"
| "handed_cursor (Hand_notice c) = c"
| "handed_cursor (Hand_skip c) = c"

text \<open>What the closure of \<^verbatim>\<open>startStream\<close> is configured with.\<close>

record pg_reader =
  rd_table :: string
  rd_schema :: string
  rd_ops :: "cdc_operation list"
  rd_identifying :: "string list"
  rd_notices :: bool

text \<open>The transaction being decoded: its commit LSN, the last change position and its ordinal.\<close>

record pg_txn =
  txn_commit :: string
  txn_lsn :: string
  txn_shared :: nat

section \<open>Decoding one message\<close>

definition truthy_text :: "string option \<Rightarrow> string option" where
  "truthy_text t = (case t of None \<Rightarrow> None | Some s \<Rightarrow> if s = [] then None else Some s)"

definition change_cursor :: "string \<Rightarrow> string \<Rightarrow> nat \<Rightarrow> string" where
  "change_cursor commit lsn n = commit @ ''#'' @ lsn @ ''.'' @ show_nat n"

definition end_cursor :: "string \<Rightarrow> string \<Rightarrow> string" where
  "end_cursor commit e = commit @ ''#c:'' @ e"

text \<open>\<^verbatim>\<open>at()\<close>: the position of the change being handled; each call is a new one.\<close>

definition take_position :: "string \<Rightarrow> pg_txn option \<Rightarrow> string \<times> pg_txn option" where
  "take_position lsn txn =
     (case txn of
        None \<Rightarrow> (lsn, None)
      | Some t \<Rightarrow>
          let shared = (if txn_lsn t = lsn then txn_shared t + 1 else 0)
          in (change_cursor (txn_commit t) lsn shared, Some (t\<lparr>txn_lsn := lsn, txn_shared := shared\<rparr>)))"

definition on_our_table :: "pg_reader \<Rightarrow> pg_relation option \<Rightarrow> bool" where
  "on_our_table rd r =
     (case r of None \<Rightarrow> False | Some r' \<Rightarrow> rel_name r' = rd_table rd \<and> rel_schema r' = rd_schema rd)"

definition relation_keys :: "pg_relation option \<Rightarrow> string list" where
  "relation_keys r = (case r of None \<Rightarrow> [] | Some r' \<Rightarrow>
     (case rel_keyColumns r' of None \<Rightarrow> [] | Some ks \<Rightarrow> ks))"

definition old_row :: "pg_images \<Rightarrow> row" where
  "old_row m = (case img_old m of Some r \<Rightarrow> r | None \<Rightarrow> (case img_key m of Some r \<Rightarrow> r | None \<Rightarrow> []))"

definition decode_change ::
  "pg_reader \<Rightarrow> string \<Rightarrow> cdc_operation \<Rightarrow> pg_relation option \<Rightarrow> pg_images \<Rightarrow> pg_txn option \<Rightarrow>
     handed list \<times> pg_txn option" where
  "decode_change rd lsn op r m txn =
     (let (c, txn1) = take_position lsn txn in
      if op \<notin> set (rd_ops rd) \<or> \<not> on_our_table rd r then ([Hand_skip c], txn1)
      else if op = Op_delete then ([Hand_change Op_delete (present (old_row m)) c False], txn1)
      else if op = Op_update \<and> reservesOldRow m (relation_keys r) pg_same_value then
        (let (c2, txn2) = take_position lsn txn1;
             moved = rowMoved m (relation_keys r) (rd_identifying rd) pg_same_value
         in ((if moved then [Hand_change Op_delete (present (the (old_image m))) c False] else []) @
             [Hand_change op (withUnchanged (img_new m)) c2 moved], txn2))
      else ([Hand_change op (withUnchanged (img_new m)) c False], txn1))"

definition decode ::
  "pg_reader \<Rightarrow> string \<Rightarrow> pg_message \<Rightarrow> pg_txn option \<Rightarrow> handed list \<times> pg_txn option" where
  "decode rd lsn msg txn =
     (case msg of
        Msg_begin c \<Rightarrow>
          ([], map_option (\<lambda>s. \<lparr>txn_commit = normalizeLsn s, txn_lsn = [], txn_shared = 0\<rparr>) (truthy_text c))
      | Msg_commit c e \<Rightarrow>
          (case (case truthy_text c of Some s \<Rightarrow> Some (normalizeLsn s)
                 | None \<Rightarrow> truthy_text (map_option txn_commit txn)) of
             None \<Rightarrow> ([], None)
           | Some commit \<Rightarrow>
               ([Hand_skip (end_cursor commit (normalizeLsn (case e of None \<Rightarrow> lsn | Some s \<Rightarrow> s)))], None))
      | Msg_truncate rels \<Rightarrow>
          (let (c, txn1) = take_position lsn txn in
           if \<not> list_ex (on_our_table rd) rels then ([Hand_skip c], txn1)
           else if Op_truncate \<in> set (rd_ops rd) then ([Hand_change Op_truncate [] c False], txn1)
           else if rd_notices rd then ([Hand_notice c], txn1)
           else ([Hand_skip c], txn1))
      | Msg_insert r m \<Rightarrow> decode_change rd lsn Op_insert r m txn
      | Msg_update r m \<Rightarrow> decode_change rd lsn Op_update r m txn
      | Msg_delete r m \<Rightarrow> decode_change rd lsn Op_delete r m txn
      | Msg_description \<Rightarrow> ([], txn))"

text \<open>The stream: messages one after another (flow control awaits each).\<close>

fun decode_all ::
  "pg_reader \<Rightarrow> pg_txn option \<Rightarrow> (string \<times> pg_message) list \<Rightarrow> handed list" where
  "decode_all rd txn [] = []"
| "decode_all rd txn ((lsn, msg) # ms) =
     (let (hs, txn') = decode rd lsn msg txn in hs @ decode_all rd txn' ms)"

section \<open>The order of positions\<close>

definition pg_key :: "string \<Rightarrow> (int \<times> int \<times> int) option" where
  "pg_key c = map_option (\<lambda>p. (pos_commit p, pos_change p, pos_ordinal p)) (parsePgCursor c)"

lemma parsePgCursor_Nil [simp]: "parsePgCursor [] = None"
  by (simp add: parsePgCursor_def lsnValue_def)

interpretation pg: cursor_order lsnAfter pg_key
proof unfold_locales
  show "lsnAfter a None" for a by (simp add: lsnAfter_def)
  show "lsnAfter a (Some b) = (y < x)" if "pg_key a = Some x" "pg_key b = Some y" for a b x y
  proof -
    obtain p q where p: "parsePgCursor a = Some p" "x = (pos_commit p, pos_change p, pos_ordinal p)"
      and q: "parsePgCursor b = Some q" "y = (pos_commit q, pos_change q, pos_ordinal q)"
      using \<open>pg_key a = Some x\<close> \<open>pg_key b = Some y\<close> by (auto simp: pg_key_def)
    have "b \<noteq> []" using q(1) by auto
    then show ?thesis using p q by (auto simp: lsnAfter_def)
  qed
qed

lemma formatLsn_chars: "CHR ''#'' \<notin> set (formatLsn v) \<and> CHR ''.'' \<notin> set (formatLsn v)"
  using show_hex_digits [of "nat (drop_bit 32 v)"] show_hex_digits [of "nat (v AND 0xFFFFFFFF)"]
  by (auto simp: formatLsn_def)

lemma formatLsn_nonempty [simp]: "formatLsn v \<noteq> []"
  by (simp add: formatLsn_def)

lemma formatLsn_inj:
  "0 \<le> v \<Longrightarrow> v < 2 ^ 64 \<Longrightarrow> 0 \<le> w \<Longrightarrow> w < 2 ^ 64 \<Longrightarrow> formatLsn v = formatLsn w \<longleftrightarrow> v = w"
  using lsnValue_formatLsn by (metis option.inject)

lemma takeWhile_sep: "c \<notin> set xs \<Longrightarrow> takeWhile (\<lambda>x. x \<noteq> c) (xs @ c # ys) = xs"
  by (induction xs) auto

lemma split_last_sep:
  assumes "c \<notin> set ys"
  shows "split_last c (xs @ c # ys) = Some (xs, ys)"
proof -
  have "takeWhile (\<lambda>x. x \<noteq> c) (rev (xs @ c # ys)) = rev ys"
    using takeWhile_sep [of c "rev ys" "rev xs"] assms by simp
  then show ?thesis by (simp add: split_last_def Let_def)
qed

lemma ordinal_of_show_nat: "n < 2 ^ 53 \<Longrightarrow> ordinal_of (show_nat n) = Some (int n)"
  by (simp add: ordinal_of_def js_number_show_nat)

lemma show_nat_no_dot: "CHR ''.'' \<notin> set (show_nat n)"
  using show_nat_digits [of n] by (auto simp: list_all_iff is_digit_def)

lemma not_end_marker: "0 \<le> v \<Longrightarrow> v < 2 ^ 64 \<Longrightarrow> \<not> starts_with (formatLsn v @ t) ''c:''"
proof -
  obtain c cs where c: "show_hex (nat (drop_bit 32 v)) = c # cs"
    using show_hex_digits by (meson list.exhaust)
  have colon: "hex_digit (CHR '':'') = None" by (simp add: hex_digit_def Let_def)
  then have "CHR '':'' \<notin> set (show_hex (nat (drop_bit 32 v)))"
    using show_hex_digits [of "nat (drop_bit 32 v)"] by (auto simp: list_all_iff)
  then show ?thesis using c by (cases cs) (auto simp: formatLsn_def starts_with_def)
qed

lemma change_cursor_key:
  assumes "0 \<le> c" "c < 2 ^ 64" "0 \<le> v" "v < 2 ^ 64" "n < 2 ^ 53"
  shows "parsePgCursor (change_cursor (formatLsn c) (formatLsn v) n) =
    Some \<lparr>pos_commit = c, pos_change = v, pos_ordinal = int n, pos_ack = None\<rparr>"
  using assms formatLsn_chars [of c] formatLsn_chars [of v]
    takeWhile_sep [of "CHR ''#''" "formatLsn c"] split_last_sep [OF show_nat_no_dot]
    not_end_marker [of v "CHR ''.'' # show_nat n"]
  by (simp add: parsePgCursor_def change_cursor_def lsnValue_formatLsn ordinal_of_show_nat Let_def)

lemma end_cursor_key:
  assumes "0 \<le> c" "c < 2 ^ 64" "0 \<le> e" "e < 2 ^ 64"
  shows "parsePgCursor (end_cursor (formatLsn c) (formatLsn e)) =
    Some \<lparr>pos_commit = c, pos_change = END_MARK, pos_ordinal = 0, pos_ack = Some (formatLsn e)\<rparr>"
  using assms formatLsn_chars [of c] takeWhile_sep [of "CHR ''#''" "formatLsn c"]
  by (simp add: parsePgCursor_def end_cursor_def lsnValue_formatLsn Let_def starts_with_def)

section \<open>One transaction\<close>

text \<open>
  A transaction as the server sends it: what its BEGIN and COMMIT say and the messages between,
  each with the position it was written at. \<open>wal_ok\<close> is what PostgreSQL documents of the stream:
  positions inside a transaction do not go back, and a transaction commits where or after the
  previous one ended.
\<close>

record wal_txn =
  wt_commit :: int
  wt_end :: int
  wt_commit_text :: string
  wt_end_text :: string
  wt_changes :: "(int \<times> pg_message) list"

definition position_ok :: "int \<Rightarrow> bool" where
  "position_ok v = (0 \<le> v \<and> v < 2 ^ 64)"

fun inside_txn :: "pg_message \<Rightarrow> bool" where
  "inside_txn (Msg_begin c) = False"
| "inside_txn (Msg_commit c e) = False"
| "inside_txn m = True"

definition wal_txn_ok :: "wal_txn \<Rightarrow> bool" where
  "wal_txn_ok t =
     (lsnValue (wt_commit_text t) = Some (wt_commit t) \<and> lsnValue (wt_end_text t) = Some (wt_end t) \<and>
      wt_commit t < wt_end t \<and> list_all (\<lambda>(v, m). position_ok v \<and> inside_txn m) (wt_changes t) \<and>
      sorted (map fst (wt_changes t)) \<and> 2 * length (wt_changes t) < 2 ^ 53)"

fun wal_ok :: "wal_txn list \<Rightarrow> bool" where
  "wal_ok [] = True"
| "wal_ok (t # ts) = (wal_txn_ok t \<and> list_all (\<lambda>u. wt_end t \<le> wt_commit u) ts \<and> wal_ok ts)"

definition txn_messages :: "wal_txn \<Rightarrow> (string \<times> pg_message) list" where
  "txn_messages t =
     (formatLsn (wt_commit t), Msg_begin (Some (wt_commit_text t)))
       # map (\<lambda>(v, m). (formatLsn v, m)) (wt_changes t)
       @ [(formatLsn (wt_end t), Msg_commit (Some (wt_commit_text t)) (Some (wt_end_text t)))]"

text \<open>
  \<open>reaches c f hs g\<close>: the cursors of \<open>hs\<close> are positions of the transaction committing at \<open>c\<close>,
  one after another, all after \<open>f\<close> and none after \<open>g\<close>.
\<close>

type_synonym change_pos = "int \<times> nat"

definition full_key :: "int \<Rightarrow> change_pos \<Rightarrow> int \<times> int \<times> int" where
  "full_key c p = (c, fst p, int (snd p))"

definition reaches :: "int \<Rightarrow> change_pos \<Rightarrow> handed list \<Rightarrow> change_pos \<Rightarrow> bool" where
  "reaches c f hs g =
     (f \<le> g \<and> (\<exists>ps. map (pg_key \<circ> handed_cursor) hs = map (\<lambda>p. Some (full_key c p)) ps \<and>
        sorted_wrt (<) ps \<and> (\<forall>p\<in>set ps. f < p \<and> p \<le> g \<and> position_ok (fst p))))"

lemma full_key_less: "full_key c p < full_key c q \<longleftrightarrow> p < q"
  by (cases p; cases q) (auto simp: full_key_def)

lemma reaches_Nil [simp]: "reaches c f [] f"
  by (simp add: reaches_def)

lemma reaches_append:
  assumes "reaches c f hs g" and "reaches c g hs' g'"
  shows "reaches c f (hs @ hs') g'"
proof -
  obtain ps ps' where
    ps: "f \<le> g" "map (pg_key \<circ> handed_cursor) hs = map (\<lambda>p. Some (full_key c p)) ps" "sorted_wrt (<) ps"
      "\<forall>p\<in>set ps. f < p \<and> p \<le> g \<and> position_ok (fst p)"
    and ps': "g \<le> g'" "map (pg_key \<circ> handed_cursor) hs' = map (\<lambda>p. Some (full_key c p)) ps'"
      "sorted_wrt (<) ps'" "\<forall>p\<in>set ps'. g < p \<and> p \<le> g' \<and> position_ok (fst p)"
    using assms unfolding reaches_def by blast
  have "sorted_wrt (<) (ps @ ps')" unfolding sorted_wrt_append
    using ps(3,4) ps'(3,4) by (meson le_less_trans)
  moreover have "\<forall>p\<in>set (ps @ ps'). f < p \<and> p \<le> g' \<and> position_ok (fst p)"
    using ps(1,4) ps'(1,4) by (auto intro: order.trans le_less_trans)
  ultimately show ?thesis unfolding reaches_def using ps(1,2) ps'(1,2)
    by (intro conjI exI [of _ "ps @ ps'"]) (auto intro: order.trans)
qed

lemma reaches_one:
  "pg_key (handed_cursor h) = Some (full_key c p) \<Longrightarrow> f < p \<Longrightarrow> position_ok (fst p) \<Longrightarrow> reaches c f [h] p"
  unfolding reaches_def by (intro conjI exI [of _ "[p]"]) auto

lemma reaches_same_cursor:
  "reaches c f [h] g \<Longrightarrow> handed_cursor h' = handed_cursor h \<Longrightarrow> reaches c f [h'] g"
  by (simp add: reaches_def)

lemma reaches_weaken: "reaches c f hs g \<Longrightarrow> g \<le> g' \<Longrightarrow> reaches c f hs g'"
  unfolding reaches_def by (meson order.trans)

text \<open>The decoder's transaction state has handed out positions up to \<open>f\<close>.\<close>

definition stands_at :: "int \<Rightarrow> change_pos \<Rightarrow> pg_txn \<Rightarrow> bool" where
  "stands_at c f t =
     (txn_commit t = formatLsn c \<and>
      (if fst f < 0 then f = (- 1, 0) \<and> txn_lsn t = [] else txn_lsn t = formatLsn (fst f) \<and> txn_shared t = snd f \<and> fst f < 2 ^ 64))"

lemma take_position_reaches:
  assumes "stands_at c f t" "position_ok c" "position_ok v" "fst f \<le> v" "snd f + 1 < 2 ^ 53"
  shows "\<exists>cur t' g. take_position (formatLsn v) (Some t) = (cur, Some t') \<and> stands_at c g t' \<and>
    fst g = v \<and> snd g \<le> snd f + 1 \<and> f < g \<and> pg_key cur = Some (full_key c g)"
proof -
  define n where "n = (if txn_lsn t = formatLsn v then txn_shared t + 1 else 0)"
  have same: "0 \<le> fst f \<Longrightarrow> txn_lsn t = formatLsn v \<longleftrightarrow> fst f = v"
    using assms(1,3) formatLsn_inj [of "fst f" v] by (auto simp: stands_at_def position_ok_def split: if_splits)
  have n: "n \<le> snd f + 1 \<and> f < (v, n)"
  proof (cases "fst f < 0")
    case True
    then show ?thesis using assms(1,3) formatLsn_nonempty [of v, symmetric]
      by (auto simp: n_def stands_at_def position_ok_def)
  next
    case False
    then show ?thesis using assms(1,4) same by (cases f) (auto simp: n_def stands_at_def)
  qed
  let ?t = "t\<lparr>txn_lsn := formatLsn v, txn_shared := n\<rparr>"
  have "take_position (formatLsn v) (Some t) = (change_cursor (formatLsn c) (formatLsn v) n, Some ?t)"
    using assms(1) by (simp add: take_position_def n_def Let_def stands_at_def)
  moreover have "stands_at c (v, n) ?t" using assms(1,3) by (simp add: stands_at_def position_ok_def)
  moreover have "pg_key (change_cursor (formatLsn c) (formatLsn v) n) = Some (full_key c (v, n))"
    using assms(2,3,5) n change_cursor_key [of c v n] by (simp add: pg_key_def position_ok_def full_key_def)
  ultimately show ?thesis using n by (intro exI [of _ "(v, n)"] exI conjI) (simp_all)
qed


lemma decode_change_reaches:
  assumes "stands_at c f t" "position_ok c" "position_ok v" "fst f \<le> v" "snd f + 2 < 2 ^ 53"
  shows "\<exists>hs t' g. decode_change rd (formatLsn v) op r m (Some t) = (hs, Some t') \<and> stands_at c g t' \<and>
    fst g = v \<and> snd g \<le> snd f + 2 \<and> reaches c f hs g"
proof -
  note v64 = assms(3)
  obtain c1 t1 g1 where
    p1: "take_position (formatLsn v) (Some t) = (c1, Some t1)" "stands_at c g1 t1" "fst g1 = v"
      "snd g1 \<le> snd f + 1" "f < g1" "pg_key c1 = Some (full_key c g1)"
    using take_position_reaches [OF assms(1-4)] assms(5) by force
  then have one: "reaches c f [Hand_change op' r' c1 k] g1" "reaches c f [Hand_skip c1] g1" for op' r' k
    using reaches_one [of _ c g1 f] v64 by simp_all
  obtain c2 t2 g2 where
    p2: "take_position (formatLsn v) (Some t1) = (c2, Some t2)" "stands_at c g2 t2" "fst g2 = v"
      "snd g2 \<le> snd g1 + 1" "g1 < g2" "pg_key c2 = Some (full_key c g2)"
    using take_position_reaches [OF p1(2) assms(2,3)] p1(3,4) assms(5) by force
  have two: "reaches c f [Hand_change op' r' c1 k', Hand_change op r2 c2 k] g2"
    "reaches c f [Hand_change op r2 c2 k] g2" for op' r' r2 k k'
    using reaches_append [OF one(1) [of op' r' k'], of "[Hand_change op r2 c2 k]" g2]
      reaches_one [of "Hand_change op r2 c2 k" c g2] p1(5) p2(3,5,6) v64 by simp_all
  show ?thesis
  proof (cases "op \<in> set (rd_ops rd) \<and> on_our_table rd r \<and> op = Op_update \<and>
      reservesOldRow m (relation_keys r) pg_same_value")
    case False
    then have "\<exists>h. decode_change rd (formatLsn v) op r m (Some t) = ([h], Some t1) \<and> reaches c f [h] g1"
      using p1(1) one by (auto simp: decode_change_def)
    then show ?thesis using p1(2-4) by (metis le_SucI add_2_eq_Suc' Suc_eq_plus1)
  next
    case True
    let ?moved = "rowMoved m (relation_keys r) (rd_identifying rd) pg_same_value"
    have "decode_change rd (formatLsn v) op r m (Some t) =
      ((if ?moved then [Hand_change Op_delete (present (the (old_image m))) c1 False] else []) @
         [Hand_change op (withUnchanged (img_new m)) c2 ?moved], Some t2)"
      using True p1(1) p2(1) by (auto simp: decode_change_def)
    then have "\<exists>hs. decode_change rd (formatLsn v) op r m (Some t) = (hs, Some t2) \<and> reaches c f hs g2"
      using two by (cases ?moved) simp_all
    moreover have "snd g2 \<le> snd f + 2" using p1(4) p2(4) by simp
    ultimately show ?thesis using p2(2,3) by blast
  qed
qed

lemma decode_reaches:
  assumes "stands_at c f t" "position_ok c" "position_ok v" "fst f \<le> v" "snd f + 2 < 2 ^ 53" "inside_txn m"
  shows "\<exists>hs t' g. decode rd (formatLsn v) m (Some t) = (hs, Some t') \<and> stands_at c g t' \<and>
    fst g \<le> v \<and> snd g \<le> snd f + 2 \<and> reaches c f hs g"
proof -
  obtain c1 t1 g1 where
    p1: "take_position (formatLsn v) (Some t) = (c1, Some t1)" "stands_at c g1 t1" "fst g1 = v"
      "snd g1 \<le> snd f + 1" "f < g1" "pg_key c1 = Some (full_key c g1)"
    using take_position_reaches [OF assms(1-4)] assms(5) by force
  have one: "reaches c f [h] g1" if "handed_cursor h = c1" for h
    using p1 that assms(3) reaches_one [of h c g1 f] by simp
  show ?thesis
  proof (cases m)
    case (Msg_truncate rels)
    then have "\<exists>h. decode rd (formatLsn v) m (Some t) = ([h], Some t1) \<and> handed_cursor h = c1"
      using p1(1) by (simp add: decode_def)
    then obtain h where h: "decode rd (formatLsn v) m (Some t) = ([h], Some t1)" "handed_cursor h = c1"
      by blast
    then show ?thesis using p1(2-4) one [OF h(2)] by (intro exI [of _ "[h]"] exI [of _ t1] exI [of _ g1]) simp
  next
    case Msg_description
    then have "decode rd (formatLsn v) m (Some t) = ([], Some t)" by (simp add: decode_def)
    then show ?thesis using assms(1,4) by (intro exI [of _ "[]"] exI [of _ t] exI [of _ f]) simp
  next
    case (Msg_insert r i)
    with decode_change_reaches [OF assms(1-5), of rd Op_insert r i] show ?thesis
      by (simp add: decode_def) (metis order.refl)
  next
    case (Msg_update r i)
    with decode_change_reaches [OF assms(1-5), of rd Op_update r i] show ?thesis
      by (simp add: decode_def) (metis order.refl)
  next
    case (Msg_delete r i)
    with decode_change_reaches [OF assms(1-5), of rd Op_delete r i] show ?thesis
      by (simp add: decode_def) (metis order.refl)
  qed (use assms(6) in simp_all)
qed

lemma decode_changes_reach:
  assumes "stands_at c f t" "position_ok c" "list_all (\<lambda>(v, m). position_ok v \<and> inside_txn m) ms"
    "sorted (map fst ms)" "\<forall>x\<in>set ms. fst f \<le> fst x" "snd f + 2 * length ms < 2 ^ 53"
  shows "\<exists>hs t' g. (\<forall>rest. decode_all rd (Some t) (map (\<lambda>(v, m). (formatLsn v, m)) ms @ rest) =
      hs @ decode_all rd (Some t') rest) \<and> txn_commit t' = formatLsn c \<and> reaches c f hs g"
  using assms
proof (induction ms arbitrary: f t)
  case Nil
  then show ?case by (intro exI [of _ "[]"] exI [of _ t] exI [of _ f]) (simp add: stands_at_def)
next
  case (Cons x ms)
  obtain v m where x: "x = (v, m)" by (cases x)
  have vm: "position_ok v" "inside_txn m" "fst f \<le> v" "snd f + 2 < 2 ^ 53" using Cons.prems(3,5,6) x by auto
  obtain hs t' g where
    s: "decode rd (formatLsn v) m (Some t) = (hs, Some t')" "stands_at c g t'" "fst g \<le> v"
      "snd g \<le> snd f + 2" "reaches c f hs g"
    using decode_reaches [OF Cons.prems(1,2) vm(1,3,4,2)] by blast
  have "\<forall>y\<in>set ms. fst g \<le> fst y" using Cons.prems(4) s(3) x by auto
  moreover have "snd g + 2 * length ms < 2 ^ 53" using Cons.prems(6) s(4) by simp
  ultimately obtain hs' t'' g' where
    r: "\<forall>rest. decode_all rd (Some t') (map (\<lambda>(v, m). (formatLsn v, m)) ms @ rest) = hs' @ decode_all rd (Some t'') rest"
      "txn_commit t'' = formatLsn c" "reaches c g hs' g'"
    using Cons.IH [OF s(2) Cons.prems(2)] Cons.prems(3,4) by fastforce
  show ?case
    using r s(1) x reaches_append [OF s(5) r(3)]
    by (intro exI [of _ "hs @ hs'"] exI [of _ t''] exI [of _ g']) simp
qed


lemma wal_txn_positions:
  assumes "wal_txn_ok t"
  shows "position_ok (wt_commit t) \<and> position_ok (wt_end t) \<and>
    normalizeLsn (wt_commit_text t) = formatLsn (wt_commit t) \<and>
    normalizeLsn (wt_end_text t) = formatLsn (wt_end t) \<and> wt_commit_text t \<noteq> []"
proof -
  have "lsnValue [] = None" by (simp add: lsnValue_def)
  then show ?thesis
    using assms lsnValue_bound [of "wt_commit_text t"] lsnValue_bound [of "wt_end_text t"]
    by (auto simp: wal_txn_ok_def position_ok_def normalizeLsn_def)
qed

text \<open>
  A transaction hands over its changes at increasing positions of its own, then its end marker,
  and leaves nothing of itself behind.
\<close>

lemma txn_reaches:
  assumes "wal_txn_ok t"
  shows "\<exists>hs g. reaches (wt_commit t) (- 1, 0) hs g \<and>
    (\<forall>txn rest. decode_all rd txn (txn_messages t @ rest) =
       hs @ Hand_skip (end_cursor (formatLsn (wt_commit t)) (formatLsn (wt_end t))) # decode_all rd None rest)"
proof -
  note p = wal_txn_positions [OF assms]
  let ?t0 = "\<lparr>txn_commit = formatLsn (wt_commit t), txn_lsn = [], txn_shared = 0\<rparr>"
  have "stands_at (wt_commit t) (- 1, 0) ?t0" by (simp add: stands_at_def)
  moreover have "\<forall>x\<in>set (wt_changes t). fst (- 1 :: int, 0 :: nat) \<le> fst x"
    using assms by (auto simp: wal_txn_ok_def list_all_iff position_ok_def)
  ultimately obtain hs t' g where
    r: "\<forall>rest. decode_all rd (Some ?t0) (map (\<lambda>(v, m). (formatLsn v, m)) (wt_changes t) @ rest) =
        hs @ decode_all rd (Some t') rest" "txn_commit t' = formatLsn (wt_commit t)"
      "reaches (wt_commit t) (- 1, 0) hs g"
    using decode_changes_reach [of "wt_commit t" "(- 1, 0)" ?t0 "wt_changes t" rd] p assms
    by (auto simp: wal_txn_ok_def)
  have "decode_all rd txn (txn_messages t @ rest) =
      hs @ Hand_skip (end_cursor (formatLsn (wt_commit t)) (formatLsn (wt_end t))) # decode_all rd None rest" for txn rest
    using p r(1) by (simp add: txn_messages_def decode_def truthy_text_def)
  then show ?thesis using r(3) by blast
qed

lemma reaches_increasing:
  assumes "reaches c f hs g"
  shows "pg.increasing (map handed_cursor hs)"
proof -
  obtain ps where ps: "map (pg_key \<circ> handed_cursor) hs = map (\<lambda>p. Some (full_key c p)) ps" "sorted_wrt (<) ps"
    using assms by (auto simp: reaches_def)
  have len: "length hs = length ps" using ps(1) map_eq_imp_length_eq by blast
  have key: "pg_key (handed_cursor (hs ! i)) = Some (full_key c (ps ! i))" if "i < length hs" for i
    using that ps(1) len by (metis comp_apply nth_map)
  show ?thesis
    unfolding pg.increasing_def list_all_length sorted_wrt_iff_nth_less
    using len key pg.after_positions sorted_wrt_nth_less [OF ps(2)]
    by (auto simp: pg.known_def full_key_less)
qed

lemma reaches_keys:
  assumes "reaches c f hs g" and "h \<in> set hs"
  shows "\<exists>p. pg_key (handed_cursor h) = Some (full_key c p) \<and> f < p \<and> position_ok (fst p)"
proof -
  obtain ps where ps: "map (pg_key \<circ> handed_cursor) hs = map (\<lambda>p. Some (full_key c p)) ps"
    "\<forall>p\<in>set ps. f < p \<and> p \<le> g \<and> position_ok (fst p)"
    using assms(1) by (auto simp: reaches_def)
  have "pg_key (handed_cursor h) \<in> set (map (\<lambda>p. Some (full_key c p)) ps)"
    unfolding ps(1) [symmetric] using assms(2) by simp
  then obtain p where "p \<in> set ps" "pg_key (handed_cursor h) = Some (full_key c p)" by (auto simp del: split_paired_Ex)
  then show ?thesis using ps(2) by blast
qed


section \<open>The whole stream\<close>

definition stream_cursors :: "pg_reader \<Rightarrow> wal_txn list \<Rightarrow> string list" where
  "stream_cursors rd ts = map handed_cursor (decode_all rd None (concat (map txn_messages ts)))"

text \<open>
  What the order rests on: cursors in order, every one of them belonging to one of the
  transactions, an end marker carrying its transaction's end as what may be confirmed.
\<close>

definition txn_cursor :: "wal_txn \<Rightarrow> string \<Rightarrow> bool" where
  "txn_cursor t c =
     (c = end_cursor (formatLsn (wt_commit t)) (formatLsn (wt_end t)) \<or>
      (\<exists>v n. pg_key c = Some (wt_commit t, v, n) \<and> position_ok v))"

lemma end_cursor_pg_key:
  "wal_txn_ok t \<Longrightarrow>
     pg_key (end_cursor (formatLsn (wt_commit t)) (formatLsn (wt_end t))) = Some (wt_commit t, 2 ^ 64, 0)"
  using wal_txn_positions [of t] end_cursor_key [of "wt_commit t" "wt_end t"]
  by (simp add: pg_key_def position_ok_def END_MARK_def)

lemma txn_cursor_key:
  assumes "wal_txn_ok t" and "txn_cursor t c"
  shows "\<exists>x. pg_key c = Some (wt_commit t, x)"
  using assms end_cursor_pg_key by (auto simp: txn_cursor_def)

lemma txn_cursors:
  assumes "wal_txn_ok t"
  shows "\<exists>cs. pg.increasing (cs @ [end_cursor (formatLsn (wt_commit t)) (formatLsn (wt_end t))]) \<and>
    (\<forall>c\<in>set cs. txn_cursor t c) \<and>
    (\<forall>txn rest. map handed_cursor (decode_all rd txn (txn_messages t @ rest)) =
      cs @ end_cursor (formatLsn (wt_commit t)) (formatLsn (wt_end t)) # map handed_cursor (decode_all rd None rest))"
proof -
  obtain hs g where
    r: "reaches (wt_commit t) (- 1, 0) hs g"
      "\<forall>txn rest. decode_all rd txn (txn_messages t @ rest) =
        hs @ Hand_skip (end_cursor (formatLsn (wt_commit t)) (formatLsn (wt_end t))) # decode_all rd None rest"
    using txn_reaches [OF assms] by blast
  let ?fin = "end_cursor (formatLsn (wt_commit t)) (formatLsn (wt_end t))"
  have key: "\<exists>v n. pg_key c = Some (wt_commit t, v, n) \<and> position_ok v" if c: "c \<in> set (map handed_cursor hs)" for c
  proof -
    obtain h where h: "h \<in> set hs" "c = handed_cursor h" using c by auto
    show ?thesis using reaches_keys [OF r(1) h(1)] h(2) by (auto simp: full_key_def)
  qed
  have "lsnAfter ?fin (Some c)" if "c \<in> set (map handed_cursor hs)" for c
    using key [OF that] pg.after_positions [OF end_cursor_pg_key [OF assms]] by (fastforce simp: position_ok_def)
  then have "pg.increasing (map handed_cursor hs @ [?fin])"
    using reaches_increasing [OF r(1)] end_cursor_pg_key [OF assms]
    by (simp add: pg.increasing_append pg.increasing_Cons pg.known_def)
  then show ?thesis using key r(2)
    by (intro exI [of _ "map handed_cursor hs"]) (simp add: txn_cursor_def)
qed

lemma stream_cursors_of:
  assumes "wal_ok ts" and "c \<in> set (stream_cursors rd ts)"
  shows "\<exists>t\<in>set ts. txn_cursor t c"
  using assms
proof (induction ts)
  case (Cons t ts)
  then obtain cs where "\<forall>c\<in>set cs. txn_cursor t c"
    "stream_cursors rd (t # ts) = cs @ end_cursor (formatLsn (wt_commit t)) (formatLsn (wt_end t)) # stream_cursors rd ts"
    using txn_cursors [of t rd] by (auto simp: stream_cursors_def)
  then show ?case using Cons by (auto simp: txn_cursor_def)
qed (simp add: stream_cursors_def)

lemma wal_ok_member: "wal_ok ts \<Longrightarrow> t \<in> set ts \<Longrightarrow> wal_txn_ok t"
  by (induction ts) auto

lemma later_txn_after:
  assumes "wal_txn_ok t" "wal_txn_ok u" "wt_end t \<le> wt_commit u" "txn_cursor t a" "txn_cursor u b"
  shows "lsnAfter b (Some a)"
proof -
  have "wt_commit t < wt_commit u" using assms(1,3) by (simp add: wal_txn_ok_def)
  then show ?thesis
    using txn_cursor_key [OF assms(1,4)] txn_cursor_key [OF assms(2,5)] pg.after_positions by fastforce
qed

lemma stream_increasing: "wal_ok ts \<Longrightarrow> pg.increasing (stream_cursors rd ts)"
proof (induction ts)
  case (Cons t ts)
  let ?fin = "end_cursor (formatLsn (wt_commit t)) (formatLsn (wt_end t))"
  have t: "wal_txn_ok t" using Cons.prems by simp
  obtain cs where cs: "pg.increasing (cs @ [?fin])" "\<forall>c\<in>set cs. txn_cursor t c"
    "stream_cursors rd (t # ts) = (cs @ [?fin]) @ stream_cursors rd ts"
    using txn_cursors [OF t, of rd] by (auto simp: stream_cursors_def)
  have "lsnAfter y (Some x)" if x: "x \<in> set (cs @ [?fin])" and y: "y \<in> set (stream_cursors rd ts)" for x y
  proof -
    obtain u where u: "u \<in> set ts" "txn_cursor u y" using stream_cursors_of [OF _ y] Cons.prems by auto
    have "txn_cursor t x" using x cs(2) by (auto simp: txn_cursor_def)
    then show ?thesis
      using later_txn_after [OF t] wal_ok_member u Cons.prems by (fastforce simp: list_all_iff)
  qed
  then show ?case using cs Cons by (simp only: pg.increasing_append) simp
qed (simp add: stream_cursors_def)


text \<open>
  C7: Whatever a bridge reads and however its messages interleave with other tables', disabled
  operations and moved rows, the positions it is handed over a well-formed WAL stream strictly
  increase in the order in which they are handed over - across transactions that commit out of
  write order and across changes sharing one WAL position.
\<close>
theorem stream_positions_increase:
  assumes "wal_ok ts"
  shows "sorted_wrt (\<lambda>a b. lsnAfter b (Some a)) (stream_cursors rd ts) \<and> distinct (stream_cursors rd ts)"
  using stream_increasing [OF assms] pg.increasing_distinct by (simp add: pg.increasing_def)

definition two_txns :: "wal_txn list" where
  "two_txns =
     [\<lparr>wt_commit = 48, wt_end = 64, wt_commit_text = ''0/30'', wt_end_text = ''0/40'',
       wt_changes = [(32, Msg_insert (Some \<lparr>rel_name = ''t'', rel_schema = ''s'', rel_keyColumns = None\<rparr>)
                       \<lparr>img_key = None, img_old = None, img_new = [(''id'', JNum (Num 1))]\<rparr>),
                     (32, Msg_truncate [None])]\<rparr>,
      \<lparr>wt_commit = 80, wt_end = 96, wt_commit_text = ''00000000/00000050'', wt_end_text = ''0/60'',
       wt_changes = [(16, Msg_update (Some \<lparr>rel_name = ''t'', rel_schema = ''s'', rel_keyColumns = Some [''id'']\<rparr>)
                       \<lparr>img_key = Some [(''id'', JNum (Num 1))], img_old = None, img_new = [(''id'', JNum (Num 2))]\<rparr>)]\<rparr>]"

definition t_reader :: pg_reader where
  "t_reader = \<lparr>rd_table = ''t'', rd_schema = ''s'', rd_ops = [Op_insert, Op_update], rd_identifying = [''id''], rd_notices = True\<rparr>"

lemma two_txns_ok: "wal_ok two_txns"
proof -
  have v: "lsnValue ''0/30'' = Some 48" "lsnValue ''0/40'' = Some 64"
    "lsnValue ''00000000/00000050'' = Some 80" "lsnValue ''0/60'' = Some 96" by code_simp+
  show ?thesis by (simp add: two_txns_def wal_txn_ok_def v position_ok_def)
qed

lemma two_txns_cursors:
  "stream_cursors t_reader two_txns =
     [''0/30#0/20.0'', ''0/30#0/20.1'', ''0/30#c:0/40'', ''0/50#0/10.0'', ''0/50#0/10.1'', ''0/50#c:0/60'']"
  by code_simp

theorem stream_positions_increase_witness:
  "lsnAfter ''0/50#0/10.0'' (Some ''0/30#0/20.1'') \<and> distinct (stream_cursors t_reader two_txns)"
  using stream_positions_increase [OF two_txns_ok, of t_reader] by (simp add: two_txns_cursors)

text \<open>
  C10: After a restart the server sends transactions again. Whichever position the pipeline had
  reached, dropping what is not after it leaves exactly the rest of the stream: nothing that was
  not yet handed over is lost and nothing that was is handed over twice.
\<close>
theorem resumed_stream_is_the_rest:
  assumes "wal_ok ts" and "stream_cursors rd ts = earlier @ w # rest"
  shows "filter (\<lambda>c. lsnAfter c (Some w)) (stream_cursors rd ts) = rest"
  using pg.resume_exact stream_increasing [OF assms(1), of rd] unfolding assms(2) by blast

theorem resumed_stream_is_the_rest_witness:
  "filter (\<lambda>c. lsnAfter c (Some ''0/30#0/20.1'')) (stream_cursors t_reader two_txns) =
     [''0/30#c:0/40'', ''0/50#0/10.0'', ''0/50#0/10.1'', ''0/50#c:0/60'']"
  using resumed_stream_is_the_rest [OF two_txns_ok, of t_reader "[''0/30#0/20.0'']" "''0/30#0/20.1''"]
  by (simp add: two_txns_cursors)

section \<open>Acknowledging and keepalives\<close>

text \<open>
  The rest of \<^verbatim>\<open>startStream\<close>'s state over one subscription: the transaction, the last cursor
  handed over and the last one the pipeline confirmed, the position told to the server; with the
  messages still to come and the cursors handed over so far.
\<close>

record pg_link =
  lk_pending :: "(string \<times> pg_message) list"
  lk_txn :: "pg_txn option"
  lk_handed :: "string option"
  lk_confirmed :: "string option"
  lk_acked :: "string option"
  lk_log :: "string list"

definition link_receive :: "pg_reader \<Rightarrow> string \<Rightarrow> pg_message \<Rightarrow> pg_link \<Rightarrow> pg_link" where
  "link_receive rd lsn msg st =
     (let (hs, txn) = decode rd lsn msg (lk_txn st); cs = map handed_cursor hs
      in st\<lparr>lk_txn := txn, lk_handed := (if cs = [] then lk_handed st else Some (last cs)),
            lk_log := lk_log st @ cs\<rparr>)"

text \<open>\<^verbatim>\<open>ack\<close>: the new state, and what the client is told (\<^verbatim>\<open>service.acknowledge\<close>).\<close>

definition link_ack :: "string \<Rightarrow> pg_link \<Rightarrow> pg_link \<times> string option" where
  "link_ack cursor st =
     (let st1 = (if lsnAfter cursor (lk_confirmed st) then st\<lparr>lk_confirmed := Some cursor\<rparr> else st) in
      case truthy_text (Option.bind (parsePgCursor cursor) pos_ack) of
        None \<Rightarrow> (st1, None)
      | Some confirm \<Rightarrow>
          (case lsnForClient confirm of
             None \<Rightarrow> (st1, None)
           | Some told \<Rightarrow>
               if lsnAfter confirm (lk_acked st1) then (st1\<lparr>lk_acked := Some confirm\<rparr>, Some told)
               else (st1, None)))"

definition link_idle :: "bool \<Rightarrow> bool \<Rightarrow> pg_link \<Rightarrow> bool" where
  "link_idle handling drained st =
     (\<not> handling \<and> lk_txn st = None \<and> drained \<and>
      (case lk_handed st of None \<Rightarrow> True
       | Some h \<Rightarrow> (case lk_confirmed st of None \<Rightarrow> False | Some w \<Rightarrow> \<not> lsnAfter h (Some w))))"

definition link_keepalive :: "bool \<Rightarrow> bool \<Rightarrow> string \<Rightarrow> bool \<Rightarrow> pg_link \<Rightarrow> pg_link \<times> string option" where
  "link_keepalive handling drained lsn shouldRespond st =
     (let idle = link_idle handling drained st; reported = normalizeLsn lsn;
          st1 = (if idle \<and> parsePgCursor reported \<noteq> None \<and> lsnAfter reported (lk_acked st)
                 then st\<lparr>lk_acked := Some reported\<rparr> else st);
          told = Option.bind (truthy_text (lk_acked st1)) lsnForClient
      in (st1, if shouldRespond \<or> idle then told else None))"

text \<open>
  What may happen over a subscription: a message arrives and is handled (flow control awaits it),
  the pipeline confirms a cursor it was handed, or a keepalive arrives. PostgreSQL documents that
  everything committing before a keepalive's position was sent before the keepalive; when the
  client is drained and no transaction is open, that leaves only transactions committing at or
  after it.
\<close>

definition commits_from :: "int \<Rightarrow> string list \<Rightarrow> bool" where
  "commits_from p cs = list_all (\<lambda>c. case parsePgCursor c of None \<Rightarrow> True | Some q \<Rightarrow> p \<le> pos_commit q) cs"

definition still_to_come :: "pg_reader \<Rightarrow> pg_link \<Rightarrow> string list" where
  "still_to_come rd st = map handed_cursor (decode_all rd (lk_txn st) (lk_pending st))"

inductive link_steps :: "pg_reader \<Rightarrow> pg_link \<Rightarrow> pg_link \<Rightarrow> bool" for rd st0 where
  start: "link_steps rd st0 st0"
| receive: "link_steps rd st0 st \<Longrightarrow> lk_pending st = (lsn, msg) # ms \<Longrightarrow>
    link_steps rd st0 (link_receive rd lsn msg (st\<lparr>lk_pending := ms\<rparr>))"
| ack: "link_steps rd st0 st \<Longrightarrow> c \<in> set (lk_log st) \<Longrightarrow> link_steps rd st0 (fst (link_ack c st))"
| keepalive: "link_steps rd st0 st \<Longrightarrow>
    (\<And>p. \<not> handling \<Longrightarrow> drained \<Longrightarrow> lk_txn st = None \<Longrightarrow> lsnValue lsn = Some p \<Longrightarrow> commits_from p (still_to_come rd st)) \<Longrightarrow>
    link_steps rd st0 (fst (link_keepalive handling drained lsn respond st))"


subsection \<open>What is confirmed is durable\<close>

lemma parse_ack_change:
  "parsePgCursor c = Some q \<Longrightarrow> pos_ack q = Some e \<Longrightarrow> pos_change q = - 1 \<or> pos_change q = END_MARK"
  by (auto simp: parsePgCursor_def Let_def split: if_splits option.splits prod.splits)

lemma wal_ok_order:
  "wal_ok ts \<Longrightarrow> t \<in> set ts \<Longrightarrow> u \<in> set ts \<Longrightarrow> t = u \<or> wt_end t \<le> wt_commit u \<or> wt_end u \<le> wt_commit t"
  by (induction ts) (auto simp: list_all_iff)

lemma ack_separates:
  assumes wal: "wal_ok ts" and c: "c \<in> set (stream_cursors rd ts)" and d: "d \<in> set (stream_cursors rd ts)"
    and e: "parsePgCursor c = Some q" "pos_ack q = Some e" "lsnValue e = Some p"
    and order: "lsnAfter d (Some c)" and d': "parsePgCursor d = Some q'"
  shows "p \<le> pos_commit q'"
proof -
  obtain t where t: "t \<in> set ts" "txn_cursor t c" using stream_cursors_of [OF wal c] by blast
  obtain u where u: "u \<in> set ts" "txn_cursor u d" using stream_cursors_of [OF wal d] by blast
  note ok = wal_ok_member [OF wal t(1)] wal_ok_member [OF wal u(1)]
  have "c = end_cursor (formatLsn (wt_commit t)) (formatLsn (wt_end t))"
    using t(2) parse_ack_change [OF e(1,2)] e(1)
    by (auto simp: txn_cursor_def pg_key_def position_ok_def END_MARK_def)
  then have p: "p = wt_end t" and key: "pg_key c = Some (wt_commit t, 2 ^ 64, 0)"
    using e end_cursor_key [of "wt_commit t" "wt_end t"] wal_txn_positions [OF ok(1)] end_cursor_pg_key [OF ok(1)]
    by (auto simp: position_ok_def lsnValue_formatLsn)
  obtain x where x: "pg_key d = Some (wt_commit u, x)" using txn_cursor_key [OF ok(2) u(2)] by blast
  have com: "pos_commit q' = wt_commit u" using x d' by (simp add: pg_key_def)
  have less: "(wt_commit t, 2 ^ 64, 0) < (wt_commit u, x)"
    using order pg.after_positions [OF x key] by simp
  have "t \<noteq> u"
  proof
    assume "t = u"
    then have "x = (2 ^ 64, 0) \<or> (\<exists>v n. x = (v, n) \<and> position_ok v)"
      using u(2) x end_cursor_pg_key [OF ok(2)] by (auto simp: txn_cursor_def)
    then show False using less \<open>t = u\<close> by (auto simp: position_ok_def)
  qed
  moreover have "\<not> wt_end u \<le> wt_commit t"
    using less ok(2) by (auto simp: wal_txn_ok_def)
  ultimately show ?thesis using wal_ok_order [OF wal t(1) u(1)] p com by auto
qed

definition confirmed_up_to :: "int \<Rightarrow> pg_link \<Rightarrow> bool" where
  "confirmed_up_to p st =
     (\<forall>c\<in>set (lk_log st). \<forall>q. parsePgCursor c = Some q \<and> pos_commit q < p \<longrightarrow>
        (\<exists>w. lk_confirmed st = Some w \<and> \<not> lsnAfter c (Some w)))"

definition link_ok :: "pg_reader \<Rightarrow> string list \<Rightarrow> pg_link \<Rightarrow> bool" where
  "link_ok rd all_cursors st =
     (lk_log st @ still_to_come rd st = all_cursors \<and>
      lk_handed st = (if lk_log st = [] then None else Some (last (lk_log st))) \<and>
      pred_option pg.known (lk_confirmed st) \<and>
      (\<forall>a p. lk_acked st = Some a \<and> lsnValue a = Some p \<longrightarrow>
         commits_from p (still_to_come rd st) \<and> confirmed_up_to p st))"

lemma commits_fromD: "commits_from p cs \<Longrightarrow> c \<in> set cs \<Longrightarrow> parsePgCursor c = Some q \<Longrightarrow> p \<le> pos_commit q"
  by (fastforce simp: commits_from_def list_all_iff)

lemma link_ok_receive:
  assumes "link_ok rd cs st" and "lk_pending st = (lsn, msg) # ms"
  shows "link_ok rd cs (link_receive rd lsn msg (st\<lparr>lk_pending := ms\<rparr>))"
proof -
  obtain hs txn where d: "decode rd lsn msg (lk_txn st) = (hs, txn)" by force
  let ?st = "link_receive rd lsn msg (st\<lparr>lk_pending := ms\<rparr>)"
  have future: "still_to_come rd st = map handed_cursor hs @ still_to_come rd ?st"
    using assms(2) d by (simp add: still_to_come_def link_receive_def Let_def)
  have "commits_from p (still_to_come rd ?st) \<and> confirmed_up_to p ?st"
    if "commits_from p (still_to_come rd st)" "confirmed_up_to p st" for p
  proof -
    have log: "lk_log ?st = lk_log st @ map handed_cursor hs" "lk_confirmed ?st = lk_confirmed st"
      by (simp_all add: link_receive_def d Let_def)
    have "\<forall>h\<in>set hs. \<forall>q. parsePgCursor (handed_cursor h) = Some q \<longrightarrow> \<not> pos_commit q < p"
      using commits_fromD [OF \<open>commits_from p (still_to_come rd st)\<close>] unfolding future by force
    then show ?thesis using that unfolding future confirmed_up_to_def log commits_from_def by auto
  qed
  then show ?thesis
    using assms(1) future by (auto simp: link_ok_def link_receive_def d Let_def)
qed

lemma confirmed_up_to_mono:
  assumes "confirmed_up_to p st" "lk_log st' = lk_log st" "lk_confirmed st' = Some w'" "pg.known w'"
    and "list_all pg.known (lk_log st)" "pred_option pg.known (lk_confirmed st)"
    and "\<And>v. lk_confirmed st = Some v \<Longrightarrow> \<not> lsnAfter v (Some w')"
  shows "confirmed_up_to p st'"
  unfolding confirmed_up_to_def
proof (intro ballI allI impI)
  fix c q assume c: "c \<in> set (lk_log st')" and q: "parsePgCursor c = Some q \<and> pos_commit q < p"
  then obtain v where v: "lk_confirmed st = Some v" "\<not> lsnAfter c (Some v)"
    using assms(1,2) unfolding confirmed_up_to_def by fastforce
  have "\<not> lsnAfter c (Some w')"
    using pg.not_after_trans [of c v w'] c v assms(2,4-7) by (auto simp: list_all_iff)
  then show "\<exists>w. lk_confirmed st' = Some w \<and> \<not> lsnAfter c (Some w)" using assms(3) by simp
qed

lemma link_ok_known: "wal_ok ts \<Longrightarrow> link_ok rd (stream_cursors rd ts) st \<Longrightarrow>
    pg.increasing (lk_log st) \<and> list_all pg.known (lk_log st) \<and>
    (\<forall>c\<in>set (lk_log st). \<forall>d\<in>set (still_to_come rd st). lsnAfter d (Some c)) \<and>
    set (lk_log st) \<subseteq> set (stream_cursors rd ts) \<and> set (still_to_come rd st) \<subseteq> set (stream_cursors rd ts)"
  using stream_increasing [of ts rd] unfolding link_ok_def
  by (metis Un_upper1 Un_upper2 pg.increasing_append pg.increasing_def set_append)


lemma link_ok_confirm:
  assumes wal: "wal_ok ts" and ok: "link_ok rd (stream_cursors rd ts) st" and c: "c \<in> set (lk_log st)"
    and st': "st' = (if lsnAfter c (lk_confirmed st) then st\<lparr>lk_confirmed := Some c\<rparr> else st)"
  shows "link_ok rd (stream_cursors rd ts) st' \<and> (\<exists>w. lk_confirmed st' = Some w \<and> pg.known w \<and> \<not> lsnAfter c (Some w))"
proof -
  note log = link_ok_known [OF wal ok]
  have kc: "pg.known c" using log c by (simp add: list_all_iff)
  have kw: "pred_option pg.known (lk_confirmed st)" using ok by (simp add: link_ok_def)
  obtain w where w: "lk_confirmed st' = Some w" "pg.known w" "\<not> lsnAfter c (Some w)"
    "\<And>v. lk_confirmed st = Some v \<Longrightarrow> \<not> lsnAfter v (Some w)"
    using pg.furthest_covers [OF kc kw] st' by (auto simp: pg.furthest_def split: if_splits)
  have keep: "lk_log st' = lk_log st" "still_to_come rd st' = still_to_come rd st"
    "lk_handed st' = lk_handed st" "lk_acked st' = lk_acked st"
    using st' by (simp_all add: still_to_come_def)
  have "confirmed_up_to p st'" if "confirmed_up_to p st" for p
    using confirmed_up_to_mono [OF that keep(1) w(1,2) _ kw w(4)] log by simp
  then have "link_ok rd (stream_cursors rd ts) st'"
    using ok keep(1) w(1,2) unfolding link_ok_def keep by auto
  then show ?thesis using w(1-3) by blast
qed

lemma link_ok_ack:
  assumes wal: "wal_ok ts" and ok: "link_ok rd (stream_cursors rd ts) st" and c: "c \<in> set (lk_log st)"
  shows "link_ok rd (stream_cursors rd ts) (fst (link_ack c st))"
proof -
  define st1 where "st1 = (if lsnAfter c (lk_confirmed st) then st\<lparr>lk_confirmed := Some c\<rparr> else st)"
  obtain w where ok1: "link_ok rd (stream_cursors rd ts) st1"
    and w: "lk_confirmed st1 = Some w" "pg.known w" "\<not> lsnAfter c (Some w)"
    using link_ok_confirm [OF wal ok c st1_def] by blast
  note log = link_ok_known [OF wal ok1]
  have c1: "c \<in> set (lk_log st1)" using c by (simp add: st1_def)
  have kc: "pg.known c" using log c1 by (simp add: list_all_iff)
  have moved: "link_ok rd (stream_cursors rd ts) (st1\<lparr>lk_acked := Some e\<rparr>)"
    if q: "parsePgCursor c = Some q" "pos_ack q = Some e" for q e
  proof -
    have "commits_from p (still_to_come rd st1) \<and> confirmed_up_to p st1" if p: "lsnValue e = Some p" for p
    proof -
      have sep: "p \<le> pos_commit q'" if "d \<in> set (lk_log st1) \<union> set (still_to_come rd st1)"
        "lsnAfter d (Some c)" "parsePgCursor d = Some q'" for d q'
        using ack_separates [OF wal _ _ q p that(2,3)] log c1 that(1) by blast
      have "commits_from p (still_to_come rd st1)"
        unfolding commits_from_def list_all_iff
      proof
        fix d assume d: "d \<in> set (still_to_come rd st1)"
        then have "lsnAfter d (Some c)" using log c1 by blast
        then show "case parsePgCursor d of None \<Rightarrow> True | Some q \<Rightarrow> p \<le> pos_commit q"
          using sep [of d] d by (auto split: option.splits)
      qed
      moreover have "\<not> lsnAfter d (Some w)"
        if d: "d \<in> set (lk_log st1)" "parsePgCursor d = Some q'" "pos_commit q' < p" for d q'
      proof -
        have "\<not> lsnAfter d (Some c)" using sep [of d q'] d by auto
        then show ?thesis using pg.not_after_trans [OF _ kc w(2) _ w(3)] log d(1) by (auto simp: list_all_iff)
      qed
      ultimately show ?thesis using w(1) by (auto simp: confirmed_up_to_def)
    qed
    then show ?thesis using ok1 by (auto simp: link_ok_def still_to_come_def confirmed_up_to_def)
  qed
  then show ?thesis using ok1
    by (auto simp: link_ack_def st1_def [symmetric] Let_def truthy_text_def bind_eq_Some_conv split: option.splits if_splits)
qed

lemma link_ok_keepalive:
  assumes wal: "wal_ok ts" and ok: "link_ok rd (stream_cursors rd ts) st"
    and sent: "\<And>p. \<not> handling \<Longrightarrow> drained \<Longrightarrow> lk_txn st = None \<Longrightarrow> lsnValue lsn = Some p \<Longrightarrow> commits_from p (still_to_come rd st)"
  shows "link_ok rd (stream_cursors rd ts) (fst (link_keepalive handling drained lsn respond st))"
proof (cases "link_idle handling drained st")
  case True
  note log = link_ok_known [OF wal ok]
  have "confirmed_up_to p st" for p
  proof (cases "lk_log st = []")
    case False
    let ?h = "last (lk_log st)"
    obtain w where w: "lk_confirmed st = Some w" "\<not> lsnAfter ?h (Some w)"
      using True False ok by (auto simp: link_idle_def link_ok_def split: option.splits)
    have kw: "pg.known w" using ok w(1) by (simp add: link_ok_def)
    have kh: "pg.known ?h" using log False by (simp add: list_all_iff)
    have inc: "pg.increasing (butlast (lk_log st) @ [?h])" using log False by simp
    have "\<not> lsnAfter d (Some ?h)" if "d \<in> set (lk_log st)" for d
    proof (cases "d = ?h")
      case True
      then show ?thesis using pg.after_irrefl [OF kh] by simp
    next
      case not_last: False
      then have "d \<in> set (butlast (lk_log st))" using that False in_set_butlast_appendI
        by (metis append_butlast_last_id Un_iff empty_iff empty_set insert_iff list.simps(15) set_append)
      then have "lsnAfter ?h (Some d)" using inc by (simp add: pg.increasing_append)
      moreover have "pg.known d" using log that by (simp add: list_all_iff)
      ultimately show ?thesis using pg.after_asym kh by blast
    qed
    then have "\<not> lsnAfter d (Some w)" if "d \<in> set (lk_log st)" for d
      using pg.not_after_trans [OF _ kh kw _ w(2)] log that by (auto simp: list_all_iff)
    then show ?thesis using w(1) by (auto simp: confirmed_up_to_def)
  qed (simp add: confirmed_up_to_def)
  moreover have "lsnValue (normalizeLsn lsn) = lsnValue lsn"
    using lsnValue_bound [of lsn] lsnValue_formatLsn by (auto simp: normalizeLsn_def split: option.splits)
  then have "commits_from p (still_to_come rd st)" if "lsnValue (normalizeLsn lsn) = Some p" for p
    using sent [of p] that True by (simp add: link_idle_def)
  ultimately show ?thesis
    using ok by (auto simp: link_keepalive_def Let_def link_ok_def still_to_come_def confirmed_up_to_def)
next
  case False
  then show ?thesis using ok by (simp add: link_keepalive_def Let_def)
qed


definition link_start :: "wal_txn list \<Rightarrow> string option \<Rightarrow> string option \<Rightarrow> pg_link" where
  "link_start ts w a =
     \<lparr>lk_pending = concat (map txn_messages ts), lk_txn = None, lk_handed = None,
      lk_confirmed = w, lk_acked = a, lk_log = []\<rparr>"

lemma link_ok_reachable:
  assumes "wal_ok ts" and "pred_option pg.known w0"
    and "\<And>a p. a0 = Some a \<Longrightarrow> lsnValue a = Some p \<Longrightarrow> commits_from p (stream_cursors rd ts)"
    and "link_steps rd (link_start ts w0 a0) st"
  shows "link_ok rd (stream_cursors rd ts) st"
  using assms(4)
proof (induction rule: link_steps.induct)
  case start
  then show ?case
    using assms(2,3) by (auto simp: link_ok_def link_start_def still_to_come_def stream_cursors_def confirmed_up_to_def)
next
  case (receive st lsn msg ms)
  then show ?case using link_ok_receive by blast
next
  case (ack st c)
  then show ?case using link_ok_ack [OF assms(1)] by blast
next
  case (keepalive st handling drained lsn respond)
  then show ?case using link_ok_keepalive [OF assms(1), of rd st handling drained lsn respond] by blast
qed


definition receive_next :: "pg_reader \<Rightarrow> pg_link \<Rightarrow> pg_link" where
  "receive_next rd st =
     (case lk_pending st of [] \<Rightarrow> st | (lsn, msg) # ms \<Rightarrow> link_receive rd lsn msg (st\<lparr>lk_pending := ms\<rparr>))"

lemma link_steps_next: "link_steps rd st0 st \<Longrightarrow> link_steps rd st0 (receive_next rd st)"
  by (auto simp: receive_next_def split: list.splits intro: link_steps.receive)


section \<open>Resuming\<close>

text \<open>\<^verbatim>\<open>confirmedPosition\<close>: what keepalives are answered with first; \<open>slot\<close> is what the server says.\<close>

definition confirmedPosition :: "string option \<Rightarrow> string option \<Rightarrow> string option" where
  "confirmedPosition slot fromCursor =
     (case (truthy_text slot, truthy_text fromCursor) of
        (None, _) \<Rightarrow> fromCursor
      | (Some s, None) \<Rightarrow> Some s
      | (Some s, Some f) \<Rightarrow> if lsnAfter s (Some f) then Some s else Some f)"

text \<open>\<^verbatim>\<open>backoffMs\<close> (\<^verbatim>\<open>cdc/cdc-provider.ts\<close>); the attempts stay far below where doubles round.\<close>

definition backoffMs :: "int \<Rightarrow> int \<Rightarrow> int \<Rightarrow> int" where
  "backoffMs attempt base cap = min cap (base * 2 ^ nat (max 0 attempt))"

definition opEnabled :: "cdc_operation \<Rightarrow> cdc_operation list \<Rightarrow> bool" where
  "opEnabled op enabled = (op \<in> set enabled)"

lemma backoffMs_bounds:
  "0 < base \<Longrightarrow> 0 < cap \<Longrightarrow> 0 < backoffMs n base cap \<and> backoffMs n base cap \<le> cap \<and>
     (n \<le> m \<longrightarrow> backoffMs n base cap \<le> backoffMs m base cap)"
proof -
  assume "0 < base" "0 < cap"
  moreover have "base * 2 ^ nat (max 0 n) \<le> base * 2 ^ nat (max 0 m)" if "n \<le> m"
    using \<open>0 < base\<close> that by (intro mult_left_mono power_increasing) auto
  ultimately show ?thesis unfolding backoffMs_def by (auto intro: min.coboundedI2)
qed


section \<open>Positions and settings\<close>

text \<open>
  Which columns identify a row at a bridge's destination changes whether an old row is handed
  over, never the position its update takes nor any position after it. Which operations a bridge
  captures does change positions: a key-changing update takes two when updates are captured and
  one when they are not, so the positions of a re-sent transaction are not the same after the
  operations are edited, as the module's comment says they are.
\<close>
theorem positions_and_settings:
  "snd (decode_change rd lsn op r m txn) = snd (decode_change (rd\<lparr>rd_identifying := ids\<rparr>) lsn op r m txn) \<and>
   handed_cursor (last (fst (decode_change rd lsn op r m txn))) =
     handed_cursor (last (fst (decode_change (rd\<lparr>rd_identifying := ids\<rparr>) lsn op r m txn))) \<and>
   stream_cursors t_reader two_txns ! 4 = ''0/50#0/10.1'' \<and>
   ''0/50#0/10.1'' \<notin> set (stream_cursors (t_reader\<lparr>rd_ops := [Op_insert]\<rparr>) two_txns)"
proof -
  have ours: "on_our_table (rd\<lparr>rd_identifying := ids\<rparr>) r = on_our_table rd r"
    by (simp add: on_our_table_def split: option.split)
  have "stream_cursors (t_reader\<lparr>rd_ops := [Op_insert]\<rparr>) two_txns =
      [''0/30#0/20.0'', ''0/30#0/20.1'', ''0/30#c:0/40'', ''0/50#0/10.0'', ''0/50#c:0/60'']"
    by code_simp
  then show ?thesis
    by (auto simp: decode_change_def ours two_txns_cursors Let_def split: prod.splits)
qed

end
