(* ===== verification/Cdc_Pipeline.thy ===== *)
theory Cdc_Pipeline
  imports Isolate_Failures Filter_Match Postgres_Stream "HOL-Library.List_Lexorder" "HOL-Library.Char_ord"
begin

text \<open>
  The live pipeline of one bridge, \<^verbatim>\<open>apps/api/src/bridges/bridge-cdc.service.ts\<close>: changes
  are accepted one after another, gathered into batches, delivered with at most one delivery in
  flight, recorded, parked or stopped on, and checkpointed. What the pipeline calls - the sink,
  the metadata store, the dead-letter queue, the source, the echo guard, the schema check - is
  \<open>cdc_env\<close>, functions on a world \<open>'w\<close> of their own that every call threads through; a call
  that may throw answers \<open>None\<close> or \<open>False\<close> when it does.
\<close>

section \<open>Data\<close>

record cdc_change =
  ch_op :: cdc_operation
  ch_row :: row
  ch_cursor :: string
  ch_keyChanged :: bool

record buffered =
  bf_change :: cdc_change
  bf_row :: row
  bf_origins :: "string list"
  bf_keySig :: "string option"

record delivery_outcome =
  oc_success :: bool
  oc_attempts :: nat
  oc_error :: "string option"
  oc_succeededTargets :: "string list option"

record dead_letter =
  dl_sequence :: nat
  dl_op :: "cdc_operation option"
  dl_rows :: "row list"
  dl_cursor :: string
  dl_error :: string
  dl_succeededTargets :: "string list"

datatype echo_verdict = Not_echo | Echo_drop | Echo_carry "string list"

text \<open>What the pipeline has done to the world outside, in order.\<close>

datatype cdc_event =
    Ev_delivered "row list"
  | Ev_parked "row list"
  | Ev_recorded nat nat bool
  | Ev_noticed nat
  | Ev_checkpoint nat string
  | Ev_halted bool

record 'w cdc_env =
  env_bridge :: bridge_input
  env_primaryKey :: "string list option"
  env_tracksSchema :: bool
  env_sourceFilters :: bool
  env_host :: host
  env_after :: "string \<Rightarrow> string option \<Rightarrow> bool"
  env_maxBatch :: nat
  env_batchBytes :: nat
  env_maxFailures :: nat
  env_deadLetterMax :: nat
  env_deliver :: "'w \<Rightarrow> row list \<Rightarrow> cdc_operation option \<Rightarrow> nat \<Rightarrow> string list \<Rightarrow> delivery_outcome \<times> 'w"
  env_record :: "'w \<Rightarrow> nat \<Rightarrow> row list \<Rightarrow> bool \<times> 'w"
  env_notice :: "'w \<Rightarrow> nat \<Rightarrow> bool \<times> 'w"
  env_park :: "'w \<Rightarrow> dead_letter list \<Rightarrow> nat \<Rightarrow> bool \<times> 'w"
  env_pendingRows :: "'w \<Rightarrow> nat option \<times> 'w"
  env_save :: "'w \<Rightarrow> nat \<Rightarrow> string \<Rightarrow> bool \<times> 'w"
  env_browse :: "'w \<Rightarrow> row \<Rightarrow> row option option \<times> 'w"
  env_wholeValue :: "'w \<Rightarrow> bool \<times> 'w"
  env_drift :: "'w \<Rightarrow> string option \<times> 'w"
  env_echo :: "'w \<Rightarrow> cdc_operation \<Rightarrow> row \<Rightarrow> echo_verdict \<times> 'w"

datatype linger = For_rows | For_position

text \<open>A batch handed to \<^verbatim>\<open>deliverBatch\<close> and not finished: \<^verbatim>\<open>stream.inflight\<close>.\<close>

record cdc_batch =
  ba_items :: "buffered list"
  ba_op :: "cdc_operation option"
  ba_reach :: string

text \<open>
  \<^verbatim>\<open>interface Stream\<close>: what changes while it runs, with \<open>live\<close> for "this stream is still the
  bridge's", the events so far, and the items of finished batches and passed positions, which
  no operation reads.
\<close>

record 'w cdc_stream =
  cs_seq :: nat
  cs_watermark :: "string option"
  cs_buffer :: "buffered list"
  cs_bufferOp :: "cdc_operation option"
  cs_bufferKeys :: "string list"
  cs_tailCursor :: "string option"
  cs_timerFor :: "linger option"
  cs_byteCapped :: "nat option"
  cs_inflight :: "cdc_batch option"
  cs_halted :: bool
  cs_live :: bool
  cs_failures :: nat
  cs_signature :: "string option"
  cs_world :: 'w
  cs_events :: "cdc_event list"
  cs_done :: "buffered list"
  cs_passed :: "string list"

definition DEAD_LETTER_CHUNK :: nat where
  "DEAD_LETTER_CHUNK = 500"

definition SETTLE_ATTEMPTS :: nat where
  "SETTLE_ATTEMPTS = 3"

definition isolation_limits :: "string option \<Rightarrow> string list \<Rightarrow> isolation_options" where
  "isolation_limits err done_targets =
     \<lparr>batchError = err, alreadySucceeded = done_targets, maxAttempts = 128, maxPoisoned = 100,
      failuresBeforeSystemic = 14\<rparr>"

section \<open>Steps of the world\<close>

definition happened :: "cdc_event \<Rightarrow> 'w cdc_stream \<Rightarrow> 'w cdc_stream" where
  "happened e st = st\<lparr>cs_events := cs_events st @ [e]\<rparr>"

definition halt :: "bool \<Rightarrow> 'w cdc_stream \<Rightarrow> 'w cdc_stream" where
  "halt paused st = (if cs_halted st then st else happened (Ev_halted paused) (st\<lparr>cs_halted := True\<rparr>))"

text \<open>\<^verbatim>\<open>record\<close>; \<open>False\<close>: it threw.\<close>

definition record_delivery ::
  "'w cdc_env \<Rightarrow> nat \<Rightarrow> row list \<Rightarrow> bool \<Rightarrow> 'w cdc_stream \<Rightarrow> bool \<times> 'w cdc_stream" where
  "record_delivery env seq rs success st =
     (let (ok, w) = env_record env (cs_world st) seq rs; st1 = st\<lparr>cs_world := w\<rparr>
      in (ok, if ok then happened (Ev_recorded seq (length rs) success) st1 else st1))"

definition park_letters ::
  "'w cdc_env \<Rightarrow> dead_letter list \<Rightarrow> nat \<Rightarrow> 'w cdc_stream \<Rightarrow> bool \<times> 'w cdc_stream" where
  "park_letters env letters replaceFrom st =
     (let (ok, w) = env_park env (cs_world st) letters replaceFrom; st1 = st\<lparr>cs_world := w\<rparr>
      in (ok, if ok then happened (Ev_parked (concat (map dl_rows letters))) st1 else st1))"

definition checkpoint :: "'w cdc_env \<Rightarrow> nat \<Rightarrow> string \<Rightarrow> 'w cdc_stream \<Rightarrow> bool \<times> 'w cdc_stream" where
  "checkpoint env nextSeq cursor st =
     (if cs_halted st then (True, st)
      else
        (let (ok, w) = env_save env (cs_world st) nextSeq cursor; st1 = st\<lparr>cs_world := w\<rparr>
         in if ok then
              (True, happened (Ev_checkpoint nextSeq cursor)
                 (st1\<lparr>cs_seq := nextSeq, cs_watermark := Some cursor\<rparr>))
            else (False, st1)))"

text \<open>\<^verbatim>\<open>attempt\<close>: the sink answers with an outcome (a throw is folded into one).\<close>

definition attempt ::
  "'w cdc_env \<Rightarrow> row list \<Rightarrow> cdc_operation option \<Rightarrow> nat \<Rightarrow> string list \<Rightarrow> 'w \<Rightarrow> delivery_outcome \<times> 'w" where
  "attempt env rs op seq skipTargets w = env_deliver env w rs op seq skipTargets"

definition rowKeys :: "string list option \<Rightarrow> row list \<Rightarrow> jsval list option" where
  "rowKeys pk rs =
     (case pk of
        None \<Rightarrow> None
      | Some [] \<Rightarrow> None
      | Some [c] \<Rightarrow> Some (map (\<lambda>r. row_get r c) rs)
      | Some cs \<Rightarrow> Some (map (\<lambda>r. JArr (map (row_get r) cs)) rs))"

section \<open>A batch that failed\<close>

fun chunks :: "nat \<Rightarrow> 'a list \<Rightarrow> 'a list list" where
  "chunks n [] = []"
| "chunks n (x # xs) = (if n = 0 then [x # xs] else take n (x # xs) # chunks n (drop n (x # xs)))"

datatype batch_end = Threw | Stopped | Go_on nat

text \<open>Carry on with the next store write unless the last one threw.\<close>

definition and_then ::
  "bool \<times> 's \<Rightarrow> ('s \<Rightarrow> batch_end \<times> 's) \<Rightarrow> batch_end \<times> 's" where
  "and_then r f = (if fst r then f (snd r) else (Threw, snd r))"

definition stop_batch ::
  "'w cdc_env \<Rightarrow> nat \<Rightarrow> row list \<Rightarrow> 'w cdc_stream \<Rightarrow> batch_end \<times> 'w cdc_stream" where
  "stop_batch env seq rs st =
     and_then (record_delivery env seq rs False st) (\<lambda>st. (Stopped, halt True st))"

definition canIsolate :: "bridge_destination \<Rightarrow> row list \<Rightarrow> bool" where
  "canIsolate dest rs =
     (case dest of
        Http h \<Rightarrow> False
      | Database ts \<Rightarrow> 1 < length rs \<and> list_all (\<lambda>t. dt_writeMode t \<noteq> Insert_only) ts)"

definition targets_of :: "delivery_outcome \<Rightarrow> string list" where
  "targets_of o' = (case oc_succeededTargets o' of None \<Rightarrow> [] | Some ts \<Rightarrow> ts)"

definition isolation_try ::
  "'w cdc_env \<Rightarrow> cdc_operation option \<Rightarrow> nat \<Rightarrow> (row, 'w) attempt_fn" where
  "isolation_try env op seq =
     (\<lambda>w part skip. let (o', w') = attempt env part op seq skip w
        in (\<lparr>att_ok = oc_success o', att_error = oc_error o', att_targets = targets_of o'\<rparr>, w'))"

definition letters_for ::
  "nat \<Rightarrow> cdc_operation option \<Rightarrow> string \<Rightarrow> (row list \<times> string \<times> string list) list \<Rightarrow> dead_letter list" where
  "letters_for seq op cursor failed =
     map (\<lambda>(rs, e, ts). \<lparr>dl_sequence = seq, dl_op = op, dl_rows = rs, dl_cursor = cursor,
       dl_error = e, dl_succeededTargets = ts\<rparr>) failed"

text \<open>Park first, record second; the caller advances.\<close>

definition set_aside ::
  "'w cdc_env \<Rightarrow> cdc_operation option \<Rightarrow> nat \<Rightarrow> string \<Rightarrow> row list \<Rightarrow>
     (row list \<times> string \<times> string list) list \<Rightarrow> 'w cdc_stream \<Rightarrow> batch_end \<times> 'w cdc_stream" where
  "set_aside env op seq cursor delivered failed st =
     (let failedSeq = (if delivered \<noteq> [] then seq + 1 else seq)
      in and_then (park_letters env (letters_for failedSeq op cursor failed) seq st) (\<lambda>st.
         and_then (if delivered \<noteq> [] then record_delivery env seq delivered True st else (True, st)) (\<lambda>st.
         and_then (record_delivery env failedSeq (concat (map fst failed)) False st) (\<lambda>st.
           (Go_on (failedSeq + 1), st)))))"

text \<open>Is carrying on safe? Several batches that delivered nothing, or a full queue, say it is not.\<close>

definition carry_on ::
  "'w cdc_env \<Rightarrow> row list \<Rightarrow> cdc_operation option \<Rightarrow> nat \<Rightarrow> string \<Rightarrow> row list \<Rightarrow>
     (row list \<times> string \<times> string list) list \<Rightarrow> 'w cdc_stream \<Rightarrow> batch_end \<times> 'w cdc_stream" where
  "carry_on env rs op seq cursor delivered failed st =
     (if failed = [] then
        and_then (record_delivery env seq rs True (st\<lparr>cs_failures := 0\<rparr>)) (\<lambda>st. (Go_on (seq + 1), st))
      else
        (let st1 = st\<lparr>cs_failures := (if delivered \<noteq> [] then 0 else cs_failures st + 1)\<rparr>
         in if env_maxFailures env \<le> cs_failures st1 then stop_batch env seq rs st1
            else
              (let (held, w) = env_pendingRows env (cs_world st1); st2 = st1\<lparr>cs_world := w\<rparr>
               in case held of
                    None \<Rightarrow> (Threw, st2)
                  | Some n \<Rightarrow>
                      if env_deadLetterMax env < n + length (concat (map fst failed))
                      then stop_batch env seq rs st2
                      else set_aside env op seq cursor delivered failed st2)))"

definition handleFailedBatch ::
  "'w cdc_env \<Rightarrow> row list \<Rightarrow> cdc_operation option \<Rightarrow> nat \<Rightarrow> string \<Rightarrow> delivery_outcome \<Rightarrow>
     'w cdc_stream \<Rightarrow> batch_end \<times> 'w cdc_stream" where
  "handleFailedBatch env rs op seq cursor outcome st =
     (let b = env_bridge env;
          reason = (case oc_error outcome of None \<Rightarrow> ''delivery failed'' | Some e \<Rightarrow> e)
      in if bd_onError (bi_delivery b) = On_error_abort then stop_batch env seq rs st
         else if canIsolate (bi_destination b) rs then
           (let (found, w) = isolateFailures (isolation_try env op seq)
                  (isolation_limits (Some reason) (targets_of outcome)) rs (cs_world st);
                st1 = (let s = st\<lparr>cs_world := w\<rparr> in
                  if iso_delivered found = [] then s else happened (Ev_delivered (iso_delivered found)) s)
            in if iso_systemic found then stop_batch env seq rs st1
               else carry_on env rs op seq cursor (iso_delivered found)
                 (map (\<lambda>p. ([p_row p], p_error p, p_targets p)) (iso_poisoned found)) st1)
         else carry_on env rs op seq cursor []
           (map (\<lambda>part. (part, reason, targets_of outcome)) (chunks DEAD_LETTER_CHUNK rs)) st)"

section \<open>Settling and delivering\<close>

text \<open>
  \<^verbatim>\<open>settle\<close>: the work is retried while it throws, three times in all; then the bridge stops.
\<close>

fun settle ::
  "nat \<Rightarrow> ('w cdc_stream \<Rightarrow> bool \<times> 'w cdc_stream) \<Rightarrow> 'w cdc_stream \<Rightarrow> 'w cdc_stream" where
  "settle 0 work st = halt False st"
| "settle (Suc n) work st =
     (if cs_halted st then st
      else case work st of (ok, st') \<Rightarrow> if ok then st' else settle n work st')"

definition settle_batch ::
  "'w cdc_env \<Rightarrow> row list \<Rightarrow> cdc_operation option \<Rightarrow> nat \<Rightarrow> string \<Rightarrow> delivery_outcome \<Rightarrow>
     'w cdc_stream \<Rightarrow> bool \<times> 'w cdc_stream" where
  "settle_batch env rs op seq cursor outcome st =
     (if oc_success outcome then
        (let (ok, st1) = record_delivery env seq rs True st
         in if ok then checkpoint env (seq + 1) cursor (st1\<lparr>cs_failures := 0\<rparr>) else (False, st1))
      else
        (case handleFailedBatch env rs op seq cursor outcome st of
           (Threw, st1) \<Rightarrow> (False, st1)
         | (Stopped, st1) \<Rightarrow> (True, st1)
         | (Go_on n, st1) \<Rightarrow> checkpoint env n cursor st1))"

text \<open>
  \<^verbatim>\<open>deliverBatch\<close>, from the moment its delivery was begun to its end. It began when the stream
  was not halted; what has happened since is in \<open>st\<close>. The finished items are kept in \<open>cs_done\<close>.
\<close>

definition deliverBatch :: "'w cdc_env \<Rightarrow> cdc_batch \<Rightarrow> 'w cdc_stream \<Rightarrow> 'w cdc_stream" where
  "deliverBatch env b st =
     (if ba_items b = [] then settle SETTLE_ATTEMPTS (checkpoint env (cs_seq st) (ba_reach b)) st
      else
        (let rs = map bf_row (ba_items b); seq = cs_seq st;
             (outcome, w) = attempt env rs (ba_op b) seq [] (cs_world st);
             st1 = (let s = st\<lparr>cs_world := w\<rparr> in if oc_success outcome then happened (Ev_delivered rs) s else s)
         in settle SETTLE_ATTEMPTS (settle_batch env rs (ba_op b) seq (ba_reach b) outcome) st1))"

definition finish_inflight :: "'w cdc_env \<Rightarrow> 'w cdc_stream \<Rightarrow> 'w cdc_stream" where
  "finish_inflight env st =
     (case cs_inflight st of
        None \<Rightarrow> st
      | Some b \<Rightarrow>
          (let st1 = deliverBatch env b (st\<lparr>cs_inflight := None\<rparr>)
           in if cs_halted st1 then st1 else st1\<lparr>cs_done := cs_done st1 @ ba_items b\<rparr>))"

text \<open>\<^verbatim>\<open>flush\<close>: waits for the delivery in flight, then hands the pending batch over.\<close>

definition flush :: "'w cdc_env \<Rightarrow> 'w cdc_stream \<Rightarrow> 'w cdc_stream" where
  "flush env st =
     (let st0 = st\<lparr>cs_timerFor := None\<rparr>
      in if cs_tailCursor st0 = None \<or> cs_halted st0 then st0
         else
           (let st1 = finish_inflight env st0
            in if \<not> cs_live st1 then st1
               else
                 (case cs_tailCursor st1 of
                    None \<Rightarrow> st1
                  | Some reach \<Rightarrow>
                      if cs_halted st1 then st1
                      else st1\<lparr>cs_tailCursor := None, cs_buffer := [], cs_bufferKeys := [],
                             cs_bufferOp := None, cs_byteCapped := None,
                             cs_inflight := Some \<lparr>ba_items = cs_buffer st1, ba_op = cs_bufferOp st1,
                                                   ba_reach = reach\<rparr>\<rparr>)))"

text \<open>\<^verbatim>\<open>scheduleFlush\<close>: which linger timer runs; a row never inherits the longer wait.\<close>

definition scheduleFlush :: "'w cdc_stream \<Rightarrow> 'w cdc_stream" where
  "scheduleFlush st =
     (let want = (if cs_buffer st \<noteq> [] then For_rows else For_position)
      in if cs_timerFor st = Some want \<or> cs_timerFor st = Some For_rows then st
         else st\<lparr>cs_timerFor := Some want\<rparr>)"

definition notePosition :: "'w cdc_env \<Rightarrow> string \<Rightarrow> 'w cdc_stream \<Rightarrow> 'w cdc_stream" where
  "notePosition env cursor st =
     (if \<not> cs_live st \<or> cs_halted st then st
      else if \<not> env_after env cursor
          (case cs_tailCursor st of None \<Rightarrow> cs_watermark st | Some t \<Rightarrow> Some t) then st
      else scheduleFlush (st\<lparr>cs_tailCursor := Some cursor\<rparr>))"

section \<open>Taking a change\<close>

definition has_unchanged :: "row \<Rightarrow> bool" where
  "has_unchanged r = list_ex (\<lambda>(k, v). v = JUnchanged) r"

definition without_unchanged :: "bridge_destination \<Rightarrow> row \<Rightarrow> row" where
  "without_unchanged dest r =
     (case dest of Http h \<Rightarrow> filter (\<lambda>(k, v). v \<noteq> JUnchanged) r | Database ts \<Rightarrow> r)"

definition fill_in :: "row \<Rightarrow> row \<Rightarrow> string list \<Rightarrow> row" where
  "fill_in r current missing =
     foldl (\<lambda>acc c. if row_has current c then obj_set acc c (row_get current c) else acc) r missing"

definition source_filters :: "bridge_input \<Rightarrow> filter_spec list" where
  "source_filters b =
     (case bi_source b of
        Query_source q \<Rightarrow> []
      | Table_source s \<Rightarrow> (case ts_filters s of None \<Rightarrow> [] | Some fs \<Rightarrow> fs))"

definition needs_value :: "'w cdc_env \<Rightarrow> cdc_change \<Rightarrow> string list \<Rightarrow> bool" where
  "needs_value env c missing =
     (ch_keyChanged c \<or> (case bi_destination (env_bridge env) of Http h \<Rightarrow> True | Database ts \<Rightarrow> False) \<or>
      list_ex (\<lambda>f. f_column f \<in> set missing) (source_filters (env_bridge env)) \<or>
      list_ex (\<lambda>x. x \<in> set missing)
        (columnsRead (case bt_columns (bi_transform (env_bridge env)) of None \<Rightarrow> [] | Some ts \<Rightarrow> ts)))"

text \<open>The read-back of \<^verbatim>\<open>completeRow\<close>: three tries, then the bridge stops. \<open>None\<close> is \<^verbatim>\<open>null\<close>.\<close>

fun read_back ::
  "nat \<Rightarrow> 'w cdc_env \<Rightarrow> row \<Rightarrow> string list \<Rightarrow> 'w cdc_stream \<Rightarrow> row option \<times> 'w cdc_stream" where
  "read_back 0 env r missing st = (None, halt False st)"
| "read_back (Suc n) env r missing st =
     (let (page, w) = env_browse env (cs_world st) r; st1 = st\<lparr>cs_world := w\<rparr>;
          dest = bi_destination (env_bridge env)
      in case page of
           None \<Rightarrow> if \<not> cs_live st1 \<or> cs_halted st1 then (None, st1) else read_back n env r missing st1
         | Some None \<Rightarrow> (Some (without_unchanged dest r), st1)
         | Some (Some current) \<Rightarrow> (Some (without_unchanged dest (fill_in r current missing)), st1))"

definition completeRow :: "'w cdc_env \<Rightarrow> cdc_change \<Rightarrow> 'w cdc_stream \<Rightarrow> row option \<times> 'w cdc_stream" where
  "completeRow env c st =
     (let r = ch_row c; missing = map fst (filter (\<lambda>(k, v). v = JUnchanged) r);
          (whole, w) = (if needs_value env c missing then (True, cs_world st) else env_wholeValue env (cs_world st));
          st1 = st\<lparr>cs_world := w\<rparr>
      in if \<not> whole then (Some r, st1)
         else
           (case env_primaryKey env of
              None \<Rightarrow> (Some (without_unchanged (bi_destination (env_bridge env)) r), st1)
            | Some key \<Rightarrow>
                if key = [] \<or> list_ex (\<lambda>k. is_nil (row_get r k) \<or> row_get r k = JUnchanged) key
                then (Some (without_unchanged (bi_destination (env_bridge env)) r), st1)
                else read_back 3 env r missing st1))"

definition keySignature :: "string list option \<Rightarrow> row \<Rightarrow> string option" where
  "keySignature pk r =
     (case pk of
        None \<Rightarrow> None
      | Some key \<Rightarrow>
          if key = [] then None
          else (case js_stringify (JArr (map (row_get r) key)) of JText t \<Rightarrow> Some t | _ \<Rightarrow> None))"

definition column_signature :: "row \<Rightarrow> string" where
  "column_signature r = join_with [CHR 0x00] (sort (map fst r))"

definition json_length :: "row \<Rightarrow> nat" where
  "json_length r = (case js_stringify (JObj r) of JText t \<Rightarrow> length t | _ \<Rightarrow> 0)"

definition pass_over :: "'w cdc_env \<Rightarrow> string \<Rightarrow> 'w cdc_stream \<Rightarrow> 'w cdc_stream" where
  "pass_over env cursor st = notePosition env cursor (st\<lparr>cs_passed := cs_passed st @ [cursor]\<rparr>)"

definition push_item :: "buffered \<Rightarrow> 'w cdc_stream \<Rightarrow> 'w cdc_stream" where
  "push_item b st =
     st\<lparr>cs_buffer := cs_buffer st @ [b], cs_tailCursor := Some (ch_cursor (bf_change b)),
        cs_bufferOp := Some (ch_op (bf_change b)),
        cs_bufferKeys := (case bf_keySig b of None \<Rightarrow> cs_bufferKeys st | Some k \<Rightarrow> cs_bufferKeys st @ [k])\<rparr>"

definition accept_truncate :: "'w cdc_env \<Rightarrow> cdc_change \<Rightarrow> 'w cdc_stream \<Rightarrow> 'w cdc_stream" where
  "accept_truncate env c st =
     (let st1 = flush env st
      in if \<not> cs_live st1 \<or> cs_halted st1 then st1
         else
           (let (verdict, w) = env_echo env (cs_world st1) Op_truncate []; st2 = st1\<lparr>cs_world := w\<rparr>
            in case verdict of
                 Echo_drop \<Rightarrow> pass_over env (ch_cursor c) st2
               | Echo_carry os \<Rightarrow>
                   flush env (push_item \<lparr>bf_change = c, bf_row = [], bf_origins = os, bf_keySig = None\<rparr> st2)
               | Not_echo \<Rightarrow>
                   flush env (push_item \<lparr>bf_change = c, bf_row = [], bf_origins = [], bf_keySig = None\<rparr> st2)))"

text \<open>The tail of \<^verbatim>\<open>accept\<close>: the change joins the pending batch, or the next one.\<close>

definition conflicts :: "cdc_operation \<Rightarrow> string option \<Rightarrow> 'w cdc_stream \<Rightarrow> bool" where
  "conflicts op sig st =
     (cs_buffer st \<noteq> [] \<and>
      (cs_bufferOp st \<noteq> Some op \<or> (case sig of None \<Rightarrow> False | Some k \<Rightarrow> k \<in> set (cs_bufferKeys st))))"

definition batch_limit :: "'w cdc_env \<Rightarrow> 'w cdc_stream \<Rightarrow> nat" where
  "batch_limit env st =
     min (env_maxBatch env) (case cs_byteCapped st of None \<Rightarrow> env_maxBatch env | Some n \<Rightarrow> n)"

definition measure_batch :: "'w cdc_env \<Rightarrow> row \<Rightarrow> 'w cdc_stream \<Rightarrow> 'w cdc_stream" where
  "measure_batch env r st =
     (if cs_buffer st = [] then
        st\<lparr>cs_byteCapped :=
          (if 0 < json_length r then Some (max 1 (env_batchBytes env div json_length r)) else None)\<rparr>
      else st)"

definition join_batch :: "'w cdc_env \<Rightarrow> buffered \<Rightarrow> 'w cdc_stream \<Rightarrow> 'w cdc_stream" where
  "join_batch env b st =
     (let st1 = push_item b (measure_batch env (bf_row b) st)
      in if batch_limit env st1 \<le> length (cs_buffer st1) then flush env st1 else scheduleFlush st1)"

definition enqueue :: "'w cdc_env \<Rightarrow> cdc_change \<Rightarrow> row \<Rightarrow> string list \<Rightarrow> 'w cdc_stream \<Rightarrow> 'w cdc_stream" where
  "enqueue env c r origins st =
     (let sig = keySignature (env_primaryKey env) r;
          st1 = (if conflicts (ch_op c) sig st then flush env st else st)
      in if conflicts (ch_op c) sig st \<and> \<not> cs_live st1 then st1
         else join_batch env \<lparr>bf_change = c, bf_row = r, bf_origins = origins, bf_keySig = sig\<rparr> st1)"

definition filter_and_echo :: "'w cdc_env \<Rightarrow> cdc_change \<Rightarrow> row \<Rightarrow> 'w cdc_stream \<Rightarrow> 'w cdc_stream" where
  "filter_and_echo env c r st =
     (if \<not> env_sourceFilters env \<and>
         \<not> rowMatchesFilters (env_host env) (ch_op c = Op_delete) r (source_filters (env_bridge env))
      then pass_over env (ch_cursor c) st
      else
        (let (verdict, w) = env_echo env (cs_world st) (ch_op c) r; st1 = st\<lparr>cs_world := w\<rparr>
         in case verdict of
              Not_echo \<Rightarrow> enqueue env c r [] st1
            | Echo_drop \<Rightarrow> if \<not> cs_live st1 \<or> cs_halted st1 then st1 else pass_over env (ch_cursor c) st1
            | Echo_carry os \<Rightarrow> if \<not> cs_live st1 \<or> cs_halted st1 then st1 else enqueue env c r os st1))"

definition check_schema :: "'w cdc_env \<Rightarrow> cdc_change \<Rightarrow> row \<Rightarrow> 'w cdc_stream \<Rightarrow> bool \<times> 'w cdc_stream" where
  "check_schema env c r st =
     (if ch_op c = Op_delete \<or> \<not> env_tracksSchema env then (True, st)
      else
        (let sig = column_signature r
         in if cs_signature st = None \<or> cs_signature st = Some sig then (True, st\<lparr>cs_signature := Some sig\<rparr>)
            else
              (let (stop, w) = env_drift env (cs_world st); st1 = st\<lparr>cs_world := w\<rparr>
               in if \<not> cs_live st1 \<or> cs_halted st1 then (False, st1)
                  else case stop of
                         None \<Rightarrow> (True, st1\<lparr>cs_signature := Some sig\<rparr>)
                       | Some why \<Rightarrow> (False, halt False (finish_inflight env (flush env st1))))))"

definition accept_row :: "'w cdc_env \<Rightarrow> cdc_change \<Rightarrow> 'w cdc_stream \<Rightarrow> 'w cdc_stream" where
  "accept_row env c st =
     (let (r, st1) = (if has_unchanged (ch_row c) then completeRow env c st else (Some (ch_row c), st))
      in case r of
           None \<Rightarrow> st1
         | Some r' \<Rightarrow>
             (case check_schema env c r' st1 of
                (go, st2) \<Rightarrow> if go then filter_and_echo env c r' st2 else st2))"

definition accept :: "'w cdc_env \<Rightarrow> cdc_change \<Rightarrow> 'w cdc_stream \<Rightarrow> 'w cdc_stream" where
  "accept env c st =
     (if \<not> cs_live st \<or> (case bi_source (env_bridge env) of Query_source q \<Rightarrow> True | Table_source s \<Rightarrow> False) then st
      else if cs_halted st then st
      else if \<not> env_after env (ch_cursor c) (cs_watermark st) then st
      else if ch_op c = Op_truncate then accept_truncate env c st
      else accept_row env c st)"

section \<open>The other things that reach the chain\<close>

text \<open>\<^verbatim>\<open>handleNotice\<close>, on the direct path.\<close>

definition record_notice :: "'w cdc_env \<Rightarrow> string \<Rightarrow> 'w cdc_stream \<Rightarrow> bool \<times> 'w cdc_stream" where
  "record_notice env cursor st =
     (let (ok, w) = env_notice env (cs_world st) (cs_seq st); st1 = st\<lparr>cs_world := w\<rparr>
      in if ok then checkpoint env (cs_seq st1 + 1) cursor (happened (Ev_noticed (cs_seq st1)) st1)
         else (False, st1))"

definition handleNotice :: "'w cdc_env \<Rightarrow> string \<Rightarrow> 'w cdc_stream \<Rightarrow> 'w cdc_stream" where
  "handleNotice env cursor st =
     (if \<not> cs_live st \<or> cs_halted st \<or> \<not> env_after env cursor (cs_watermark st) then st
      else
        (let st1 = finish_inflight env (flush env st)
         in if \<not> cs_live st1 \<or> cs_halted st1 then st1
            else settle SETTLE_ATTEMPTS (record_notice env cursor) (st1\<lparr>cs_passed := cs_passed st1 @ [cursor]\<rparr>)))"

definition handleFatal :: "'w cdc_env \<Rightarrow> 'w cdc_stream \<Rightarrow> 'w cdc_stream" where
  "handleFatal env st =
     (if \<not> cs_live st \<or> cs_halted st then st else halt False (finish_inflight env (flush env st)))"

definition timer_fires :: "'w cdc_env \<Rightarrow> 'w cdc_stream \<Rightarrow> 'w cdc_stream" where
  "timer_fires env st =
     (let st0 = st\<lparr>cs_timerFor := None\<rparr> in if \<not> cs_live st0 then st0 else flush env st0)"


section \<open>What a batch leaves alone\<close>

text \<open>
  The part of a stream that delivering and settling never touches: the pending batch, its
  timer, the delivery in flight, whether the stream is live, and what was passed.
\<close>

definition queue_of where
  "queue_of st =
     (cs_buffer st, cs_bufferOp st, cs_bufferKeys st, cs_tailCursor st, cs_timerFor st, cs_byteCapped st,
      cs_inflight st, cs_live st, cs_signature st, cs_passed st, cs_done st)"

named_theorems queue_kept

lemma queue_of_updates [simp]:
  "queue_of (st\<lparr>cs_world := w\<rparr>) = queue_of st" "queue_of (st\<lparr>cs_failures := n\<rparr>) = queue_of st"
  "queue_of (st\<lparr>cs_halted := b\<rparr>) = queue_of st" "queue_of (st\<lparr>cs_seq := n\<rparr>) = queue_of st"
  "queue_of (st\<lparr>cs_watermark := c\<rparr>) = queue_of st" "queue_of (st\<lparr>cs_events := es\<rparr>) = queue_of st"
  by (simp_all add: queue_of_def)

lemma queue_happened [simp]: "queue_of (happened e st) = queue_of st"
  by (simp add: happened_def)

lemma queue_halt [simp]: "queue_of (halt p st) = queue_of st"
  by (simp add: halt_def)

lemma queue_store [simp]:
  "queue_of (snd (record_delivery env seq rs ok st)) = queue_of st"
  "queue_of (snd (park_letters env ls n st)) = queue_of st"
  "queue_of (snd (checkpoint env n c st)) = queue_of st"
  by (simp_all add: record_delivery_def park_letters_def checkpoint_def Let_def split: prod.split)

lemma queue_and_then:
  "(\<And>s. queue_of (snd (f s)) = queue_of s) \<Longrightarrow> queue_of (snd (and_then r f)) = queue_of (snd r)"
  by (simp add: and_then_def)

lemma queue_stop_batch [simp]: "queue_of (snd (stop_batch env seq rs st)) = queue_of st"
  by (simp add: stop_batch_def queue_and_then)

lemma queue_set_aside [simp]:
  "queue_of (snd (set_aside env op seq c delivered failed st)) = queue_of st"
  by (simp add: set_aside_def Let_def queue_and_then)

lemma queue_carry_on [simp]:
  "queue_of (snd (carry_on env rs op seq c delivered failed st)) = queue_of st"
  by (simp add: carry_on_def Let_def queue_and_then split: prod.split option.split)

lemma queue_handleFailedBatch [simp]:
  "queue_of (snd (handleFailedBatch env rs op seq c outcome st)) = queue_of st"
  by (simp add: handleFailedBatch_def Let_def split: prod.split)

lemma queue_settle_batch [simp]:
  "queue_of (snd (settle_batch env rs op seq c outcome st)) = queue_of st"
proof -
  obtain ok st1 where r: "record_delivery env seq rs True st = (ok, st1)" by force
  obtain e st2 where h: "handleFailedBatch env rs op seq c outcome st = (e, st2)" by force
  have "queue_of st1 = queue_of st" "queue_of st2 = queue_of st"
    using queue_store(1) [of env seq rs True st] queue_handleFailedBatch [of env rs op seq c outcome st]
    by (simp_all add: r h)
  then show ?thesis by (simp add: settle_batch_def r h split: batch_end.split)
qed

lemma queue_settle:
  "(\<And>s. queue_of (snd (work s)) = queue_of s) \<Longrightarrow> queue_of (settle n work st) = queue_of st"
proof (induction n arbitrary: st)
  case (Suc n)
  have "queue_of (snd (work st)) = queue_of st" by (rule Suc.prems)
  then show ?case using Suc.IH [OF Suc.prems] by (cases "work st") auto
qed simp

lemma queue_deliverBatch [simp]: "queue_of (deliverBatch env b st) = queue_of st"
  by (simp add: deliverBatch_def Let_def queue_settle split: prod.split)

section \<open>What a batch does\<close>

fun landed :: "cdc_event list \<Rightarrow> row multiset" where
  "landed [] = {#}"
| "landed (Ev_delivered rs # es) = mset rs + landed es"
| "landed (Ev_parked rs # es) = mset rs + landed es"
| "landed (e # es) = landed es"

lemma landed_append [simp]: "landed (xs @ ys) = landed xs + landed ys"
  by (induction xs rule: landed.induct) auto

fun checkpoints :: "cdc_event list \<Rightarrow> (nat \<times> string) list" where
  "checkpoints [] = []"
| "checkpoints (Ev_checkpoint n c # es) = (n, c) # checkpoints es"
| "checkpoints (e # es) = checkpoints es"

lemma checkpoints_append [simp]: "checkpoints (xs @ ys) = checkpoints xs @ checkpoints ys"
  by (induction xs rule: checkpoints.induct) auto

text \<open>
  \<open>grew st st'\<close>: events were only added, and the saved position is what it was - a stop is the
  only thing that may have happened to the stream.
\<close>

definition grew :: "'w cdc_stream \<Rightarrow> 'w cdc_stream \<Rightarrow> bool" where
  "grew st st' =
     (landed (cs_events st) \<subseteq># landed (cs_events st') \<and> cs_watermark st' = cs_watermark st \<and>
      cs_seq st' = cs_seq st \<and> checkpoints (cs_events st') = checkpoints (cs_events st) \<and>
      (cs_halted st \<longrightarrow> cs_halted st'))"

lemma grew_refl [simp]: "grew st st"
  by (simp add: grew_def)

lemma grew_trans: "grew a b \<Longrightarrow> grew b c \<Longrightarrow> grew a c"
  unfolding grew_def by (auto intro: subset_mset.order_trans)

lemma grew_updates [simp]:
  "grew st (st\<lparr>cs_world := w\<rparr>)" "grew st (st\<lparr>cs_failures := n\<rparr>)"
  by (simp_all add: grew_def)

lemma grew_happened: "checkpoints [e] = [] \<Longrightarrow> grew st (happened e st)"
  by (simp add: grew_def happened_def)

lemma grew_halt: "grew st (halt p st)"
  by (simp add: grew_def halt_def happened_def)

lemma grew_record: "grew st (snd (record_delivery env seq rs ok st))"
  by (auto simp: record_delivery_def grew_def happened_def Let_def split: prod.split)

lemma grew_park: "grew st (snd (park_letters env ls n st))"
  by (auto simp: park_letters_def grew_def happened_def Let_def split: prod.split)

lemma grew_and_then:
  "grew st (snd r) \<Longrightarrow> (\<And>s. grew s (snd (f s))) \<Longrightarrow> grew st (snd (and_then r f))"
  unfolding and_then_def by (cases "fst r") (simp_all, metis grew_trans)

lemma grew_stop_batch: "grew st (snd (stop_batch env seq rs st))"
  unfolding stop_batch_def by (intro grew_and_then grew_record) (simp add: grew_halt)


text \<open>
  The outcome of a store write that did not throw, and of the ways a failed batch ends.
\<close>

lemma store_steps:
  "cs_halted (snd (record_delivery env seq rs ok st)) = cs_halted st"
  "cs_halted (snd (park_letters env ls n st)) = cs_halted st"
  "fst (park_letters env ls n st) \<Longrightarrow>
     landed (cs_events (snd (park_letters env ls n st))) = landed (cs_events st) + mset (concat (map dl_rows ls))"
  "landed (cs_events (snd (record_delivery env seq rs ok st))) = landed (cs_events st)"
  by (auto simp: record_delivery_def park_letters_def happened_def Let_def split: prod.splits)

definition batch_ends :: "nat \<Rightarrow> row multiset \<Rightarrow> 'w cdc_stream \<Rightarrow> batch_end \<times> 'w cdc_stream \<Rightarrow> bool" where
  "batch_ends seq rs st r =
     (grew st (snd r) \<and>
      (case fst r of
         Threw \<Rightarrow> cs_halted (snd r) = cs_halted st
       | Stopped \<Rightarrow> cs_halted (snd r)
       | Go_on n \<Rightarrow> cs_halted (snd r) = cs_halted st \<and> (n = seq + 1 \<or> n = seq + 2) \<and>
           landed (cs_events st) + rs \<subseteq># landed (cs_events (snd r))))"

lemma batch_ends_trans:
  "grew st st1 \<Longrightarrow> cs_halted st1 = cs_halted st \<Longrightarrow>
     landed (cs_events st) + rs \<subseteq># landed (cs_events st1) + rs' \<Longrightarrow>
     batch_ends seq rs' st1 r \<Longrightarrow> batch_ends seq rs st r"
  unfolding batch_ends_def
  by (auto split: batch_end.splits intro: grew_trans subset_mset.order_trans)

lemma batch_ends_updates:
  "batch_ends seq rs (st\<lparr>cs_failures := n\<rparr>) r \<Longrightarrow> batch_ends seq rs st r"
  "batch_ends seq rs (st\<lparr>cs_world := w\<rparr>) r \<Longrightarrow> batch_ends seq rs st r"
  by (auto simp: batch_ends_def grew_def split: batch_end.splits)

lemma batch_ends_stop: "batch_ends seq rs st (stop_batch env n rs' st)"
proof -
  obtain ok st1 where r: "record_delivery env n rs' False st = (ok, st1)" by force
  have "grew st st1" "cs_halted st1 = cs_halted st"
    using grew_record [of st env n rs' False] store_steps(1) [of env n rs' False st] by (simp_all add: r)
  then show ?thesis using grew_halt [of st1 True] grew_trans
    by (auto simp: batch_ends_def stop_batch_def and_then_def r halt_def happened_def)
qed

lemma batch_ends_and_then:
  assumes "grew st (snd r)" "cs_halted (snd r) = cs_halted st"
    and "fst r \<Longrightarrow> landed (cs_events st) + rs \<subseteq># landed (cs_events (snd r)) + rs'"
    and "fst r \<Longrightarrow> batch_ends seq rs' (snd r) (f (snd r))"
  shows "batch_ends seq rs st (and_then r f)"
  using assms batch_ends_trans [of st "snd r" rs rs' seq "f (snd r)"]
  by (cases "fst r") (simp_all add: and_then_def batch_ends_def [of _ _ _ "(Threw, _)"])

lemma batch_ends_record:
  "batch_ends seq rs (snd (record_delivery env n rs' ok st)) (f (snd (record_delivery env n rs' ok st))) \<Longrightarrow>
     batch_ends seq rs st (and_then (record_delivery env n rs' ok st) f)"
  by (rule batch_ends_and_then) (simp_all add: grew_record store_steps)

lemma concat_letters: "concat (map dl_rows (letters_for n op c failed)) = concat (map fst failed)"
  by (induction failed) (auto simp: letters_for_def)

lemma batch_ends_set_aside:
  "batch_ends seq (mset (concat (map fst failed))) st (set_aside env op seq c delivered failed st)"
proof -
  define n where "n = (if delivered \<noteq> [] then seq + 1 else seq)"
  define rest where "rest = (\<lambda>s :: 'a cdc_stream.
    and_then (if delivered \<noteq> [] then record_delivery env seq delivered True s else (True, s)) (\<lambda>s.
    and_then (record_delivery env n (concat (map fst failed)) False s) (\<lambda>s. (Go_on (n + 1), s))))"
  let ?p = "park_letters env (letters_for n op c failed) seq st"
  have go: "batch_ends seq {#} s (Go_on (n + 1), s)" for s :: "'a cdc_stream"
    by (simp add: batch_ends_def n_def)
  have "batch_ends seq {#} s (rest s)" for s
    unfolding rest_def
    by (cases "delivered = []")
      (simp_all only: if_True if_False simp_thms, simp_all only: and_then_def [of "(True, _)"] fst_conv snd_conv if_True,
       (intro batch_ends_record go)+)
  then have "batch_ends seq (mset (concat (map fst failed))) st (and_then ?p rest)"
    by (intro batch_ends_and_then [where rs' = "{#}"]) (simp_all only: grew_park store_steps concat_letters, simp)
  then show ?thesis
    unfolding set_aside_def Let_def n_def [symmetric] rest_def .
qed

lemma batch_ends_carry_on:
  "batch_ends seq (if failed = [] then {#} else mset (concat (map fst failed))) st
     (carry_on env rs op seq c delivered failed st)"
proof (cases "failed = []")
  case True
  have "batch_ends seq {#} (st\<lparr>cs_failures := 0\<rparr>)
    (and_then (record_delivery env seq rs True (st\<lparr>cs_failures := 0\<rparr>)) (\<lambda>st. (Go_on (seq + 1), st)))"
    by (rule batch_ends_record) (simp add: batch_ends_def)
  from batch_ends_updates(1) [OF this] True show ?thesis by (simp add: carry_on_def)
next
  case False
  define k where "k = (if delivered \<noteq> [] then 0 else cs_failures st + 1)"
  obtain held w where p: "env_pendingRows env (cs_world st) = (held, w)" by force
  let ?st1 = "st\<lparr>cs_failures := k\<rparr>" and ?st2 = "st\<lparr>cs_failures := k, cs_world := w\<rparr>"
  let ?rs = "mset (concat (map fst failed))"
  have eq: "carry_on env rs op seq c delivered failed st =
    (if env_maxFailures env \<le> k then stop_batch env seq rs ?st1
     else case held of None \<Rightarrow> (Threw, ?st2)
       | Some n \<Rightarrow> if env_deadLetterMax env < n + length (concat (map fst failed)) then stop_batch env seq rs ?st2
           else set_aside env op seq c delivered failed ?st2)"
    using False p unfolding carry_on_def k_def [symmetric] Let_def by simp
  note lift = batch_ends_updates(1) [OF batch_ends_updates(2)]
  have "batch_ends seq ?rs st (Threw, ?st2)" by (simp add: batch_ends_def grew_def)
  then have "batch_ends seq ?rs st (carry_on env rs op seq c delivered failed st)"
    unfolding eq by (auto intro: lift batch_ends_updates(1) batch_ends_stop batch_ends_set_aside split: option.split)
  with False show ?thesis by simp
qed


lemma concat_chunks [simp]: "concat (chunks n xs) = xs"
  by (induction n xs rule: chunks.induct) auto

lemma batch_ends_failed:
  assumes "rs \<noteq> []"
  shows "batch_ends seq (mset rs) st (handleFailedBatch env rs op seq c outcome st)"
proof -
  let ?b = "env_bridge env"
  define reason where "reason = (case oc_error outcome of None \<Rightarrow> ''delivery failed'' | Some e \<Rightarrow> e)"
  consider (abort) "bd_onError (bi_delivery ?b) = On_error_abort"
    | (isolate) "bd_onError (bi_delivery ?b) \<noteq> On_error_abort" "canIsolate (bi_destination ?b) rs"
    | (chunked) "bd_onError (bi_delivery ?b) \<noteq> On_error_abort" "\<not> canIsolate (bi_destination ?b) rs"
    by blast
  then show ?thesis
  proof cases
    case abort
    then show ?thesis by (simp add: handleFailedBatch_def batch_ends_stop)
  next
    case chunked
    let ?failed = "map (\<lambda>part. (part, reason, targets_of outcome)) (chunks DEAD_LETTER_CHUNK rs)"
    have rows: "concat (map fst ?failed) = rs" by (simp add: comp_def)
    then have "?failed \<noteq> []" using assms by (metis concat.simps(1) list.simps(8))
    then show ?thesis
      using chunked batch_ends_carry_on [of seq ?failed st env rs op c "[]"] rows
      by (simp add: handleFailedBatch_def reason_def Let_def)
  next
    case isolate
    obtain found w where f: "isolateFailures (isolation_try env op seq)
        (isolation_limits (Some reason) (targets_of outcome)) rs (cs_world st) = (found, w)" by force
    define st1 where "st1 = (let s = st\<lparr>cs_world := w\<rparr> in
        if iso_delivered found = [] then s else happened (Ev_delivered (iso_delivered found)) s)"
    let ?failed = "map (\<lambda>p. ([p_row p], p_error p, p_targets p)) (iso_poisoned found)"
    have st1: "grew st st1" "cs_halted st1 = cs_halted st"
      "landed (cs_events st1) = landed (cs_events st) + mset (iso_delivered found)"
      by (simp_all add: st1_def grew_def happened_def Let_def)
    have eq: "handleFailedBatch env rs op seq c outcome st =
        (if iso_systemic found then stop_batch env seq rs st1
         else carry_on env rs op seq c (iso_delivered found) ?failed st1)"
      using isolate f by (simp add: handleFailedBatch_def reason_def [symmetric] st1_def [symmetric])
    show ?thesis
    proof (cases "iso_systemic found")
      case True
      have "batch_ends seq (mset rs) st (stop_batch env seq rs st1)"
        by (rule batch_ends_trans [OF st1(1,2) _ batch_ends_stop [of _ "mset rs"]]) (simp add: st1(3))
      then show ?thesis using True eq by simp
    next
      case False
      have parts: "mset (iso_delivered found) + mset (map p_row (iso_poisoned found)) = mset rs"
        using isolate_rows(2) [of "isolation_try env op seq" "isolation_limits (Some reason) (targets_of outcome)" rs
            "cs_world st"] f False by simp
      have "mset (concat (map fst ?failed)) = mset (map p_row (iso_poisoned found))"
        by (simp add: comp_def)
      then have "batch_ends seq (mset (map p_row (iso_poisoned found))) st1
          (carry_on env rs op seq c (iso_delivered found) ?failed st1)"
        using batch_ends_carry_on [of seq ?failed st1 env rs op c "iso_delivered found"]
        by (cases "iso_poisoned found = []") simp_all
      then have "batch_ends seq (mset rs) st (carry_on env rs op seq c (iso_delivered found) ?failed st1)"
        by (rule batch_ends_trans [OF st1(1,2), rotated]) (simp add: st1(3) parts [symmetric] add.assoc)
      then show ?thesis using False eq by simp
    qed
  qed
qed


text \<open>
  \<open>settled c rs st st'\<close>: either the stream stopped where it was, or everything in \<open>rs\<close> landed
  and exactly one checkpoint, at \<open>c\<close>, was made.
\<close>

definition settled :: "string \<Rightarrow> row multiset \<Rightarrow> 'w cdc_stream \<Rightarrow> 'w cdc_stream \<Rightarrow> bool" where
  "settled c rs st st' =
     (if cs_halted st' then grew st st'
      else \<not> cs_halted st \<and> cs_watermark st' = Some c \<and> landed (cs_events st) + rs \<subseteq># landed (cs_events st') \<and>
        checkpoints (cs_events st') = checkpoints (cs_events st) @ [(cs_seq st', c)])"

lemma settled_checkpoint:
  assumes "grew st st1" "\<not> cs_halted st1" "\<not> cs_halted st"
    "landed (cs_events st) + rs \<subseteq># landed (cs_events st1)"
  shows "if fst (checkpoint env n c st1) then settled c rs st (snd (checkpoint env n c st1))
    else grew st (snd (checkpoint env n c st1)) \<and> \<not> cs_halted (snd (checkpoint env n c st1)) \<and>
      landed (cs_events (snd (checkpoint env n c st1))) = landed (cs_events st1)"
  using assms by (auto simp: checkpoint_def settled_def grew_def happened_def Let_def split: prod.split)

lemma settle_rule:
  assumes work: "\<And>s. \<not> cs_halted s \<Longrightarrow> grew st0 s \<Longrightarrow>
      if fst (work s) then settled c rs st0 (snd (work s)) else grew st0 (snd (work s))"
    and "grew st0 st"
  shows "settled c rs st0 (settle n work st)"
  using assms(2)
proof (induction n arbitrary: st)
  case 0
  have "cs_halted (halt False st)" by (simp add: halt_def happened_def)
  then show ?case using grew_trans [OF 0 grew_halt] by (simp add: settled_def)
next
  case (Suc n)
  show ?case
  proof (cases "cs_halted st")
    case True
    then show ?thesis using Suc.prems by (simp add: settled_def)
  next
    case False
    then show ?thesis using work [OF False Suc.prems] Suc.IH by (cases "work st") auto
  qed
qed

lemma settle_batch_step:
  assumes "rs \<noteq> []" "\<not> cs_halted s" "\<not> cs_halted st0" "grew st0 s"
    and "oc_success outcome \<Longrightarrow> landed (cs_events st0) + need \<subseteq># landed (cs_events s)"
    and "\<not> oc_success outcome \<Longrightarrow> need = mset rs"
  shows "if fst (settle_batch env rs op seq c outcome s) then settled c need st0 (snd (settle_batch env rs op seq c outcome s))
    else grew st0 (snd (settle_batch env rs op seq c outcome s))"
proof (cases "oc_success outcome")
  case True
  obtain ok s1 where r: "record_delivery env seq rs True s = (ok, s1)" by force
  have s1: "grew s s1" "cs_halted s1 = cs_halted s" "landed (cs_events s1) = landed (cs_events s)"
    using grew_record [of s env seq rs True] store_steps(1,4) [of env seq rs True s] by (simp_all add: r)
  have g: "grew st0 (s1\<lparr>cs_failures := 0\<rparr>)"
    using grew_trans [OF assms(4) s1(1)] by (simp add: grew_def)
  show ?thesis
    using settled_checkpoint [OF g, of need env "seq + 1" c] assms(2,3,5) s1 True g grew_trans [OF assms(4) s1(1)]
    by (auto simp: settle_batch_def r Let_def split: if_splits)
next
  case False
  obtain e s1 where h: "handleFailedBatch env rs op seq c outcome s = (e, s1)" by force
  have e: "batch_ends seq (mset rs) s (e, s1)" using batch_ends_failed [OF assms(1), of seq s env op c outcome] h by simp
  have g: "grew st0 s1" using e grew_trans [OF assms(4)] by (simp add: batch_ends_def)
  show ?thesis
  proof (cases e)
    case Threw
    then show ?thesis using g False h by (simp add: settle_batch_def)
  next
    case Stopped
    then show ?thesis using g False h e by (simp add: settle_batch_def settled_def batch_ends_def)
  next
    case (Go_on n)
    have l: "landed (cs_events st0) + need \<subseteq># landed (cs_events s1)"
      using e Go_on assms(4,6) False unfolding batch_ends_def grew_def
      by (auto intro: subset_mset.order_trans [OF subset_mset.add_right_mono])
    show ?thesis
      using settled_checkpoint [OF g _ assms(3) l, of env n c] e Go_on False h assms(2)
      by (auto simp: settle_batch_def batch_ends_def split: if_splits)
  qed
qed

lemma settled_add:
  assumes "grew st st1" "cs_halted st1 = cs_halted st" "landed (cs_events st1) = landed (cs_events st) + got"
    and "settled c need st1 st'" and "got + need = all_rows"
  shows "settled c all_rows st st'"
  using assms grew_trans [OF assms(1)]
  by (auto simp: settled_def grew_def add.assoc split: if_splits)

lemma deliverBatch_settled:
  assumes "\<not> cs_halted st"
  shows "settled (ba_reach b) (mset (map bf_row (ba_items b))) st (deliverBatch env b st)"
proof (cases "ba_items b = []")
  case True
  have "settled (ba_reach b) {#} st (settle SETTLE_ATTEMPTS (checkpoint env (cs_seq st) (ba_reach b)) st)"
  proof (rule settle_rule)
    fix s assume s: "\<not> cs_halted s" "grew st s"
    have l: "landed (cs_events st) + {#} \<subseteq># landed (cs_events s)" using s(2) by (simp add: grew_def)
    show "if fst (checkpoint env (cs_seq st) (ba_reach b) s)
      then settled (ba_reach b) {#} st (snd (checkpoint env (cs_seq st) (ba_reach b) s))
      else grew st (snd (checkpoint env (cs_seq st) (ba_reach b) s))"
      using settled_checkpoint [OF s(2,1) assms l, of env "cs_seq st" "ba_reach b"]
      by (auto split: if_splits)
  qed simp
  then show ?thesis using True by (simp add: deliverBatch_def)
next
  case False
  let ?rs = "map bf_row (ba_items b)"
  obtain outcome w where a: "attempt env ?rs (ba_op b) (cs_seq st) [] (cs_world st) = (outcome, w)" by force
  define st1 where "st1 = (let s = st\<lparr>cs_world := w\<rparr> in if oc_success outcome then happened (Ev_delivered ?rs) s else s)"
  define got where "got = (if oc_success outcome then mset ?rs else {#})"
  define need where "need = (if oc_success outcome then {#} else mset ?rs)"
  have st1: "grew st st1" "cs_halted st1 = cs_halted st" "landed (cs_events st1) = landed (cs_events st) + got"
    by (simp_all add: st1_def got_def grew_def happened_def Let_def)
  have "settled (ba_reach b) need st1
      (settle SETTLE_ATTEMPTS (settle_batch env ?rs (ba_op b) (cs_seq st) (ba_reach b) outcome) st1)"
    using False assms st1(2)
    by (intro settle_rule settle_batch_step) (simp_all add: need_def, simp_all add: grew_def)
  then have "settled (ba_reach b) (mset ?rs) st
      (settle SETTLE_ATTEMPTS (settle_batch env ?rs (ba_op b) (cs_seq st) (ba_reach b) outcome) st1)"
    by (rule settled_add [OF st1]) (simp add: got_def need_def)
  then show ?thesis using False by (simp add: deliverBatch_def a st1_def Let_def)
qed

lemma deliverBatch_halted:
  assumes "cs_halted st"
  shows "grew st (deliverBatch env b st) \<and> cs_halted (deliverBatch env b st)"
proof -
  have s: "settle SETTLE_ATTEMPTS work s = s" if "cs_halted s" for work and s :: "'a cdc_stream"
    using that by (simp add: SETTLE_ATTEMPTS_def numeral_eq_Suc)
  obtain outcome w where a: "attempt env (map bf_row (ba_items b)) (ba_op b) (cs_seq st) [] (cs_world st) = (outcome, w)"
    by force
  show ?thesis using assms by (simp add: deliverBatch_def a s happened_def Let_def grew_def)
qed


section \<open>Nothing is passed before it has landed\<close>

definition item_cursor :: "buffered \<Rightarrow> string" where
  "item_cursor b = ch_cursor (bf_change b)"

definition inflight_items :: "'w cdc_stream \<Rightarrow> buffered list" where
  "inflight_items st = (case cs_inflight st of None \<Rightarrow> [] | Some b \<Rightarrow> ba_items b)"

text \<open>
  A position is accounted for when it was behind the start, was passed on purpose, or its row is
  in a finished batch; it is held when it may also be in the batch in flight or in the buffer.
\<close>

definition accounted :: "'w cdc_env \<Rightarrow> string option \<Rightarrow> 'w cdc_stream \<Rightarrow> string \<Rightarrow> bool" where
  "accounted env w0 st c =
     (\<not> env_after env c w0 \<or> c \<in> set (cs_passed st) \<or> c \<in> item_cursor ` set (cs_done st))"

definition held :: "'w cdc_env \<Rightarrow> string option \<Rightarrow> 'w cdc_stream \<Rightarrow> string \<Rightarrow> bool" where
  "held env w0 st c =
     (accounted env w0 st c \<or> c \<in> item_cursor ` set (inflight_items st) \<or> c \<in> item_cursor ` set (cs_buffer st))"

definition run_ok :: "'w cdc_env \<Rightarrow> string option \<Rightarrow> string set \<Rightarrow> 'w cdc_stream \<Rightarrow> bool" where
  "run_ok env w0 C st =
     ((\<forall>c\<in>C. \<not> env_after env c (cs_watermark st) \<longrightarrow> accounted env w0 st c) \<and>
      (\<not> cs_halted st \<longrightarrow>
        (\<forall>b. cs_inflight st = Some b \<longrightarrow> (\<forall>c\<in>C. \<not> env_after env c (Some (ba_reach b)) \<longrightarrow>
           accounted env w0 st c \<or> c \<in> item_cursor ` set (ba_items b))) \<and>
        (\<forall>t. cs_tailCursor st = Some t \<longrightarrow> (\<forall>c\<in>C. \<not> env_after env c (Some t) \<longrightarrow> held env w0 st c))) \<and>
      mset (map bf_row (cs_done st)) \<subseteq># landed (cs_events st) \<and>
      (cs_buffer st \<noteq> [] \<longrightarrow> cs_tailCursor st \<noteq> None))"

text \<open>What was held still is, unless the stream stopped; a stop is for good.\<close>

definition keeps :: "'w cdc_env \<Rightarrow> string option \<Rightarrow> 'w cdc_stream \<Rightarrow> 'w cdc_stream \<Rightarrow> bool" where
  "keeps env w0 st st' =
     (cs_live st' = cs_live st \<and> (cs_halted st \<longrightarrow> cs_halted st') \<and>
      (\<not> cs_halted st' \<longrightarrow> (\<forall>c. held env w0 st c \<longrightarrow> held env w0 st' c)))"

lemma keeps_refl [simp]: "keeps env w0 st st"
  by (simp add: keeps_def)

lemma keeps_trans: "keeps env w0 a b \<Longrightarrow> keeps env w0 b c \<Longrightarrow> keeps env w0 a c"
  by (auto simp: keeps_def)

lemma queue_fields:
  assumes "queue_of st' = queue_of st"
  shows "cs_buffer st' = cs_buffer st" "cs_bufferOp st' = cs_bufferOp st" "cs_bufferKeys st' = cs_bufferKeys st"
    "cs_tailCursor st' = cs_tailCursor st" "cs_timerFor st' = cs_timerFor st" "cs_byteCapped st' = cs_byteCapped st"
    "cs_inflight st' = cs_inflight st" "cs_live st' = cs_live st" "cs_signature st' = cs_signature st"
    "cs_passed st' = cs_passed st" "cs_done st' = cs_done st"
  using assms by (simp_all add: queue_of_def)

lemma same_queue_held:
  assumes "queue_of st' = queue_of st"
  shows "held env w0 st' = held env w0 st \<and> accounted env w0 st' = accounted env w0 st"
  by (simp add: held_def accounted_def inflight_items_def fun_eq_iff queue_fields [OF assms])

lemma same_queue_keeps:
  assumes "queue_of st' = queue_of st" and "cs_halted st \<Longrightarrow> cs_halted st'"
  shows "keeps env w0 st st'"
  using same_queue_held [OF assms(1), of env w0] assms(2) by (simp add: keeps_def queue_fields [OF assms(1)])

lemma run_ok_grew:
  assumes "run_ok env w0 C st" "queue_of st' = queue_of st" "grew st st'"
  shows "run_ok env w0 C st'"
  using assms same_queue_held [OF assms(2), of env w0] queue_fields [OF assms(2)]
  unfolding run_ok_def grew_def by (auto intro: subset_mset.order_trans)

lemma finish_inflight_run:
  assumes "run_ok env w0 C st"
  shows "run_ok env w0 C (finish_inflight env st) \<and> keeps env w0 st (finish_inflight env st) \<and>
    cs_buffer (finish_inflight env st) = cs_buffer st \<and> cs_tailCursor (finish_inflight env st) = cs_tailCursor st \<and>
    cs_inflight (finish_inflight env st) = None \<and> cs_timerFor (finish_inflight env st) = cs_timerFor st \<and>
    cs_passed (finish_inflight env st) = cs_passed st"
proof (cases "cs_inflight st")
  case None
  then show ?thesis using assms by (simp add: finish_inflight_def)
next
  case (Some b)
  define st0 where "st0 = st\<lparr>cs_inflight := None\<rparr>"
  define st1 where "st1 = deliverBatch env b st0"
  have q: "queue_of st1 = queue_of st0" by (simp add: st1_def)
  note f = queue_fields [OF q]
  show ?thesis
  proof (cases "cs_halted st1")
    case True
    have g: "grew st0 st1"
      using True deliverBatch_settled [of st0 b env] deliverBatch_halted [of st0 env b]
      by (auto simp: st1_def settled_def)
    have "run_ok env w0 C st1"
      using assms True g f unfolding run_ok_def grew_def
      by (auto simp: st0_def accounted_def intro: subset_mset.order_trans)
    then show ?thesis using True Some f
      by (simp add: finish_inflight_def st0_def [symmetric] st1_def [symmetric] keeps_def) (simp add: st0_def)
  next
    case False
    then have live: "\<not> cs_halted st0" and w: "cs_watermark st1 = Some (ba_reach b)"
      and l: "landed (cs_events st0) + mset (map bf_row (ba_items b)) \<subseteq># landed (cs_events st1)"
      using deliverBatch_settled [of st0 b env] deliverBatch_halted [of st0 env b]
      by (auto simp: st1_def settled_def)
    define st2 where "st2 = st1\<lparr>cs_done := cs_done st1 @ ba_items b\<rparr>"
    have a: "accounted env w0 st2 c \<longleftrightarrow> accounted env w0 st c \<or> c \<in> item_cursor ` set (ba_items b)" for c
      using f by (auto simp: accounted_def st2_def st0_def)
    have h: "held env w0 st c \<longrightarrow> held env w0 st2 c" for c
      using a Some f by (auto simp: held_def inflight_items_def st2_def st0_def)
    have rows: "mset (map bf_row (cs_done st)) \<subseteq># landed (cs_events st0)"
      using assms by (simp add: run_ok_def st0_def)
    have "mset (map bf_row (cs_done st2)) \<subseteq># landed (cs_events st2)"
      using subset_mset.order_trans [OF subset_mset.add_right_mono [OF rows] l] f by (simp add: st2_def st0_def)
    then have "run_ok env w0 C st2"
      using assms live w a h f Some unfolding run_ok_def
      by (auto simp: st2_def st0_def)
    then show ?thesis
      using False live h f Some
      by (simp add: finish_inflight_def st0_def [symmetric] st1_def [symmetric] st2_def [symmetric] keeps_def)
        (simp add: st0_def st2_def)
  qed
qed


lemma held_updates [simp]:
  "held env w0 (st\<lparr>cs_signature := x1\<rparr>) = held env w0 st" "held env w0 (st\<lparr>cs_byteCapped := x2\<rparr>) = held env w0 st"
  "held env w0 (st\<lparr>cs_timerFor := x3\<rparr>) = held env w0 st" "held env w0 (st\<lparr>cs_world := x4\<rparr>) = held env w0 st"
  "held env w0 (st\<lparr>cs_tailCursor := x5\<rparr>) = held env w0 st"
  "accounted env w0 (st\<lparr>cs_signature := x1\<rparr>) = accounted env w0 st"
  "accounted env w0 (st\<lparr>cs_byteCapped := x2\<rparr>) = accounted env w0 st"
  "accounted env w0 (st\<lparr>cs_timerFor := x3\<rparr>) = accounted env w0 st"
  "accounted env w0 (st\<lparr>cs_world := x4\<rparr>) = accounted env w0 st"
  "accounted env w0 (st\<lparr>cs_tailCursor := x5\<rparr>) = accounted env w0 st"
  by (simp_all add: held_def accounted_def inflight_items_def fun_eq_iff)

lemma run_ok_updates [simp]:
  "run_ok env w0 C (st\<lparr>cs_signature := x1\<rparr>) = run_ok env w0 C st"
  "run_ok env w0 C (st\<lparr>cs_byteCapped := x2\<rparr>) = run_ok env w0 C st"
  "run_ok env w0 C (st\<lparr>cs_timerFor := x3\<rparr>) = run_ok env w0 C st"
  "run_ok env w0 C (st\<lparr>cs_world := x4\<rparr>) = run_ok env w0 C st"
  by (simp_all add: run_ok_def)

lemma keeps_updates [simp]:
  "keeps env w0 st (st'\<lparr>cs_signature := x1\<rparr>) = keeps env w0 st st'"
  "keeps env w0 st (st'\<lparr>cs_byteCapped := x2\<rparr>) = keeps env w0 st st'"
  "keeps env w0 st (st'\<lparr>cs_timerFor := x3\<rparr>) = keeps env w0 st st'"
  "keeps env w0 st (st'\<lparr>cs_world := x4\<rparr>) = keeps env w0 st st'"
  "keeps env w0 st (st'\<lparr>cs_tailCursor := x5\<rparr>) = keeps env w0 st st'"
  "keeps env w0 (st\<lparr>cs_timerFor := x3\<rparr>) st' = keeps env w0 st st'"
  by (simp_all add: keeps_def)

lemma flush_run:
  assumes "run_ok env w0 C st"
  shows "run_ok env w0 C (flush env st) \<and> keeps env w0 st (flush env st) \<and>
    (cs_live st \<and> \<not> cs_halted (flush env st) \<longrightarrow> cs_buffer (flush env st) = [] \<and> cs_tailCursor (flush env st) = None \<and>
       cs_timerFor (flush env st) = None)"
proof -
  define st0 where "st0 = st\<lparr>cs_timerFor := None\<rparr>"
  have st0: "run_ok env w0 C st0" "keeps env w0 st st0" "cs_live st0 = cs_live st" "cs_timerFor st0 = None"
    using assms by (simp_all add: st0_def)
  show ?thesis
  proof (cases "cs_tailCursor st0 = None \<or> cs_halted st0")
    case True
    then have "flush env st = st0" by (simp add: flush_def st0_def)
    then show ?thesis using st0 True by (auto simp: run_ok_def)
  next
    case False
    define st1 where "st1 = finish_inflight env st0"
    note f = finish_inflight_run [OF st0(1), folded st1_def]
    have k: "keeps env w0 st st1" using f keeps_trans st0(2) by blast
    have l: "cs_live st1 = cs_live st" using f st0(3) by (simp add: keeps_def)
    show ?thesis
    proof (cases "cs_live st1 \<and> \<not> cs_halted st1")
      case stopped: False
      then have "flush env st = st1" using False
        by (auto simp: flush_def st0_def [symmetric] st1_def [symmetric] Let_def split: option.split)
      then show ?thesis using stopped f k l by auto
    next
      case True
      obtain reach where r: "cs_tailCursor st1 = Some reach" using False f by auto
      define st2 where "st2 = st1\<lparr>cs_tailCursor := None, cs_buffer := [], cs_bufferKeys := [], cs_bufferOp := None,
        cs_byteCapped := None,
        cs_inflight := Some \<lparr>ba_items = cs_buffer st1, ba_op = cs_bufferOp st1, ba_reach = reach\<rparr>\<rparr>"
      have eq: "flush env st = st2"
        using False True r by (auto simp: flush_def st0_def [symmetric] st1_def [symmetric] st2_def Let_def)
      have a: "accounted env w0 st2 c \<longleftrightarrow> accounted env w0 st1 c"
        and h: "held env w0 st2 c \<longleftrightarrow> accounted env w0 st1 c \<or> c \<in> item_cursor ` set (cs_buffer st1)"
        and h1: "held env w0 st1 c \<longleftrightarrow> accounted env w0 st1 c \<or> c \<in> item_cursor ` set (cs_buffer st1)" for c
        using f by (auto simp: accounted_def held_def inflight_items_def st2_def)
      have ok: "run_ok env w0 C st1" using f by blast
      then have "\<forall>c\<in>C. \<not> env_after env c (Some reach) \<longrightarrow> held env w0 st1 c"
        using True r by (simp add: run_ok_def)
      then have "run_ok env w0 C st2"
        using ok a h1 unfolding run_ok_def by (auto simp: st2_def)
      moreover have "keeps env w0 st1 st2" using True h h1 by (simp add: keeps_def) (simp add: st2_def)
      moreover have "cs_timerFor st1 = None" using f st0(4) by simp
      ultimately show ?thesis using k keeps_trans eq by (auto simp: st2_def)
    qed
  qed
qed

definition reached :: "'w cdc_env \<Rightarrow> string option \<Rightarrow> string set \<Rightarrow> string \<Rightarrow> 'w cdc_stream \<Rightarrow> bool" where
  "reached env w0 C e st =
     (cs_live st \<and> \<not> cs_halted st \<longrightarrow> (\<forall>c\<in>C. \<not> env_after env c (Some e) \<longrightarrow> c = e \<or> held env w0 st c))"

lemma reached_keeps: "reached env w0 C e st \<Longrightarrow> keeps env w0 st st' \<Longrightarrow> reached env w0 C e st'"
  unfolding reached_def keeps_def by blast

text \<open>What taking the change at \<open>e\<close> has to leave behind.\<close>

definition taken :: "'w cdc_env \<Rightarrow> string option \<Rightarrow> string set \<Rightarrow> string \<Rightarrow> 'w cdc_stream \<Rightarrow> 'w cdc_stream \<Rightarrow> bool" where
  "taken env w0 C e st st' =
     (run_ok env w0 C st' \<and> keeps env w0 st st' \<and> (cs_live st' \<and> \<not> cs_halted st' \<longrightarrow> held env w0 st' e))"

lemma taken_after: "keeps env w0 st st1 \<Longrightarrow> taken env w0 C e st1 st' \<Longrightarrow> taken env w0 C e st st'"
  unfolding taken_def using keeps_trans by blast

lemma taken_stopped: "run_ok env w0 C st' \<Longrightarrow> keeps env w0 st st' \<Longrightarrow> \<not> cs_live st' \<or> cs_halted st' \<Longrightarrow> taken env w0 C e st st'"
  by (auto simp: taken_def)

lemma taken_then_flush:
  assumes "taken env w0 C e st st'"
  shows "taken env w0 C e st (flush env st')"
proof -
  have k: "keeps env w0 st' (flush env st')" and r: "run_ok env w0 C (flush env st')"
    using flush_run assms by (auto simp: taken_def)
  have "held env w0 (flush env st') e" if "cs_live (flush env st')" "\<not> cs_halted (flush env st')"
    using that k assms by (auto simp: keeps_def taken_def)
  then show ?thesis using r k keeps_trans [of env w0 st st' "flush env st'"] assms by (simp add: taken_def)
qed

lemma taken_then_schedule: "taken env w0 C e st st' \<Longrightarrow> taken env w0 C e st (scheduleFlush st')"
  by (simp add: taken_def scheduleFlush_def Let_def)

lemma push_run:
  assumes "run_ok env w0 C st" "cs_live st" "reached env w0 C (item_cursor b) st"
  shows "taken env w0 C (item_cursor b) st (push_item b st)"
proof -
  have a: "accounted env w0 (push_item b st) = accounted env w0 st"
    by (simp add: accounted_def push_item_def fun_eq_iff)
  have h: "held env w0 (push_item b st) c \<longleftrightarrow> held env w0 st c \<or> c = item_cursor b" for c
    by (auto simp: held_def accounted_def inflight_items_def push_item_def)
  have "run_ok env w0 C (push_item b st)"
    using assms(1) unfolding run_ok_def a h
    using assms(2,3) by (auto simp: push_item_def reached_def item_cursor_def)
  then show ?thesis using h by (simp add: taken_def keeps_def) (simp add: push_item_def)
qed

lemma note_run:
  assumes "run_ok env w0 C st" "reached env w0 C e st" "e \<in> set (cs_passed st)"
  shows "taken env w0 C e st (notePosition env e st)"
proof -
  have e: "held env w0 st e" using assms(3) by (simp add: held_def accounted_def)
  define st1 where "st1 = st\<lparr>cs_tailCursor := Some e\<rparr>"
  have st1: "run_ok env w0 C st1" if "cs_live st" "\<not> cs_halted st"
    using assms(1,2) that e unfolding run_ok_def reached_def st1_def by auto
  have "taken env w0 C e st st1" if "cs_live st" "\<not> cs_halted st"
    using st1 [OF that] e by (simp add: taken_def st1_def)
  then show ?thesis
    using taken_then_schedule [of env w0 C e st st1] assms(1) e
    by (auto simp: notePosition_def st1_def [symmetric] taken_def)
qed

lemma pass_over_run:
  assumes "run_ok env w0 C st" "reached env w0 C e st"
  shows "taken env w0 C e st (pass_over env e st)"
proof -
  define st1 where "st1 = st\<lparr>cs_passed := cs_passed st @ [e]\<rparr>"
  have h: "held env w0 st c \<Longrightarrow> held env w0 st1 c" "accounted env w0 st c \<Longrightarrow> accounted env w0 st1 c" for c
    by (auto simp: st1_def held_def accounted_def inflight_items_def)
  have "run_ok env w0 C st1" using assms(1) h unfolding run_ok_def by (simp add: st1_def) blast
  moreover have k: "keeps env w0 st st1" using h by (simp add: keeps_def) (simp add: st1_def)
  ultimately have "taken env w0 C e st1 (notePosition env e st1)"
    using note_run [of env w0 C st1 e] reached_keeps [OF assms(2) k] by (simp add: st1_def)
  then show ?thesis using taken_after k by (simp add: pass_over_def st1_def)
qed


text \<open>Calls that only touch the world (or stop the stream) change nothing that is held.\<close>

definition aside :: "'w cdc_stream \<Rightarrow> 'w cdc_stream \<Rightarrow> bool" where
  "aside st st' = (queue_of st' = queue_of st \<and> grew st st')"

lemma aside_run: "aside st st' \<Longrightarrow> run_ok env w0 C st \<Longrightarrow> run_ok env w0 C st' \<and> keeps env w0 st st'"
  unfolding aside_def using run_ok_grew same_queue_keeps grew_def by blast

lemma aside_trans: "aside a b \<Longrightarrow> aside b c \<Longrightarrow> aside a c"
  unfolding aside_def using grew_trans by metis

lemma aside_world [simp]: "aside st (st\<lparr>cs_world := w\<rparr>)"
  by (simp add: aside_def)

lemma aside_halt: "aside st (halt p st)"
  by (simp add: aside_def grew_halt)

lemma aside_read_back: "aside st (snd (read_back n env r missing st)) \<and>
    (fst (read_back n env r missing st) = None \<longrightarrow>
       \<not> cs_live (snd (read_back n env r missing st)) \<or> cs_halted (snd (read_back n env r missing st)))"
proof (induction n arbitrary: st)
  case 0
  then show ?case using aside_halt [of st False] by (simp add: halt_def happened_def)
next
  case (Suc n)
  obtain page w where p: "env_browse env (cs_world st) r = (page, w)" by force
  have "aside st (snd (read_back n env r missing (st\<lparr>cs_world := w\<rparr>)))"
    using Suc.IH [of "st\<lparr>cs_world := w\<rparr>"] aside_trans [OF aside_world [of st w]] by blast
  then show ?case using Suc.IH [of "st\<lparr>cs_world := w\<rparr>"] p by (simp add: Let_def split: option.split)
qed

lemma aside_completeRow: "aside st (snd (completeRow env c st)) \<and>
    (fst (completeRow env c st) = None \<longrightarrow>
       \<not> cs_live (snd (completeRow env c st)) \<or> cs_halted (snd (completeRow env c st)))"
proof -
  define missing where "missing = map fst (filter (\<lambda>(k, v). v = JUnchanged) (ch_row c))"
  obtain whole w where e: "(if needs_value env c missing then (True, cs_world st) else env_wholeValue env (cs_world st)) = (whole, w)"
    by force
  have r: "aside st (snd (read_back 3 env (ch_row c) missing (st\<lparr>cs_world := w\<rparr>)))"
    using aside_read_back aside_trans [OF aside_world [of st w]] by blast
  show ?thesis
    using r aside_read_back [of "st\<lparr>cs_world := w\<rparr>" 3 env "ch_row c" missing]
    by (auto simp: completeRow_def missing_def [symmetric] e Let_def split: option.split)
qed

lemma flush_keeps: "run_ok env w0 C st \<Longrightarrow> run_ok env w0 C (flush env st)"
  "run_ok env w0 C st \<Longrightarrow> keeps env w0 st (flush env st)"
  using flush_run by blast+

lemma join_batch_run:
  assumes "run_ok env w0 C st" "cs_live st" "reached env w0 C (item_cursor b) st"
  shows "taken env w0 C (item_cursor b) st (join_batch env b st)"
proof -
  define st1 where "st1 = measure_batch env (bf_row b) st"
  have st1: "run_ok env w0 C st1" "keeps env w0 st st1" "cs_live st1"
    using assms(1,2) by (simp_all add: st1_def measure_batch_def)
  have "taken env w0 C (item_cursor b) st1 (push_item b st1)"
    using push_run [OF st1(1,3)] reached_keeps [OF assms(3) st1(2)] by simp
  then have t: "taken env w0 C (item_cursor b) st (push_item b st1)" using taken_after st1(2) by blast
  show ?thesis
    using taken_then_flush [OF t] taken_then_schedule [OF t] by (simp add: join_batch_def st1_def [symmetric] Let_def)
qed

lemma enqueue_run:
  assumes "run_ok env w0 C st" "cs_live st" "reached env w0 C (ch_cursor c) st"
  shows "taken env w0 C (ch_cursor c) st (enqueue env c r os st)"
proof -
  define sig where "sig = keySignature (env_primaryKey env) r"
  define st1 where "st1 = (if conflicts (ch_op c) sig st then flush env st else st)"
  have st1: "run_ok env w0 C st1" "keeps env w0 st st1"
    using flush_keeps [OF assms(1)] assms(1) by (simp_all add: st1_def)
  have live: "cs_live st1" using st1(2) assms(2) by (simp add: keeps_def)
  define b where "b = \<lparr>bf_change = c, bf_row = r, bf_origins = os, bf_keySig = sig\<rparr>"
  have b: "item_cursor b = ch_cursor c" by (simp add: b_def item_cursor_def)
  have "taken env w0 C (ch_cursor c) st (join_batch env b st1)"
    using taken_after [OF st1(2) join_batch_run [OF st1(1) live]] reached_keeps [OF assms(3) st1(2)] b by metis
  then show ?thesis
    using live by (simp add: enqueue_def sig_def [symmetric] st1_def [symmetric] b_def [symmetric] Let_def)
qed

lemma filter_and_echo_run:
  assumes "run_ok env w0 C st" "cs_live st" "reached env w0 C (ch_cursor c) st"
  shows "taken env w0 C (ch_cursor c) st (filter_and_echo env c r st)"
proof -
  obtain v w where e: "env_echo env (cs_world st) (ch_op c) r = (v, w)" by force
  let ?st1 = "st\<lparr>cs_world := w\<rparr>"
  have st1: "run_ok env w0 C ?st1" "keeps env w0 st ?st1" using assms(1) by simp_all
  note r1 = reached_keeps [OF assms(3) st1(2)]
  have live: "cs_live ?st1" using assms(2) by simp
  have "taken env w0 C (ch_cursor c) st (enqueue env c r os ?st1)" for os
    using taken_after [OF st1(2) enqueue_run [OF st1(1) live r1]] .
  moreover have "taken env w0 C (ch_cursor c) st (pass_over env (ch_cursor c) ?st1)"
    using taken_after [OF st1(2) pass_over_run [OF st1(1) r1]] .
  moreover have "\<not> cs_live ?st1 \<or> cs_halted ?st1 \<Longrightarrow> taken env w0 C (ch_cursor c) st ?st1"
    using taken_stopped [OF st1] .
  ultimately show ?thesis using pass_over_run [OF assms(1,3)]
    by (simp add: filter_and_echo_def e Let_def split: echo_verdict.split)
qed

lemma accept_truncate_run:
  assumes "run_ok env w0 C st" "cs_live st" "reached env w0 C (ch_cursor c) st"
  shows "taken env w0 C (ch_cursor c) st (accept_truncate env c st)"
proof -
  define st1 where "st1 = flush env st"
  have st1: "run_ok env w0 C st1" "keeps env w0 st st1" using flush_keeps [OF assms(1)] by (simp_all add: st1_def)
  have live: "cs_live st1" using st1(2) assms(2) by (simp add: keeps_def)
  obtain v w where e: "env_echo env (cs_world st1) Op_truncate [] = (v, w)" by force
  let ?st2 = "st1\<lparr>cs_world := w\<rparr>"
  have st2: "run_ok env w0 C ?st2" "keeps env w0 st ?st2" "cs_live ?st2" using st1 live by simp_all
  note r = reached_keeps [OF assms(3) st2(2)]
  have push: "taken env w0 C (ch_cursor c) st
      (flush env (push_item \<lparr>bf_change = c, bf_row = [], bf_origins = os, bf_keySig = None\<rparr> ?st2))" for os
    using taken_then_flush [OF taken_after [OF st2(2) push_run [OF st2(1,3)]],
        of "\<lparr>bf_change = c, bf_row = [], bf_origins = os, bf_keySig = None\<rparr>"] r by (simp add: item_cursor_def)
  have pass: "taken env w0 C (ch_cursor c) st (pass_over env (ch_cursor c) ?st2)"
    using taken_after [OF st2(2) pass_over_run [OF st2(1) r]] .
  show ?thesis
    using push pass taken_stopped [OF st1]
    by (simp add: accept_truncate_def st1_def [symmetric] e Let_def split: echo_verdict.split)
qed


lemma finish_keeps: "run_ok env w0 C st \<Longrightarrow> run_ok env w0 C (finish_inflight env st)"
  "run_ok env w0 C st \<Longrightarrow> keeps env w0 st (finish_inflight env st)"
  using finish_inflight_run by blast+

lemma stop_run:
  assumes "run_ok env w0 C st"
  shows "run_ok env w0 C (halt False (finish_inflight env (flush env st))) \<and>
    keeps env w0 st (halt False (finish_inflight env (flush env st))) \<and>
    cs_halted (halt False (finish_inflight env (flush env st)))"
proof -
  note f = flush_keeps [OF assms] and g = finish_keeps [OF flush_keeps(1) [OF assms]]
  note h = aside_run [OF aside_halt g(1), of False]
  show ?thesis using h keeps_trans [OF keeps_trans [OF f(2) g(2)]] by (simp add: halt_def happened_def)
qed

lemma check_schema_run:
  assumes "run_ok env w0 C st" and "check_schema env c r st = (go, st')"
  shows "run_ok env w0 C st' \<and> keeps env w0 st st' \<and> (\<not> go \<longrightarrow> \<not> cs_live st' \<or> cs_halted st')"
proof -
  obtain stop w where d: "env_drift env (cs_world st) = (stop, w)" by force
  have st1: "run_ok env w0 C (st\<lparr>cs_world := w\<rparr>)" "keeps env w0 st (st\<lparr>cs_world := w\<rparr>)" using assms(1) by simp_all
  note s = stop_run [OF st1(1)]
  then show ?thesis
    using assms d st1 keeps_trans [OF st1(2)]
    by (auto simp: check_schema_def Let_def split: if_splits option.splits)
qed

definition reads_table :: "'w cdc_env \<Rightarrow> bool" where
  "reads_table env = (case bi_source (env_bridge env) of Query_source q \<Rightarrow> False | Table_source s \<Rightarrow> True)"

lemma accept_run:
  assumes "run_ok env w0 C st" "reached env w0 C (ch_cursor c) st" "reads_table env" "ch_cursor c \<in> C"
  shows "taken env w0 C (ch_cursor c) st (accept env c st)"
proof (cases "cs_live st \<and> \<not> cs_halted st")
  case False
  then show ?thesis using assms(1) taken_stopped [of env w0 C st st] by (auto simp: accept_def)
next
  case True
  show ?thesis
  proof (cases "env_after env (ch_cursor c) (cs_watermark st)")
    case False
    then have "held env w0 st (ch_cursor c)" using assms(1,4) by (simp add: run_ok_def held_def)
    then show ?thesis using assms(1,3) True False
      by (auto simp: accept_def taken_def reads_table_def split: bridge_source.splits)
  next
    case after: True
    show ?thesis
    proof (cases "ch_op c = Op_truncate")
      case True
      then show ?thesis
        using accept_truncate_run [OF assms(1) _ assms(2)] \<open>cs_live st \<and> \<not> cs_halted st\<close> after assms(3)
        by (auto simp: accept_def reads_table_def split: bridge_source.splits)
    next
      case row: False
      obtain r st1 where c1: "(if has_unchanged (ch_row c) then completeRow env c st else (Some (ch_row c), st)) = (r, st1)"
        by force
      have aside: "aside st st1 \<and> (r = None \<longrightarrow> \<not> cs_live st1 \<or> cs_halted st1)"
        using c1 aside_completeRow [of st env c] by (auto simp: aside_def split: if_splits)
      then have st1: "run_ok env w0 C st1" "keeps env w0 st st1" using aside_run assms(1) by blast+
      have eq: "accept env c st = (case r of None \<Rightarrow> st1 | Some r' \<Rightarrow>
          (case check_schema env c r' st1 of (go, st2) \<Rightarrow> if go then filter_and_echo env c r' st2 else st2))"
        using True after row assms(3) c1 by (auto simp: accept_def accept_row_def reads_table_def Let_def split: bridge_source.splits)
      show ?thesis
      proof (cases r)
        case None
        then show ?thesis using eq aside taken_stopped [OF st1] by simp
      next
        case (Some r')
        obtain go st2 where g: "check_schema env c r' st1 = (go, st2)" by force
        note s = check_schema_run [OF st1(1) g]
        have k: "keeps env w0 st st2" using s keeps_trans st1(2) by blast
        have live: "cs_live st2" using k True by (simp add: keeps_def)
        have "taken env w0 C (ch_cursor c) st (filter_and_echo env c r' st2)"
          using taken_after [OF k filter_and_echo_run [OF _ live reached_keeps [OF assms(2) k]]] s by blast
        then show ?thesis using eq Some g s taken_stopped [OF _ k] by auto
      qed
    qed
  qed
qed

lemma record_notice_work:
  assumes "\<not> cs_halted s" "\<not> cs_halted st0" "grew st0 s"
  shows "(if fst (record_notice env e s) then settled e {#} st0 (snd (record_notice env e s))
      else grew st0 (snd (record_notice env e s))) \<and> queue_of (snd (record_notice env e s)) = queue_of s"
proof -
  obtain ok w where n: "env_notice env (cs_world s) (cs_seq s) = (ok, w)" by force
  let ?s1 = "happened (Ev_noticed (cs_seq s)) (s\<lparr>cs_world := w\<rparr>)"
  have g: "grew st0 ?s1" "grew st0 (s\<lparr>cs_world := w\<rparr>)"
    using assms(3) by (auto simp: grew_def happened_def)
  then have l: "landed (cs_events st0) + {#} \<subseteq># landed (cs_events ?s1)" by (simp add: grew_def)
  have "\<not> cs_halted ?s1" using assms(1) by (simp add: happened_def)
  then show ?thesis
    using settled_checkpoint [OF g(1) _ assms(2) l, of env "cs_seq s + 1" e] g n
    by (auto simp: record_notice_def Let_def split: if_splits)
qed

lemma handleNotice_run:
  assumes "run_ok env w0 C st" "reached env w0 C e st" "e \<in> C"
  shows "taken env w0 C e st (handleNotice env e st)"
proof (cases "cs_live st \<and> \<not> cs_halted st \<and> env_after env e (cs_watermark st)")
  case False
  then show ?thesis using assms(1,3) by (auto simp: handleNotice_def taken_def run_ok_def held_def)
next
  case True
  define st1 where "st1 = finish_inflight env (flush env st)"
  note f = flush_run [OF assms(1)]
  note g = finish_inflight_run [OF flush_keeps(1) [OF assms(1)], folded st1_def]
  have k: "keeps env w0 st st1" using f g keeps_trans by blast
  show ?thesis
  proof (cases "cs_live st1 \<and> \<not> cs_halted st1")
    case False
    then show ?thesis using True taken_stopped [OF _ k] g by (auto simp: handleNotice_def st1_def [symmetric] Let_def)
  next
    case go: True
    have "\<not> cs_halted (flush env st)" using g go by (auto simp: keeps_def)
    then have empty: "cs_buffer st1 = []" "cs_tailCursor st1 = None" "cs_inflight st1 = None"
      using f g True by auto
    define st2 where "st2 = st1\<lparr>cs_passed := cs_passed st1 @ [e]\<rparr>"
    define st3 where "st3 = settle SETTLE_ATTEMPTS (record_notice env e) st2"
    have eq: "handleNotice env e st = st3"
      using True go by (simp add: handleNotice_def st1_def [symmetric] st2_def st3_def Let_def)
    have halted: "\<not> cs_halted st2" using go by (simp add: st2_def)
    have "settled e {#} st2 st3"
      unfolding st3_def by (rule settle_rule) (use record_notice_work [OF _ halted] in auto)
    moreover have q: "queue_of st3 = queue_of st2"
      unfolding st3_def
    proof (rule queue_settle)
      show "queue_of (snd (record_notice env e s)) = queue_of s" for s
        by (simp add: record_notice_def Let_def split: prod.split)
    qed
    moreover have h: "held env w0 st1 c \<Longrightarrow> accounted env w0 st2 c" "accounted env w0 st1 c \<Longrightarrow> accounted env w0 st2 c" for c
      using empty by (auto simp: held_def accounted_def inflight_items_def st2_def)
    moreover have e: "accounted env w0 st2 e" by (simp add: accounted_def st2_def)
    moreover have r: "\<forall>c\<in>C. \<not> env_after env c (Some e) \<longrightarrow> accounted env w0 st2 c"
      using reached_keeps [OF assms(2) k] go h e unfolding reached_def by blast
    moreover have "run_ok env w0 C st2"
      using g go h empty unfolding run_ok_def by (auto simp: st2_def)
    ultimately have ok: "run_ok env w0 C st3"
      using run_ok_grew [of env w0 C st2 st3] same_queue_held [OF q, of env w0] queue_fields [OF q] empty
      by (cases "cs_halted st3") (auto simp: settled_def run_ok_def st2_def intro: subset_mset.order_trans)
    have "keeps env w0 st1 st3"
      using same_queue_held [OF q, of env w0] queue_fields [OF q] go h(1) by (simp add: keeps_def held_def st2_def)
    then have "keeps env w0 st st3" using k keeps_trans by blast
    moreover have "held env w0 st3 e" using same_queue_held [OF q, of env w0] e by (simp add: held_def)
    ultimately show ?thesis using ok eq by (simp add: taken_def)
  qed
qed


section \<open>The stream from outside\<close>

text \<open>
  What a provider hands over, in the order it hands it over; and everything that may happen to a
  stream: the next of it is taken, the delivery in flight ends, a timer fires, the provider
  reconnects and hands over again what the durable position does not cover, the source fails for
  good, the stream is torn down.
\<close>

datatype feed = Feed_change cdc_change | Feed_skip string | Feed_notice string

fun feed_cursor :: "feed \<Rightarrow> string" where
  "feed_cursor (Feed_change c) = ch_cursor c"
| "feed_cursor (Feed_skip c) = c"
| "feed_cursor (Feed_notice c) = c"

fun take_feed :: "'w cdc_env \<Rightarrow> feed \<Rightarrow> 'w cdc_stream \<Rightarrow> 'w cdc_stream" where
  "take_feed env (Feed_change c) st = accept env c st"
| "take_feed env (Feed_skip c) st = pass_over env c st"
| "take_feed env (Feed_notice c) st = handleNotice env c st"

definition stream_at :: "string option \<Rightarrow> nat \<Rightarrow> 'w \<Rightarrow> 'w cdc_stream" where
  "stream_at cursor seq w =
     \<lparr>cs_seq = seq, cs_watermark = cursor, cs_buffer = [], cs_bufferOp = None, cs_bufferKeys = [],
      cs_tailCursor = None, cs_timerFor = None, cs_byteCapped = None, cs_inflight = None, cs_halted = False,
      cs_live = True, cs_failures = 0, cs_signature = None, cs_world = w, cs_events = [], cs_done = [],
      cs_passed = []\<rparr>"

inductive pipeline :: "'w cdc_env \<Rightarrow> feed list \<Rightarrow> 'w cdc_stream \<Rightarrow> nat \<Rightarrow> 'w cdc_stream \<Rightarrow> bool"
  for env F st0 where
  start: "pipeline env F st0 0 st0"
| take_next: "pipeline env F st0 i st \<Longrightarrow> i < length F \<Longrightarrow> pipeline env F st0 (Suc i) (take_feed env (F ! i) st)"
| delivery_ends: "pipeline env F st0 i st \<Longrightarrow> pipeline env F st0 i (finish_inflight env st)"
| timer: "pipeline env F st0 i st \<Longrightarrow> pipeline env F st0 i (timer_fires env st)"
| reconnect: "pipeline env F st0 i st \<Longrightarrow> j \<le> length F \<Longrightarrow>
    (\<And>k. k < j \<Longrightarrow> \<not> env_after env (feed_cursor (F ! k)) (cs_watermark st)) \<Longrightarrow> pipeline env F st0 j st"
| source_fails: "pipeline env F st0 i st \<Longrightarrow> pipeline env F st0 i (handleFatal env st)"
| teardown: "pipeline env F st0 i st \<Longrightarrow> pipeline env F st0 i (st\<lparr>cs_live := False\<rparr>)"

definition feed_ok :: "'w cdc_env \<Rightarrow> feed list \<Rightarrow> bool" where
  "feed_ok env F = sorted_wrt (\<lambda>f g. env_after env (feed_cursor g) (Some (feed_cursor f))) F"

definition seen :: "'w cdc_env \<Rightarrow> string option \<Rightarrow> feed list \<Rightarrow> nat \<Rightarrow> 'w cdc_stream \<Rightarrow> bool" where
  "seen env w0 F i st =
     (i \<le> length F \<and> (cs_live st \<and> \<not> cs_halted st \<longrightarrow> (\<forall>k<i. held env w0 st (feed_cursor (F ! k)))))"

lemma seen_keeps: "seen env w0 F i st \<Longrightarrow> keeps env w0 st st' \<Longrightarrow> seen env w0 F i st'"
  by (auto simp: seen_def keeps_def)

lemma seen_reached:
  assumes "seen env w0 F i st" "i < length F" "feed_ok env F"
  shows "reached env w0 (feed_cursor ` set F) (feed_cursor (F ! i)) st"
  unfolding reached_def
proof (intro impI ballI)
  fix c assume go: "cs_live st \<and> \<not> cs_halted st" and c: "c \<in> feed_cursor ` set F"
    and na: "\<not> env_after env c (Some (feed_cursor (F ! i)))"
  obtain k where k: "k < length F" "c = feed_cursor (F ! k)" using c by (auto simp: in_set_conv_nth)
  have "\<not> i < k" using na k assms(3) sorted_wrt_nth_less by (fastforce simp: feed_ok_def)
  then show "c = feed_cursor (F ! i) \<or> held env w0 st c"
    using assms(1) go k(2) by (cases "k = i") (auto simp: seen_def)
qed

lemma take_feed_run:
  assumes "run_ok env w0 C st" "reached env w0 C (feed_cursor f) st" "reads_table env" "feed_cursor f \<in> C"
  shows "taken env w0 C (feed_cursor f) st (take_feed env f st)"
  using assms accept_run pass_over_run handleNotice_run by (cases f) simp_all

lemma pipeline_run:
  assumes "pipeline env F (stream_at w0 seq w) i st" "feed_ok env F" "reads_table env"
  shows "run_ok env w0 (feed_cursor ` set F) st \<and> seen env w0 F i st"
  using assms(1)
proof (induction rule: pipeline.induct)
  case start
  then show ?case by (simp add: stream_at_def run_ok_def seen_def accounted_def)
next
  case (take_next i st)
  then have t: "taken env w0 (feed_cursor ` set F) (feed_cursor (F ! i)) st (take_feed env (F ! i) st)"
    using take_feed_run [OF _ seen_reached [OF _ _ assms(2)] assms(3)] by simp
  then show ?case
    using take_next seen_keeps [of env w0 F i st] by (auto simp: taken_def seen_def less_Suc_eq)
next
  case (delivery_ends i st)
  then show ?case using finish_keeps seen_keeps by blast
next
  case (timer i st)
  then have t: "run_ok env w0 (feed_cursor ` set F) (st\<lparr>cs_timerFor := None\<rparr>)" "seen env w0 F i (st\<lparr>cs_timerFor := None\<rparr>)"
    by (simp_all add: seen_def)
  show ?case using t flush_keeps [OF t(1)] seen_keeps [OF t(2)] by (auto simp: timer_fires_def Let_def)
next
  case (reconnect i st j)
  then show ?case by (auto simp: seen_def run_ok_def held_def)
next
  case (source_fails i st)
  then show ?case using stop_run [of env w0 _ st] seen_keeps [of env w0 F i st] by (simp add: handleFatal_def)
next
  case (teardown i st)
  have "held env w0 (st\<lparr>cs_live := False\<rparr>) = held env w0 st" "accounted env w0 (st\<lparr>cs_live := False\<rparr>) = accounted env w0 st"
    by (simp_all add: held_def accounted_def inflight_items_def fun_eq_iff)
  then show ?case using teardown by (auto simp: seen_def run_ok_def)
qed

text \<open>
  C2: No row is lost. In every state the pipeline can reach - with deliveries, timers, failures,
  stops and reconnects in any order, whatever the destination, the store and the queue answer -
  everything the saved position covers is accounted for: it was behind the position the stream
  started from, was passed on purpose (another table, a filtered row, an echo, a notice), or is
  a row of a finished batch; and every row of a finished batch was delivered to the destination
  or parked in the dead-letter queue.
\<close>
theorem saved_position_covers_only_landed_rows:
  assumes "feed_ok env F" and "reads_table env"
    and "pipeline env F (stream_at w0 seq w) i st"
    and "f \<in> set F" and "\<not> env_after env (feed_cursor f) (cs_watermark st)"
  shows "(\<not> env_after env (feed_cursor f) w0 \<or> feed_cursor f \<in> set (cs_passed st) \<or>
      (\<exists>b\<in>set (cs_done st). ch_cursor (bf_change b) = feed_cursor f)) \<and>
    mset (map bf_row (cs_done st)) \<subseteq># landed (cs_events st)"
  using pipeline_run [OF assms(3,1,2)] assms(4,5)
  by (fastforce simp: run_ok_def accounted_def item_cursor_def)


section \<open>Batches\<close>

definition sigs :: "buffered list \<Rightarrow> string list" where
  "sigs bs = List.map_filter bf_keySig bs"

lemma sigs_simps [simp]: "sigs [] = []" "sigs (xs @ ys) = sigs xs @ sigs ys"
  "sigs [b] = (case bf_keySig b of None \<Rightarrow> [] | Some k \<Rightarrow> [k])"
  by (simp_all add: sigs_def List.map_filter_def split: option.split)

text \<open>What may go out as one delivery.\<close>

definition batch_ok :: "'w cdc_env \<Rightarrow> cdc_batch \<Rightarrow> bool" where
  "batch_ok env b =
     ((\<forall>x\<in>set (ba_items b). ba_op b = Some (ch_op (bf_change x))) \<and> distinct (sigs (ba_items b)) \<and>
      length (ba_items b) \<le> max 1 (env_maxBatch env) \<and>
      (ba_op b = Some Op_truncate \<longrightarrow> length (ba_items b) \<le> 1))"

definition pending_ok :: "'w cdc_env \<Rightarrow> 'w cdc_stream \<Rightarrow> bool" where
  "pending_ok env st =
     ((\<forall>b. cs_inflight st = Some b \<longrightarrow> batch_ok env b) \<and>
      (cs_live st \<and> \<not> cs_halted st \<longrightarrow>
        (cs_buffer st \<noteq> [] \<longrightarrow> cs_tailCursor st \<noteq> None) \<and>
        (\<forall>x\<in>set (cs_buffer st). cs_bufferOp st = Some (ch_op (bf_change x))) \<and>
        distinct (sigs (cs_buffer st)) \<and> set (cs_bufferKeys st) = set (sigs (cs_buffer st)) \<and>
        length (cs_buffer st) \<le> max 1 (env_maxBatch env) \<and>
        (cs_bufferOp st = Some Op_truncate \<longrightarrow> length (cs_buffer st) \<le> 1)))"

text \<open>Between two changes, moreover, there is room for a row, and what waits has a timer.\<close>

definition steady :: "'w cdc_env \<Rightarrow> 'w cdc_stream \<Rightarrow> bool" where
  "steady env st =
     (pending_ok env st \<and>
      (cs_live st \<and> \<not> cs_halted st \<longrightarrow>
        (cs_buffer st \<noteq> [] \<longrightarrow> length (cs_buffer st) < env_maxBatch env \<and> cs_timerFor st = Some For_rows) \<and>
        (cs_tailCursor st \<noteq> None \<longrightarrow> cs_timerFor st \<noteq> None)))"

definition emptied :: "'w cdc_stream \<Rightarrow> bool" where
  "emptied st = (cs_live st \<and> \<not> cs_halted st \<longrightarrow>
     cs_buffer st = [] \<and> cs_tailCursor st = None \<and> cs_bufferKeys st = [])"

lemma deliverBatch_halts: "cs_halted st \<Longrightarrow> cs_halted (deliverBatch env b st)"
  using deliverBatch_halted by blast

lemma finish_frame:
  "cs_buffer (finish_inflight env st) = cs_buffer st" "cs_bufferOp (finish_inflight env st) = cs_bufferOp st"
  "cs_bufferKeys (finish_inflight env st) = cs_bufferKeys st" "cs_tailCursor (finish_inflight env st) = cs_tailCursor st"
  "cs_timerFor (finish_inflight env st) = cs_timerFor st" "cs_live (finish_inflight env st) = cs_live st"
  "cs_inflight (finish_inflight env st) = None" "cs_byteCapped (finish_inflight env st) = cs_byteCapped st"
  "cs_halted st \<Longrightarrow> cs_halted (finish_inflight env st)"
proof -
  have "queue_of (deliverBatch env b (st\<lparr>cs_inflight := None\<rparr>)) = queue_of (st\<lparr>cs_inflight := None\<rparr>)" for b by simp
  note f = queue_fields [OF this]
  show "cs_buffer (finish_inflight env st) = cs_buffer st" "cs_bufferOp (finish_inflight env st) = cs_bufferOp st"
    "cs_bufferKeys (finish_inflight env st) = cs_bufferKeys st" "cs_tailCursor (finish_inflight env st) = cs_tailCursor st"
    "cs_timerFor (finish_inflight env st) = cs_timerFor st" "cs_live (finish_inflight env st) = cs_live st"
    "cs_inflight (finish_inflight env st) = None" "cs_byteCapped (finish_inflight env st) = cs_byteCapped st"
    "cs_halted st \<Longrightarrow> cs_halted (finish_inflight env st)"
    using f deliverBatch_halts [of "st\<lparr>cs_inflight := None\<rparr>" env]
    by (simp_all add: finish_inflight_def Let_def split: option.split)
qed

lemma finish_steady: "steady env st \<Longrightarrow> steady env (finish_inflight env st)"
  "pending_ok env st \<Longrightarrow> pending_ok env (finish_inflight env st)"
  using finish_frame(9) [where env = env and st = st] by (auto simp: steady_def pending_ok_def finish_frame)

lemma flush_steady:
  assumes "pending_ok env st"
  shows "steady env (flush env st) \<and> emptied (flush env st) \<and> cs_live (flush env st) = cs_live st"
proof -
  define st0 where "st0 = st\<lparr>cs_timerFor := None\<rparr>"
  define st1 where "st1 = finish_inflight env st0"
  have p0: "pending_ok env st0" using assms by (simp add: pending_ok_def st0_def)
  have p1: "pending_ok env st1" using finish_steady(2) [OF p0] by (simp add: st1_def)
  note f = finish_frame [where env = env and st = st0, folded st1_def]
  consider (still) "cs_tailCursor st0 = None \<or> cs_halted st0" "flush env st = st0"
    | (stopped) "\<not> (cs_live st1 \<and> \<not> cs_halted st1)" "flush env st = st1"
    | (moved) reach where "cs_live st1 \<and> \<not> cs_halted st1" "cs_tailCursor st1 = Some reach" "flush env st =
        st1\<lparr>cs_tailCursor := None, cs_buffer := [], cs_bufferKeys := [], cs_bufferOp := None, cs_byteCapped := None,
          cs_inflight := Some \<lparr>ba_items = cs_buffer st1, ba_op = cs_bufferOp st1, ba_reach = reach\<rparr>\<rparr>"
    using f(4) by (cases "cs_tailCursor st0 = None \<or> cs_halted st0"; cases "cs_live st1 \<and> \<not> cs_halted st1")
      (auto simp: flush_def st0_def [symmetric] st1_def [symmetric] Let_def)
  then show ?thesis
  proof cases
    case still
    then show ?thesis using p0 by (auto simp: steady_def pending_ok_def emptied_def st0_def)
  next
    case stopped
    then show ?thesis using p1 f by (auto simp: steady_def emptied_def st0_def)
  next
    case moved
    then show ?thesis using p1 f by (auto simp: steady_def pending_ok_def emptied_def batch_ok_def st0_def)
  qed
qed

lemma steady_updates [simp]:
  "steady env (st\<lparr>cs_world := x1\<rparr>) = steady env st" "pending_ok env (st\<lparr>cs_world := x1\<rparr>) = pending_ok env st"
  "steady env (st\<lparr>cs_signature := x2\<rparr>) = steady env st" "pending_ok env (st\<lparr>cs_byteCapped := x3\<rparr>) = pending_ok env st"
  "steady env (st\<lparr>cs_byteCapped := x3\<rparr>) = steady env st" "steady env (st\<lparr>cs_passed := x4\<rparr>) = steady env st"
  by (simp_all add: steady_def pending_ok_def)

lemma steady_halted: "pending_ok env st \<Longrightarrow> \<not> cs_live st \<or> cs_halted st \<Longrightarrow> steady env st"
  by (auto simp: steady_def)

lemma steady_schedule:
  assumes "pending_ok env st" "length (cs_buffer st) < env_maxBatch env \<or> cs_buffer st = []"
  shows "steady env (scheduleFlush st)"
proof -
  have "pending_ok env (scheduleFlush st)" using assms(1) by (simp add: scheduleFlush_def Let_def pending_ok_def)
  then show ?thesis using assms by (auto simp: steady_def scheduleFlush_def Let_def pending_ok_def)
qed

lemma steady_notePosition:
  assumes "steady env st"
  shows "steady env (notePosition env e st)"
proof (cases "cs_live st \<and> \<not> cs_halted st")
  case True
  let ?st = "st\<lparr>cs_tailCursor := Some e\<rparr>"
  have "pending_ok env ?st" using assms by (simp add: steady_def pending_ok_def)
  moreover have "length (cs_buffer ?st) < env_maxBatch env \<or> cs_buffer ?st = []"
    using assms True by (auto simp: steady_def)
  ultimately have "steady env (scheduleFlush ?st)" by (rule steady_schedule)
  then show ?thesis using assms by (simp add: notePosition_def)
next
  case False
  then show ?thesis using assms by (auto simp: notePosition_def)
qed

lemma steady_pass_over: "steady env st \<Longrightarrow> steady env (pass_over env e st)"
  by (simp add: pass_over_def steady_notePosition)

lemma steady_aside:
  assumes "aside st st'" "steady env st"
  shows "steady env st'"
proof -
  have q: "queue_of st' = queue_of st" and h: "cs_halted st \<longrightarrow> cs_halted st'"
    using assms(1) by (simp_all add: aside_def grew_def)
  show ?thesis using assms(2) h by (auto simp: steady_def pending_ok_def queue_fields [OF q])
qed

lemma push_pending:
  assumes "pending_ok env st" "cs_live st \<and> \<not> cs_halted st \<Longrightarrow> \<not> conflicts (ch_op (bf_change b)) (bf_keySig b) st"
    and "cs_live st \<and> \<not> cs_halted st \<Longrightarrow> length (cs_buffer st) < env_maxBatch env \<or> cs_buffer st = []"
    and "cs_live st \<and> \<not> cs_halted st \<Longrightarrow> ch_op (bf_change b) = Op_truncate \<Longrightarrow> cs_buffer st = []"
  shows "pending_ok env (push_item b st)"
  using assms unfolding pending_ok_def push_item_def conflicts_def by (auto split: option.splits)

lemma join_steady:
  assumes "pending_ok env st" "cs_live st \<and> \<not> cs_halted st \<Longrightarrow> \<not> conflicts (ch_op (bf_change b)) (bf_keySig b) st"
    and "cs_live st \<and> \<not> cs_halted st \<Longrightarrow> length (cs_buffer st) < env_maxBatch env \<or> cs_buffer st = []"
    and "ch_op (bf_change b) \<noteq> Op_truncate"
  shows "steady env (join_batch env b st)"
proof -
  define st1 where "st1 = measure_batch env (bf_row b) st"
  have same: "cs_buffer st1 = cs_buffer st" "cs_live st1 = cs_live st" "cs_halted st1 = cs_halted st"
    "conflicts op k st1 = conflicts op k st" "pending_ok env st1" for op k
    using assms(1) by (simp_all add: st1_def measure_batch_def conflicts_def)
  have p: "pending_ok env (push_item b st1)"
    by (rule push_pending [OF same(5)]) (use assms same in auto)
  have "batch_limit env (push_item b st1) \<le> env_maxBatch env" by (simp add: batch_limit_def)
  then show ?thesis using flush_steady [OF p] steady_schedule [OF p]
    by (auto simp: join_batch_def st1_def [symmetric] Let_def)
qed

lemma enqueue_steady:
  assumes "steady env st" "ch_op c \<noteq> Op_truncate"
  shows "steady env (enqueue env c r os st)"
proof -
  define sig where "sig = keySignature (env_primaryKey env) r"
  define st1 where "st1 = (if conflicts (ch_op c) sig st then flush env st else st)"
  have p: "pending_ok env st" using assms(1) by (simp add: steady_def)
  have s: "steady env st1" using flush_steady [OF p] assms(1) by (simp add: st1_def)
  have none: "\<not> conflicts (ch_op c) sig st1" if "cs_live st1 \<and> \<not> cs_halted st1"
    using that flush_steady [OF p] by (auto simp: st1_def emptied_def conflicts_def split: if_splits)
  have "steady env (join_batch env \<lparr>bf_change = c, bf_row = r, bf_origins = os, bf_keySig = sig\<rparr> st1)"
    by (rule join_steady) (use s none assms(2) in \<open>auto simp: steady_def\<close>)
  then show ?thesis using s flush_steady [OF p]
    by (simp add: enqueue_def sig_def [symmetric] st1_def [symmetric] Let_def)
qed


lemma steady_stop: "steady env st \<Longrightarrow> steady env (halt False (finish_inflight env (flush env st)))"
  using steady_aside [OF aside_halt] finish_steady(1) flush_steady by (metis steady_def)

lemma check_schema_steady:
  assumes "steady env st" "check_schema env c r st = (go, st')"
  shows "steady env st'"
proof -
  obtain stop w where d: "env_drift env (cs_world st) = (stop, w)" by force
  have "steady env (st\<lparr>cs_world := w\<rparr>)" using assms(1) by simp
  from steady_stop [OF this] show ?thesis
    using assms d by (auto simp: check_schema_def Let_def split: if_splits option.splits)
qed

lemma filter_and_echo_steady:
  assumes "steady env st" "ch_op c \<noteq> Op_truncate"
  shows "steady env (filter_and_echo env c r st)"
proof -
  obtain v w where e: "env_echo env (cs_world st) (ch_op c) r = (v, w)" by force
  have s: "steady env (st\<lparr>cs_world := w\<rparr>)" using assms(1) by simp
  show ?thesis
    using enqueue_steady [OF s assms(2)] steady_pass_over [OF s] steady_pass_over [OF assms(1)] s
    by (simp add: filter_and_echo_def e Let_def split: echo_verdict.split)
qed

lemma accept_truncate_steady:
  assumes "steady env st" "ch_op c = Op_truncate"
  shows "steady env (accept_truncate env c st)"
proof -
  have p: "pending_ok env st" using assms(1) by (simp add: steady_def)
  define st1 where "st1 = flush env st"
  have s: "steady env st1" "emptied st1" using flush_steady [OF p] by (simp_all add: st1_def)
  obtain v w where e: "env_echo env (cs_world st1) Op_truncate [] = (v, w)" by force
  have "pending_ok env (push_item \<lparr>bf_change = c, bf_row = [], bf_origins = os, bf_keySig = None\<rparr> (st1\<lparr>cs_world := w\<rparr>))" for os
    by (rule push_pending) (use s assms(2) in \<open>auto simp: steady_def emptied_def conflicts_def\<close>)
  then have "steady env (flush env (push_item \<lparr>bf_change = c, bf_row = [], bf_origins = os, bf_keySig = None\<rparr>
      (st1\<lparr>cs_world := w\<rparr>)))" for os
    using flush_steady by blast
  moreover have "steady env (pass_over env (ch_cursor c) (st1\<lparr>cs_world := w\<rparr>))"
    using s by (simp add: steady_pass_over)
  ultimately show ?thesis using s
    by (simp add: accept_truncate_def st1_def [symmetric] e Let_def split: echo_verdict.split)
qed

lemma accept_steady:
  assumes "steady env st"
  shows "steady env (accept env c st)"
proof (cases "ch_op c = Op_truncate")
  case True
  then show ?thesis using assms accept_truncate_steady [OF assms True] by (simp add: accept_def)
next
  case False
  obtain r st1 where c1: "(if has_unchanged (ch_row c) then completeRow env c st else (Some (ch_row c), st)) = (r, st1)"
    by force
  have "aside st st1" using c1 aside_completeRow [of st env c] by (auto simp: aside_def split: if_splits)
  then have s1: "steady env st1" using steady_aside assms by blast
  have "steady env (case check_schema env c r' st1 of (go, st2) \<Rightarrow> if go then filter_and_echo env c r' st2 else st2)" for r'
  proof -
    obtain go st2 where g: "check_schema env c r' st1 = (go, st2)" by force
    have s2: "steady env st2" by (rule check_schema_steady [OF s1 g])
    show ?thesis using s2 filter_and_echo_steady [OF s2 False] by (simp add: g)
  qed
  then have "steady env (accept_row env c st)" using s1 c1 by (simp add: accept_row_def Let_def split: option.split)
  then show ?thesis using assms False by (simp add: accept_def)
qed

lemma handleNotice_steady:
  assumes "steady env st"
  shows "steady env (handleNotice env e st)"
proof -
  define st1 where "st1 = finish_inflight env (flush env st)"
  have p: "pending_ok env st" using assms by (simp add: steady_def)
  have f: "steady env (flush env st)" "emptied (flush env st)" "cs_live (flush env st) = cs_live st"
    using flush_steady [OF p] by simp_all
  have s: "steady env st1" using finish_steady(1) [OF f(1)] by (simp add: st1_def)
  have empty: "emptied st1"
    using f(2) finish_frame(9) [where env = env and st = "flush env st"]
    by (auto simp: emptied_def st1_def finish_frame)
  define st2 where "st2 = st1\<lparr>cs_passed := cs_passed st1 @ [e]\<rparr>"
  define st3 where "st3 = settle SETTLE_ATTEMPTS (record_notice env e) st2"
  have q: "queue_of st3 = queue_of st2"
    unfolding st3_def
  proof (rule queue_settle)
    show "queue_of (snd (record_notice env e s)) = queue_of s" for s
      by (simp add: record_notice_def Let_def split: prod.split)
  qed
  note qf = queue_fields [OF q]
  have "steady env st3" if "cs_live st1" "\<not> cs_halted st1"
    using that empty s unfolding steady_def pending_ok_def qf by (auto simp: emptied_def st2_def)
  then show ?thesis using assms s
    by (auto simp: handleNotice_def st1_def [symmetric] st2_def [symmetric] st3_def [symmetric] Let_def)
qed

lemma pipeline_steady:
  assumes "pipeline env F (stream_at w0 seq w) i st"
  shows "steady env st"
  using assms
proof (induction rule: pipeline.induct)
  case start
  then show ?case by (simp add: stream_at_def steady_def pending_ok_def)
next
  case (take_next i st)
  then show ?case
    by (cases "F ! i") (simp_all add: accept_steady steady_pass_over handleNotice_steady)
next
  case (delivery_ends i st)
  then show ?case using finish_steady by blast
next
  case (timer i st)
  then have p: "pending_ok env (st\<lparr>cs_timerFor := None\<rparr>)" by (simp add: steady_def pending_ok_def)
  then show ?case using flush_steady [OF p] steady_halted [OF p] by (simp add: timer_fires_def Let_def)
next
  case (source_fails i st)
  then show ?case using steady_stop [of env st] by (simp add: handleFatal_def)
next
  case (teardown i st)
  then show ?case by (auto simp: steady_def pending_ok_def)
qed

text \<open>
  C4: Whatever is delivered as one batch can be: one operation throughout, no row of it twice
  (a multi-row upsert may not touch a row twice), a truncate alone, and no more rows than the
  bridge's batch size.
\<close>
theorem batches_are_deliverable:
  assumes "pipeline env F (stream_at w0 seq w) i st" and "cs_inflight st = Some b"
  shows "(\<forall>x\<in>set (ba_items b). ba_op b = Some (ch_op (bf_change x))) \<and>
    distinct (List.map_filter bf_keySig (ba_items b)) \<and>
    length (ba_items b) \<le> max 1 (env_maxBatch env) \<and>
    (ba_op b = Some Op_truncate \<longrightarrow> length (ba_items b) \<le> 1)"
  using pipeline_steady [OF assms(1)] assms(2) by (auto simp: steady_def pending_ok_def batch_ok_def sigs_def)

text \<open>
  C5: Nothing waits for ever. Whenever a row or a passed position is pending in a stream that
  has not stopped, a timer is running - for a row the short one, never the longer wait of a bare
  position - and when it fires, everything pending is handed to delivery, unless the delivery
  before it stopped the bridge.
\<close>
theorem pending_rows_leave:
  assumes "pipeline env F (stream_at w0 seq w) i st"
    and "cs_live st" and "\<not> cs_halted st" and "cs_tailCursor st \<noteq> None"
  shows "cs_timerFor st \<noteq> None \<and> (cs_buffer st \<noteq> [] \<longrightarrow> cs_timerFor st = Some For_rows) \<and>
    (let st' = timer_fires env st in
     cs_halted st' \<or>
     cs_inflight st' = Some \<lparr>ba_items = cs_buffer st, ba_op = cs_bufferOp st, ba_reach = the (cs_tailCursor st)\<rparr> \<and>
       cs_buffer st' = [] \<and> cs_tailCursor st' = None)"
proof -
  have s: "steady env st" by (rule pipeline_steady [OF assms(1)])
  define st1 where "st1 = finish_inflight env (st\<lparr>cs_timerFor := None\<rparr>)"
  note f = finish_frame [where env = env and st = "st\<lparr>cs_timerFor := None\<rparr>", folded st1_def]
  have "timer_fires env st = (if cs_halted st1 then st1 else
      st1\<lparr>cs_tailCursor := None, cs_buffer := [], cs_bufferKeys := [], cs_bufferOp := None, cs_byteCapped := None,
        cs_inflight := Some \<lparr>ba_items = cs_buffer st, ba_op = cs_bufferOp st, ba_reach = the (cs_tailCursor st)\<rparr>\<rparr>)"
    using assms(2-4) f by (auto simp: timer_fires_def flush_def st1_def [symmetric] Let_def)
  then show ?thesis using s assms(2-4) by (auto simp: steady_def Let_def)
qed


section \<open>A stop\<close>



section \<open>A bridge, an environment and a run\<close>

definition orders_bridge :: bridge_input where
  "orders_bridge = \<lparr>bi_name = ''orders'', bi_workspaceId = None,
     bi_source = Table_source \<lparr>ts_connectionId = ''c0'', ts_database = None, ts_schema = None, ts_table = ''t'',
       ts_filters = Some [\<lparr>f_column = ''kind'', f_operator = Neq, f_value = JStr ''draft''\<rparr>], ts_sort = None\<rparr>,
     bi_destination = Http \<lparr>hd_url = ''http://h'', hd_method = POST, hd_headers = None, hd_auth = Auth_none, hd_idempotency = True\<rparr>,
     bi_transform = \<lparr>tpl_template = ''{{$row}}'', tpl_fields = None, tpl_rename = None, tpl_wrapKey = None, bt_columns = None\<rparr>,
     bi_delivery = default_delivery\<lparr>bd_onError := On_error_continue\<rparr>, bi_trigger = Replay None, bi_enabled = True\<rparr>"

text \<open>
  Positions are texts, the longer the later; a destination that answers \<open>works\<close>, and a store whose record writes are the list of answers
  that is the world.
\<close>

definition longer :: "string \<Rightarrow> string option \<Rightarrow> bool" where
  "longer a b = (case b of None \<Rightarrow> True | Some b' \<Rightarrow> length b' < length a)"

definition orders_env :: "bool \<Rightarrow> bool list cdc_env" where
  "orders_env works =
     \<lparr>env_bridge = orders_bridge, env_primaryKey = Some [''id''], env_tracksSchema = True, env_sourceFilters = False,
      env_host = no_host, env_after = longer, env_maxBatch = 2, env_batchBytes = 60, env_maxFailures = 2,
      env_deadLetterMax = 10,
      env_deliver = (\<lambda>w rs op seq skip.
        (\<lparr>oc_success = works, oc_attempts = 1, oc_error = None, oc_succeededTargets = None\<rparr>, w)),
      env_record = (\<lambda>w seq rs. case w of [] \<Rightarrow> (True, []) | ok # w' \<Rightarrow> (ok, w')),
      env_notice = (\<lambda>w seq. (True, w)), env_park = (\<lambda>w ls n. (True, w)), env_pendingRows = (\<lambda>w. (Some 0, w)),
      env_save = (\<lambda>w n c. (True, w)), env_browse = (\<lambda>w r. (Some None, w)), env_wholeValue = (\<lambda>w. (False, w)),
      env_drift = (\<lambda>w. (None, w)), env_echo = (\<lambda>w op r. (Not_echo, w))\<rparr>"

definition order_row :: "string \<Rightarrow> string \<Rightarrow> row" where
  "order_row n k = [(''id'', JStr n), (''kind'', JStr k)]"

definition orders_feed :: "feed list" where
  "orders_feed =
     [Feed_change \<lparr>ch_op = Op_insert, ch_row = order_row ''1'' ''paid'', ch_cursor = ''p'', ch_keyChanged = False\<rparr>,
      Feed_change \<lparr>ch_op = Op_insert, ch_row = order_row ''2'' ''draft'', ch_cursor = ''pp'', ch_keyChanged = False\<rparr>,
      Feed_skip ''ppp'']"

lemma orders_feed_ok: "feed_ok (orders_env works) orders_feed"
  by (simp add: feed_ok_def orders_feed_def orders_env_def longer_def)

lemma orders_env_table: "reads_table (orders_env works)"
  by (simp add: reads_table_def orders_env_def orders_bridge_def)

text \<open>A row taken, a filtered one passed, the transaction's end passed; then the timer.\<close>

definition orders_taken :: "bool \<Rightarrow> bool list \<Rightarrow> bool list cdc_stream" where
  "orders_taken works w =
     take_feed (orders_env works) (orders_feed ! 2) (take_feed (orders_env works) (orders_feed ! 1)
       (take_feed (orders_env works) (orders_feed ! 0) (stream_at None 0 w)))"

lemma orders_taken_reachable:
  "pipeline (orders_env works) orders_feed (stream_at None 0 w) 3 (orders_taken works w)"
proof -
  have n: "length orders_feed = 3" by (simp add: orders_feed_def)
  note start = pipeline.start [of "orders_env works" orders_feed "stream_at None 0 w"]
  from pipeline.take_next [OF pipeline.take_next [OF pipeline.take_next [OF start]]] n
  show ?thesis by (simp add: orders_taken_def numeral_eq_Suc)
qed

definition orders_landed :: "bool list cdc_stream" where
  "orders_landed = finish_inflight (orders_env True) (timer_fires (orders_env True) (orders_taken True []))"

lemma orders_landed_state:
  "cs_watermark orders_landed = Some ''ppp'' \<and>
   cs_events orders_landed = [Ev_delivered [order_row ''1'' ''paid''], Ev_recorded 0 1 True, Ev_checkpoint 1 ''ppp''] \<and>
   cs_passed orders_landed = [''pp'', ''ppp'']"
  by code_simp

theorem saved_position_covers_only_landed_rows_witness:
  "\<exists>b\<in>set (cs_done orders_landed). ch_cursor (bf_change b) = ''p''"
proof -
  have reach: "pipeline (orders_env True) orders_feed (stream_at None 0 []) 3 orders_landed"
    unfolding orders_landed_def by (intro pipeline.delivery_ends pipeline.timer orders_taken_reachable)
  have f: "orders_feed ! 0 \<in> set orders_feed" by (simp add: orders_feed_def)
  have c: "feed_cursor (orders_feed ! 0) = ''p''" by (simp add: orders_feed_def)
  have na: "\<not> env_after (orders_env True) (feed_cursor (orders_feed ! 0)) (cs_watermark orders_landed)"
    unfolding c conjunct1 [OF orders_landed_state] by (simp add: orders_env_def longer_def)
  have start: "env_after (orders_env True) ''p'' None" by (simp add: orders_env_def longer_def)
  from saved_position_covers_only_landed_rows [OF orders_feed_ok orders_env_table reach f na]
  show ?thesis using start orders_landed_state c by simp
qed

theorem batches_are_deliverable_witness:
  "length (ba_items (the (cs_inflight (timer_fires (orders_env True) (orders_taken True []))))) \<le> 2"
proof -
  have reach: "pipeline (orders_env True) orders_feed (stream_at None 0 []) 3 (timer_fires (orders_env True) (orders_taken True []))"
    by (intro pipeline.timer orders_taken_reachable)
  have some: "cs_inflight (timer_fires (orders_env True) (orders_taken True [])) \<noteq> None" by code_simp
  then obtain b where b: "cs_inflight (timer_fires (orders_env True) (orders_taken True [])) = Some b" by blast
  have m: "env_maxBatch (orders_env True) = 2" by (simp add: orders_env_def)
  from batches_are_deliverable [OF reach b] show ?thesis by (simp add: b m)
qed

theorem pending_rows_leave_witness:
  "cs_timerFor (orders_taken True []) = Some For_rows"
proof -
  have "let s = orders_taken True [] in
      cs_live s \<and> \<not> cs_halted s \<and> cs_tailCursor s \<noteq> None \<and> cs_buffer s \<noteq> []" by code_simp
  then show ?thesis using pending_rows_leave [OF orders_taken_reachable] by (simp add: Let_def)
qed

definition orders_stopped :: "bool list cdc_stream" where
  "orders_stopped = handleFatal (orders_env True) (orders_taken True [])"



section \<open>First in, first out\<close>

text \<open>
  The pipeline as a queue: finished batches, the batch in flight and the buffer, in that order,
  are what was taken in, in the order it was taken in.
\<close>

definition fifo :: "'w cdc_stream \<Rightarrow> buffered list" where
  "fifo st = cs_done st @ inflight_items st @ cs_buffer st"

lemma fifo_updates [simp]:
  "fifo (st\<lparr>cs_world := x1\<rparr>) = fifo st" "fifo (st\<lparr>cs_timerFor := x2\<rparr>) = fifo st"
  "fifo (st\<lparr>cs_byteCapped := x3\<rparr>) = fifo st" "fifo (st\<lparr>cs_signature := x4\<rparr>) = fifo st"
  "fifo (st\<lparr>cs_passed := x5\<rparr>) = fifo st" "fifo (st\<lparr>cs_tailCursor := x6\<rparr>) = fifo st"
  "fifo (st\<lparr>cs_live := x7\<rparr>) = fifo st"
  by (simp_all add: fifo_def inflight_items_def)

lemma fifo_queue: "queue_of st' = queue_of st \<Longrightarrow> fifo st' = fifo st"
proof -
  assume q: "queue_of st' = queue_of st"
  show ?thesis by (simp add: fifo_def inflight_items_def queue_fields [OF q])
qed

lemma fifo_finish: "\<not> cs_halted (finish_inflight env st) \<Longrightarrow> fifo (finish_inflight env st) = fifo st"
proof (cases "cs_inflight st")
  case (Some b)
  assume go: "\<not> cs_halted (finish_inflight env st)"
  have q: "queue_of (deliverBatch env b (st\<lparr>cs_inflight := None\<rparr>)) = queue_of (st\<lparr>cs_inflight := None\<rparr>)" by simp
  show ?thesis using go Some queue_fields [OF q]
    by (auto simp: finish_inflight_def fifo_def inflight_items_def Let_def split: if_splits)
qed (simp add: finish_inflight_def)

lemma fifo_flush: "\<not> cs_halted (flush env st) \<Longrightarrow> fifo (flush env st) = fifo st"
proof -
  assume go: "\<not> cs_halted (flush env st)"
  define st1 where "st1 = finish_inflight env (st\<lparr>cs_timerFor := None\<rparr>)"
  have i: "cs_inflight st1 = None" by (simp add: st1_def finish_frame)
  have f: "\<not> cs_halted st1 \<Longrightarrow> fifo st1 = fifo st" using fifo_finish [of env "st\<lparr>cs_timerFor := None\<rparr>"] by (simp add: st1_def)
  show ?thesis
    using go f i by (auto simp: flush_def st1_def [symmetric] Let_def fifo_def inflight_items_def split: if_splits option.splits)
qed

lemma fifo_flush_or: "cs_halted (flush env st) \<or> fifo (flush env st) = fifo st"
  using fifo_flush [of env st] by blast

text \<open>Taking a change appends it or nothing, and keeps what was there; \<open>c\<close> is the change taken.\<close>

definition appends :: "cdc_change \<Rightarrow> 'w cdc_stream \<Rightarrow> 'w cdc_stream \<Rightarrow> bool" where
  "appends c st st' =
     (cs_halted st' \<or> fifo st' = fifo st \<or> (\<exists>b. bf_change b = c \<and> fifo st' = fifo st @ [b]))"

lemma fifo_push: "fifo (push_item b st) = fifo st @ [b]"
  by (simp add: fifo_def inflight_items_def push_item_def)

lemma fifo_schedule [simp]: "fifo (scheduleFlush st) = fifo st"
  by (simp add: scheduleFlush_def Let_def)

lemma fifo_note [simp]: "fifo (notePosition env e st) = fifo st"
  by (simp add: notePosition_def)

lemma fifo_pass [simp]: "fifo (pass_over env e st) = fifo st"
  by (simp add: pass_over_def)

lemma halted_flush: "cs_halted st \<Longrightarrow> cs_halted (flush env st)"
  by (simp add: flush_def Let_def)

lemma halted_push [simp]: "cs_halted (push_item b st) = cs_halted st"
  by (simp add: push_item_def)

lemma appends_push_flush:
  assumes "bf_change b = c" "cs_halted st1 \<or> fifo st1 = fifo st"
  shows "appends c st (flush env (push_item b st1))"
  using assms halted_flush [of "push_item b st1" env] fifo_flush [of env "push_item b st1"] fifo_push [of b st1]
  by (auto simp: appends_def)

lemma halted_schedule [simp]: "cs_halted (scheduleFlush st) = cs_halted st"
  by (simp add: scheduleFlush_def Let_def)

lemma appends_join:
  assumes "bf_change b = c" "cs_halted st1 \<or> fifo st1 = fifo st"
  shows "appends c st (join_batch env b st1)"
proof -
  let ?st2 = "measure_batch env (bf_row b) st1"
  have m: "cs_halted ?st2 \<or> fifo ?st2 = fifo st" using assms(2) by (simp add: measure_batch_def)
  have "appends c st (scheduleFlush (push_item b ?st2))"
    using m assms(1) fifo_push [of b ?st2] by (auto simp: appends_def)
  then show ?thesis using appends_push_flush [OF assms(1) m] by (simp add: join_batch_def Let_def)
qed

lemma appends_enqueue:
  assumes "cs_halted st1 \<or> fifo st1 = fifo st"
  shows "appends c st (enqueue env c r os st1)"
proof -
  define sig where "sig = keySignature (env_primaryKey env) r"
  define st2 where "st2 = (if conflicts (ch_op c) sig st1 then flush env st1 else st1)"
  have s: "cs_halted st2 \<or> fifo st2 = fifo st"
    using assms fifo_flush_or [of env st1] halted_flush [of st1 env] by (auto simp: st2_def)
  then have "appends c st st2" by (auto simp: appends_def)
  then have fl: "conflicts (ch_op c) sig st1 \<Longrightarrow> appends c st (flush env st1)" by (simp add: st2_def)
  show ?thesis
    using fl appends_join [OF _ s, of "\<lparr>bf_change = c, bf_row = r, bf_origins = os, bf_keySig = sig\<rparr>"]
    by (simp add: enqueue_def sig_def [symmetric] st2_def [symmetric] Let_def)
qed

lemma appends_same: "cs_halted st1 \<or> fifo st1 = fifo st \<Longrightarrow> appends c st st1"
  by (auto simp: appends_def)

lemma halted_note [simp]: "cs_halted (notePosition env e st) = cs_halted st"
  by (simp add: notePosition_def)

lemma halted_pass [simp]: "cs_halted (pass_over env e st) = cs_halted st"
  by (simp add: pass_over_def)

lemma appends_filter_and_echo:
  assumes "cs_halted st1 \<or> fifo st1 = fifo st"
  shows "appends c st (filter_and_echo env c r st1)"
proof -
  obtain v w where e: "env_echo env (cs_world st1) (ch_op c) r = (v, w)" by force
  have s: "cs_halted (st1\<lparr>cs_world := w\<rparr>) \<or> fifo (st1\<lparr>cs_world := w\<rparr>) = fifo st" using assms by simp
  show ?thesis
    using appends_enqueue [OF s] appends_same [OF s] appends_same [of "pass_over env (ch_cursor c) (st1\<lparr>cs_world := w\<rparr>)" st c]
      appends_same [of "pass_over env (ch_cursor c) st1" st c] assms s
    by (simp add: filter_and_echo_def e Let_def split: echo_verdict.split)
qed

lemma appends_accept: "appends c st (accept env c st)"
proof (cases "ch_op c = Op_truncate")
  case True
  define st1 where "st1 = flush env st"
  have s1: "cs_halted st1 \<or> fifo st1 = fifo st" using fifo_flush_or [of env st] by (simp add: st1_def)
  obtain v w where e: "env_echo env (cs_world st1) Op_truncate [] = (v, w)" by force
  have s: "cs_halted (st1\<lparr>cs_world := w\<rparr>) \<or> fifo (st1\<lparr>cs_world := w\<rparr>) = fifo st" using s1 by simp
  have "appends c st (accept_truncate env c st)"
    using appends_push_flush [OF _ s, of "\<lparr>bf_change = c, bf_row = [], bf_origins = os, bf_keySig = None\<rparr>" for os]
      appends_same [of "pass_over env (ch_cursor c) (st1\<lparr>cs_world := w\<rparr>)" st c] appends_same [OF s1] s
    by (simp add: accept_truncate_def st1_def [symmetric] e Let_def split: echo_verdict.split)
  then show ?thesis using True by (simp add: accept_def appends_def)
next
  case False
  obtain r st1 where c1: "(if has_unchanged (ch_row c) then completeRow env c st else (Some (ch_row c), st)) = (r, st1)"
    by force
  have "aside st st1" using c1 aside_completeRow [of st env c] by (auto simp: aside_def split: if_splits)
  then have f1: "fifo st1 = fifo st" unfolding aside_def by (intro fifo_queue) simp
  have row: "appends c st (case check_schema env c r' st1 of (go, st2) \<Rightarrow> if go then filter_and_echo env c r' st2 else st2)" for r'
  proof -
    obtain go st2 where g: "check_schema env c r' st1 = (go, st2)" by force
    have h: "cs_halted (halt False s)" for s :: "'a cdc_stream" by (simp add: halt_def happened_def)
    have m: "cs_halted st2 \<or> fifo st2 = fifo st"
      using g f1 h by (auto simp: check_schema_def Let_def split: if_splits option.splits prod.splits)
    show ?thesis using appends_filter_and_echo [OF m] appends_same [OF m] by (simp add: g)
  qed
  have none: "appends c st st1" by (rule appends_same) (simp add: f1)
  have "appends c st (accept_row env c st)"
    unfolding accept_row_def c1 Let_def prod.case using none row by (auto split: option.split)
  then show ?thesis using False appends_same [of st st c] by (simp add: accept_def)
qed

text \<open>
  C8: The pipeline refines a first-in-first-out queue. While the bridge has not stopped, a change
  taken is appended at the end or dropped (seen before, filtered, an echo); passing a position,
  flushing, a timer, and a delivery that ends move rows along without adding, dropping or
  reordering any. So batches reach the destination in the order their rows were read.
\<close>
theorem pipeline_is_a_queue:
  "(cs_halted (accept env c st) \<or> fifo (accept env c st) = fifo st \<or>
      (\<exists>b. bf_change b = c \<and> fifo (accept env c st) = fifo st @ [b])) \<and>
   fifo (pass_over env e st) = fifo st \<and>
   (cs_halted (flush env st) \<or> fifo (flush env st) = fifo st) \<and>
   (cs_halted (timer_fires env st) \<or> fifo (timer_fires env st) = fifo st) \<and>
   (cs_halted (finish_inflight env st) \<or> fifo (finish_inflight env st) = fifo st)"
  using appends_accept [of c st env] fifo_flush [of env st] fifo_finish [of env st]
    fifo_flush [of env "st\<lparr>cs_timerFor := None\<rparr>"]
  by (auto simp: appends_def timer_fires_def Let_def)

section \<open>A batch counted more than once\<close>

text \<open>
  A bridge that stops after so many batches in a row delivered nothing may stop on one batch:
  when the batch has been parked and the store then refuses one write, the retried bookkeeping
  counts the same batch again. With a limit of two, one failed batch and one refused write stop
  the bridge without the position moving; without the refused write it carries on.
\<close>
theorem one_batch_counts_twice:
  "let st = finish_inflight (orders_env False) (timer_fires (orders_env False) (orders_taken False [False]));
       st' = finish_inflight (orders_env False) (timer_fires (orders_env False) (orders_taken False [True]))
   in cs_halted st \<and> cs_failures st = 2 \<and> cs_watermark st = None \<and>
      \<not> cs_halted st' \<and> cs_failures st' = 1 \<and> cs_watermark st' = Some ''ppp''"
  by code_simp

end
