(* ===== verification/Cdc_Spool.thy ===== *)
theory Cdc_Spool
  imports Cdc_Pipeline Row_Codec
begin

text \<open>
  The spool between capture and delivery, \<^verbatim>\<open>apps/api/src/bridges/cdc/cdc-spool.service.ts\<close>
  and the spooled path of \<^verbatim>\<open>bridge-cdc.service.ts\<close>: changes are appended to a Redis
  stream before their position is saved, and a consumer delivers them from there and trims what has
  landed. Redis is not under \<^verbatim>\<open>src/\<close>: its commands are functions of \<open>spool_env\<close> on the
  world \<open>'w\<close>, and a command that throws answers \<open>None\<close> or \<open>False\<close>. An entry's JSON is the tree
  it stands for, as in the row codec.
\<close>

section \<open>Entries\<close>

datatype spool_op = Spool_change cdc_operation | Spool_notice

record spool_entry =
  se_op :: spool_op
  se_row :: row
  se_origins :: "string list"
  se_cursor :: string

text \<open>The parsed text of an entry: \<open>r\<close>, \<open>o\<close>, and the \<open>row\<close> of entries from before the codec.\<close>

record raw_entry =
  re_op :: spool_op
  re_cursor :: string
  re_r :: "json option"
  re_o :: "string list option"
  re_row :: "row option"

definition encodeEntry :: "spool_entry \<Rightarrow> raw_entry" where
  "encodeEntry e =
     \<lparr>re_op = se_op e, re_cursor = se_cursor e, re_r = Some (encodeRows [se_row e]),
      re_o = (if se_origins e \<noteq> [] then Some (se_origins e) else None), re_row = None\<rparr>"

text \<open>\<open>None\<close>: it throws, the entry holds no row that can be read.\<close>

definition decodeEntry :: "host \<Rightarrow> raw_entry \<Rightarrow> spool_entry option" where
  "decodeEntry h raw =
     (case re_r raw of
        Some j \<Rightarrow>
          (case decodeRows h j of
             Some (row # _) \<Rightarrow>
               Some \<lparr>se_op = re_op raw, se_row = row,
                     se_origins = (case re_o raw of Some os \<Rightarrow> os | None \<Rightarrow> []), se_cursor = re_cursor raw\<rparr>
           | _ \<Rightarrow> None)
      | None \<Rightarrow>
          (case re_row raw of
             Some row \<Rightarrow> Some \<lparr>se_op = re_op raw, se_row = row, se_origins = [], se_cursor = re_cursor raw\<rparr>
           | None \<Rightarrow> None))"

record spooled_item =
  si_id :: string
  si_entry :: spool_entry

text \<open>What stands before and behind the last dash.\<close>

definition last_dash :: "string \<Rightarrow> (string \<times> string) option" where
  "last_dash s =
     (let after = rev (takeWhile (\<lambda>c. c \<noteq> CHR ''-'') (rev s)); rest = dropWhile (\<lambda>c. c \<noteq> CHR ''-'') (rev s)
      in case rest of [] \<Rightarrow> None | _ # before \<Rightarrow> Some (rev before, after))"

definition nextStreamId :: "string \<Rightarrow> string" where
  "nextStreamId ident =
     (case last_dash ident of
        None \<Rightarrow> ident
      | Some (ms, seq) \<Rightarrow>
          (case js_number_of_string seq of
             Num q \<Rightarrow> ms @ ''-'' @ js_string_of_num (round64 (q + 1))
           | _ \<Rightarrow> ident))"

section \<open>The world of the spool\<close>

text \<open>An entry of the stream as it is read: without a payload, with one that is not JSON, or with one.\<close>

datatype stored = No_payload | Not_json | Payload raw_entry

record 'w spool_env =
  sv_cdc :: "'w cdc_env"
  sv_max :: nat
  sv_xlen :: "'w \<Rightarrow> nat option \<times> 'w"
  sv_xadd :: "'w \<Rightarrow> raw_entry list \<Rightarrow> (bool \<times> string) list option \<times> 'w"
  sv_xrange :: "'w \<Rightarrow> nat \<Rightarrow> (string \<times> stored) list option \<times> 'w"
  sv_xdel :: "'w \<Rightarrow> string \<Rightarrow> 'w"
  sv_xtrim :: "'w \<Rightarrow> string \<Rightarrow> bool \<times> 'w"
  sv_savePosition :: "'w \<Rightarrow> string \<Rightarrow> bool \<times> 'w"
  sv_ack :: "'w \<Rightarrow> string \<Rightarrow> bool \<times> 'w"
  sv_saveOffset :: "'w \<Rightarrow> nat \<Rightarrow> bool \<times> 'w"
  sv_sleep :: "'w \<Rightarrow> bool \<times> 'w"
  sv_consumerStop :: "'w \<Rightarrow> bool"

text \<open>
  A spooled stream: the stream, the entries the spool has taken, the positions saved, and the runs
  trimmed (a run trimmed again is the same run). No operation reads the last three.
\<close>

record 'w spool_run =
  sr_stream :: "'w cdc_stream"
  sr_appended :: "spool_entry list"
  sr_saved :: "string list"
  sr_trimmed :: "spooled_item list list"

definition sr_world :: "'w spool_run \<Rightarrow> 'w" where
  "sr_world sr = cs_world (sr_stream sr)"

definition with_world :: "'w \<Rightarrow> 'w spool_run \<Rightarrow> 'w spool_run" where
  "with_world w sr = sr\<lparr>sr_stream := (sr_stream sr)\<lparr>cs_world := w\<rparr>\<rparr>"

definition on_stream :: "('w cdc_stream \<Rightarrow> 'a \<times> 'w cdc_stream) \<Rightarrow> 'w spool_run \<Rightarrow> 'a \<times> 'w spool_run" where
  "on_stream f sr = (let (x, st) = f (sr_stream sr) in (x, sr\<lparr>sr_stream := st\<rparr>))"

section \<open>Appending\<close>

text \<open>
  \<^verbatim>\<open>append\<close>: every write has to have landed; \<open>False\<close>: it threw. With it, the entries whose
  own command was answered without an error.
\<close>

definition append_spool :: "'w spool_env \<Rightarrow> spool_entry list \<Rightarrow> 'w \<Rightarrow> bool \<times> spool_entry list \<times> 'w" where
  "append_spool sv entries w =
     (if entries = [] then (True, [], w)
      else
        (let (results, w1) = sv_xadd sv w (map encodeEntry entries)
         in case results of
              None \<Rightarrow> (False, [], w1)
            | Some rs \<Rightarrow> (list_all fst rs, map snd (filter (\<lambda>(r, e). fst r) (zip rs entries)), w1)))"

text \<open>The wait for room; \<open>None\<close>: it never comes.\<close>

partial_function (option) wait_for_room :: "'w spool_env \<Rightarrow> 'w spool_run \<Rightarrow> 'w spool_run option" where
  [code]: "wait_for_room sv sr =
     (if \<not> cs_live (sr_stream sr) then Some sr
      else
        (let (depth, w) = sv_xlen sv (sr_world sr); sr1 = with_world w sr
         in case depth of
              None \<Rightarrow> Some sr1
            | Some d \<Rightarrow>
                if d < sv_max sv then Some sr1
                else
                  (let (live, w') = sv_sleep sv w; sr2 = with_world w' sr1
                   in wait_for_room sv (if live then sr2 else sr2\<lparr>sr_stream := (sr_stream sr2)\<lparr>cs_live := False\<rparr>\<rparr>))))"

text \<open>Three tries, then the stream stops with the position where it was.\<close>

fun try_append :: "nat \<Rightarrow> 'w spool_env \<Rightarrow> spool_entry list \<Rightarrow> 'w spool_run \<Rightarrow> bool \<times> 'w spool_run" where
  "try_append 0 sv entries sr = (False, sr\<lparr>sr_stream := halt False (sr_stream sr)\<rparr>)"
| "try_append (Suc n) sv entries sr =
     (let (ok, took, w) = append_spool sv entries (sr_world sr); sr0 = with_world w sr;
          sr1 = sr0\<lparr>sr_appended := sr_appended sr0 @ took\<rparr>
      in if ok then (True, sr1) else try_append n sv entries sr1)"

definition save_spooled :: "'w spool_env \<Rightarrow> string \<Rightarrow> 'w spool_run \<Rightarrow> 'w spool_run" where
  "save_spooled sv cursor sr =
     (let sr0 = sr\<lparr>sr_stream := (sr_stream sr)\<lparr>cs_watermark := Some cursor\<rparr>\<rparr>;
          (ok, w) = sv_savePosition sv (sr_world sr0) cursor; sr1 = with_world w sr0
      in if ok then
           (let (acked, w') = sv_ack sv w cursor in (with_world w' sr1)\<lparr>sr_saved := sr_saved sr1 @ [cursor]\<rparr>)
         else sr1)"

definition spoolBatch :: "'w spool_env \<Rightarrow> spool_entry list \<Rightarrow> string \<Rightarrow> 'w spool_run \<Rightarrow> 'w spool_run option" where
  "spoolBatch sv entries lastCursor sr =
     (case wait_for_room sv sr of
        None \<Rightarrow> None
      | Some sr1 \<Rightarrow>
          Some (if \<not> cs_live (sr_stream sr1) \<or> cs_halted (sr_stream sr1) then sr1
                else
                  (case (if entries = [] then (True, sr1) else try_append 3 sv entries sr1) of
                     (appended, sr2) \<Rightarrow> if appended then save_spooled sv lastCursor sr2 else sr2)))"

text \<open>The spooled branch of \<^verbatim>\<open>deliverBatch\<close>.\<close>

definition spool_items :: "buffered list \<Rightarrow> spool_entry list" where
  "spool_items items =
     map (\<lambda>b. \<lparr>se_op = Spool_change (ch_op (bf_change b)), se_row = bf_row b, se_origins = bf_origins b,
               se_cursor = ch_cursor (bf_change b)\<rparr>) items"

definition deliverBatch_spooled :: "'w spool_env \<Rightarrow> cdc_batch \<Rightarrow> 'w spool_run \<Rightarrow> 'w spool_run option" where
  "deliverBatch_spooled sv b sr =
     (if cs_halted (sr_stream sr) \<or>
         (case bi_source (env_bridge (sv_cdc sv)) of Query_source q \<Rightarrow> True | Table_source s \<Rightarrow> False) then Some sr
      else spoolBatch sv (spool_items (ba_items b)) (ba_reach b) sr)"

section \<open>Reading\<close>

fun read_items :: "'w spool_env \<Rightarrow> (string \<times> stored) list \<Rightarrow> 'w \<Rightarrow> spooled_item list \<times> 'w" where
  "read_items sv [] w = ([], w)"
| "read_items sv ((ident, payload) # raw) w =
     (case payload of
        No_payload \<Rightarrow> read_items sv raw w
      | Not_json \<Rightarrow> read_items sv raw (sv_xdel sv w ident)
      | Payload p \<Rightarrow>
          (case decodeEntry (env_host (sv_cdc sv)) p of
             None \<Rightarrow> read_items sv raw (sv_xdel sv w ident)
           | Some e \<Rightarrow> (let (items, w') = read_items sv raw w in (\<lparr>si_id = ident, si_entry = e\<rparr> # items, w'))))"

definition read_spool :: "'w spool_env \<Rightarrow> nat \<Rightarrow> 'w \<Rightarrow> spooled_item list option \<times> 'w" where
  "read_spool sv n w =
     (case sv_xrange sv w n of
        (None, w1) \<Rightarrow> (None, w1)
      | (Some raw, w1) \<Rightarrow> (let (items, w2) = read_items sv raw w1 in (Some items, w2)))"

text \<open>\<^verbatim>\<open>deliverableRuns\<close>, with the run being gathered, its keys, and the runs before it.\<close>

definition alone :: "spool_op \<Rightarrow> bool" where
  "alone op = (op = Spool_change Op_truncate \<or> op = Spool_notice)"

definition breaks_run :: "spooled_item list \<Rightarrow> string list \<Rightarrow> spool_op \<Rightarrow> string option \<Rightarrow> bool" where
  "breaks_run current keys op sig =
     (current \<noteq> [] \<and>
      (se_op (si_entry (last current)) \<noteq> op \<or> alone op \<or> (case sig of None \<Rightarrow> False | Some k \<Rightarrow> k \<in> set keys)))"

fun runs_from ::
  "string list option \<Rightarrow> spooled_item list \<Rightarrow> string list \<Rightarrow> spooled_item list \<Rightarrow> spooled_item list list" where
  "runs_from pk current keys [] = (if current = [] then [] else [current])"
| "runs_from pk current keys (item # items) =
     (let sig = keySignature pk (se_row (si_entry item));
          breaks = breaks_run current keys (se_op (si_entry item)) sig;
          keys' = (if breaks then [] else keys) @ (case sig of None \<Rightarrow> [] | Some k \<Rightarrow> [k])
      in if breaks then current # runs_from pk [item] keys' items
         else runs_from pk (current @ [item]) keys' items)"

definition deliverableRuns :: "spooled_item list \<Rightarrow> string list option \<Rightarrow> spooled_item list list" where
  "deliverableRuns items pk = runs_from pk [] [] items"

section \<open>Delivering a run\<close>

fun settle_run ::
  "nat \<Rightarrow> ('w spool_run \<Rightarrow> bool \<times> 'w spool_run) \<Rightarrow> 'w spool_run \<Rightarrow> 'w spool_run" where
  "settle_run 0 work sr = sr\<lparr>sr_stream := halt False (sr_stream sr)\<rparr>"
| "settle_run (Suc n) work sr =
     (if cs_halted (sr_stream sr) then sr
      else case work sr of (ok, sr') \<Rightarrow> if ok then sr' else settle_run n work sr')"

text \<open>\<^verbatim>\<open>advance\<close>: the spool may forget the run, and the stream goes on behind it.\<close>

definition trim_run :: "'w spool_env \<Rightarrow> spooled_item list \<Rightarrow> 'w spool_run \<Rightarrow> bool \<times> 'w spool_run" where
  "trim_run sv run sr =
     (let (ok, w) = sv_xtrim sv (sr_world sr) (nextStreamId (si_id (last run))); sr1 = with_world w sr
      in (ok, if ok \<and> (sr_trimmed sr1 = [] \<or> last (sr_trimmed sr1) \<noteq> run)
              then sr1\<lparr>sr_trimmed := sr_trimmed sr1 @ [run]\<rparr> else sr1))"

definition advance :: "'w spool_env \<Rightarrow> spooled_item list \<Rightarrow> nat \<Rightarrow> 'w spool_run \<Rightarrow> bool \<times> 'w spool_run" where
  "advance sv run nextSeq sr =
     (case trim_run sv run sr of
        (ok, sr1) \<Rightarrow>
          if \<not> ok then (False, sr1)
          else
            (let (saved, w) = sv_saveOffset sv (sr_world sr1) nextSeq; sr2 = with_world w sr1
             in (saved, if saved then sr2\<lparr>sr_stream := (sr_stream sr2)\<lparr>cs_seq := nextSeq\<rparr>\<rparr> else sr2)))"

definition spooled_notice :: "'w spool_env \<Rightarrow> spooled_item list \<Rightarrow> nat \<Rightarrow> 'w spool_run \<Rightarrow> bool \<times> 'w spool_run" where
  "spooled_notice sv run seq sr =
     (let (ok, w) = env_notice (sv_cdc sv) (sr_world sr) seq; sr1 = with_world w sr
      in if ok then advance sv run (seq + 1) (sr1\<lparr>sr_stream := happened (Ev_noticed seq) (sr_stream sr1)\<rparr>)
         else (False, sr1))"

definition settle_spooled ::
  "'w spool_env \<Rightarrow> spooled_item list \<Rightarrow> row list \<Rightarrow> cdc_operation \<Rightarrow> nat \<Rightarrow> string \<Rightarrow> delivery_outcome \<Rightarrow>
     'w spool_run \<Rightarrow> bool \<times> 'w spool_run" where
  "settle_spooled sv run rs op seq cursor outcome sr =
     (if oc_success outcome then
        (case on_stream (record_delivery (sv_cdc sv) seq rs True) sr of
           (ok, sr1) \<Rightarrow>
             if ok then advance sv run (seq + 1) (sr1\<lparr>sr_stream := (sr_stream sr1)\<lparr>cs_failures := 0\<rparr>\<rparr>)
             else (False, sr1))
      else
        (case on_stream (handleFailedBatch (sv_cdc sv) rs (Some op) seq cursor outcome) sr of
           (Threw, sr1) \<Rightarrow> (False, sr1)
         | (Stopped, sr1) \<Rightarrow> (True, sr1)
         | (Go_on n, sr1) \<Rightarrow> advance sv run n sr1))"

definition deliverSpooled :: "'w spool_env \<Rightarrow> spooled_item list \<Rightarrow> 'w spool_run \<Rightarrow> bool \<times> 'w spool_run" where
  "deliverSpooled sv run sr =
     (if (case bi_source (env_bridge (sv_cdc sv)) of Query_source q \<Rightarrow> True | Table_source s \<Rightarrow> False) then (True, sr)
      else
        (let rs = map (\<lambda>i. se_row (si_entry i)) run; lastCursor = se_cursor (si_entry (last run));
             seq = cs_seq (sr_stream sr);
             sr' =
               (case se_op (si_entry (hd run)) of
                  Spool_notice \<Rightarrow> settle_run SETTLE_ATTEMPTS (spooled_notice sv run seq) sr
                | Spool_change op \<Rightarrow>
                    (let (outcome, w) = attempt (sv_cdc sv) rs (Some op) seq [] (sr_world sr);
                         sr1 = with_world w sr;
                         sr2 = (if oc_success outcome
                                then sr1\<lparr>sr_stream := happened (Ev_delivered rs) (sr_stream sr1)\<rparr> else sr1)
                     in settle_run SETTLE_ATTEMPTS (settle_spooled sv run rs op seq lastCursor outcome) sr2))
         in (cs_halted (sr_stream sr'), sr')))"

section \<open>The consumer\<close>

fun deliver_runs :: "'w spool_env \<Rightarrow> spooled_item list list \<Rightarrow> 'w spool_run \<Rightarrow> bool \<times> 'w spool_run" where
  "deliver_runs sv [] sr = (False, sr)"
| "deliver_runs sv (run # runs) sr =
     (if sv_consumerStop sv (sr_world sr) \<or> cs_halted (sr_stream sr) then (True, sr)
      else case deliverSpooled sv run sr of (aborted, sr') \<Rightarrow> if aborted then (True, sr') else deliver_runs sv runs sr')"

text \<open>One turn of the consumer's loop: whether the loop ends, and the state after it.\<close>

definition consumer_turn :: "'w spool_env \<Rightarrow> 'w spool_run \<Rightarrow> bool \<times> 'w spool_run" where
  "consumer_turn sv sr =
     (if sv_consumerStop sv (sr_world sr) \<or> cs_halted (sr_stream sr) then (True, sr)
      else
        (case read_spool sv (env_maxBatch (sv_cdc sv)) (sr_world sr) of
           (None, w) \<Rightarrow> (False, with_world (snd (sv_sleep sv w)) sr)
         | (Some items, w) \<Rightarrow>
             if items = [] then (False, with_world (snd (sv_sleep sv w)) sr)
             else deliver_runs sv (deliverableRuns items (env_primaryKey (sv_cdc sv))) (with_world w sr)))"

text \<open>The loop, for a number of turns.\<close>

fun startConsumer :: "nat \<Rightarrow> 'w spool_env \<Rightarrow> 'w spool_run \<Rightarrow> 'w spool_run" where
  "startConsumer 0 sv sr = sr"
| "startConsumer (Suc n) sv sr =
     (case consumer_turn sv sr of (ended, sr') \<Rightarrow> if ended then sr' else startConsumer n sv sr')"

text \<open>The spool hands back the entry it took, its row as the codec keeps it.\<close>

lemma spooled_entry_comes_back:
  "codec_ok h (JObj (se_row e)) \<Longrightarrow> decodeEntry h (encodeEntry e) = Some (e\<lparr>se_row := canon_row (se_row e)\<rparr>)"
  using rows_round_trip [of "[se_row e]" h] by (cases e) (auto simp: decodeEntry_def encodeEntry_def)

section \<open>Runs are batches\<close>

definition run_keys :: "string list option \<Rightarrow> spooled_item list \<Rightarrow> string list" where
  "run_keys pk run = List.map_filter (\<lambda>i. keySignature pk (se_row (si_entry i))) run"

text \<open>One operation, no key twice, a truncate or a notice alone.\<close>

definition a_batch :: "string list option \<Rightarrow> spooled_item list \<Rightarrow> bool" where
  "a_batch pk run =
     (run \<noteq> [] \<and> (\<exists>op. (\<forall>i \<in> set run. se_op (si_entry i) = op) \<and> (alone op \<longrightarrow> length run = 1)) \<and>
      distinct (run_keys pk run))"

lemma run_keys_snoc:
  "run_keys pk (run @ [i]) = run_keys pk run @ (case keySignature pk (se_row (si_entry i)) of None \<Rightarrow> [] | Some k \<Rightarrow> [k])"
  by (simp add: run_keys_def List.map_filter_def split: option.split)

lemma batch_one: "a_batch pk [i]"
  by (cases "keySignature pk (se_row (si_entry i))") (auto simp: a_batch_def run_keys_def List.map_filter_def)

lemma batch_snoc:
  assumes "a_batch pk run" and "\<not> breaks_run run (run_keys pk run) (se_op (si_entry i)) (keySignature pk (se_row (si_entry i)))"
  shows "a_batch pk (run @ [i])"
proof -
  have ne: "run \<noteq> []" using assms(1) by (simp add: a_batch_def)
  then have op: "se_op (si_entry (last run)) = se_op (si_entry i)" "\<not> alone (se_op (si_entry i))"
    and keys: "distinct (run_keys pk (run @ [i]))"
    using assms by (auto simp: breaks_run_def a_batch_def run_keys_snoc split: option.splits)
  have "\<forall>j \<in> set (run @ [i]). se_op (si_entry j) = se_op (si_entry i)"
    using assms(1) op(1) ne by (auto simp: a_batch_def)
  then show ?thesis using keys op(2) by (auto simp: a_batch_def)
qed

lemma runs_from_batches:
  assumes "current = [] \<or> a_batch pk current" and "keys = run_keys pk current"
  shows "concat (runs_from pk current keys items) = current @ items \<and>
    (\<forall>run \<in> set (runs_from pk current keys items). a_batch pk run)"
  using assms
proof (induction items arbitrary: current keys)
  case (Cons i items)
  let ?sig = "keySignature pk (se_row (si_entry i))"
  show ?case
  proof (cases "breaks_run current keys (se_op (si_entry i)) ?sig")
    case True
    then have "a_batch pk current" using Cons.prems(1) by (auto simp: breaks_run_def)
    moreover have "(case ?sig of None \<Rightarrow> [] | Some k \<Rightarrow> [k]) = run_keys pk [i]"
      using run_keys_snoc [of pk "[]" i] by (simp add: run_keys_def List.map_filter_def)
    ultimately show ?thesis using True Cons.IH [of "[i]" "run_keys pk [i]"] batch_one by (auto simp: Let_def)
  next
    case False
    then have "a_batch pk (current @ [i])"
      using Cons.prems batch_snoc [of pk current i] batch_one [of pk i] by (cases "current = []") auto
    then show ?thesis
      using False Cons.IH [of "current @ [i]" "run_keys pk (current @ [i])"] Cons.prems(2)
      by (simp add: Let_def run_keys_snoc)
  qed
qed auto


section \<open>Positions are saved behind the spool\<close>

text \<open>A pipeline of commands answers with one result for each.\<close>

definition answers_each :: "'w spool_env \<Rightarrow> bool" where
  "answers_each sv = (\<forall>w es. case fst (sv_xadd sv w es) of None \<Rightarrow> True | Some rs \<Rightarrow> length rs = length es)"

definition position_of :: "'w spool_run \<Rightarrow> string option \<times> string list" where
  "position_of sr = (cs_watermark (sr_stream sr), sr_saved sr)"

lemma position_updates [simp]:
  "position_of (with_world w sr) = position_of sr" "sr_appended (with_world w sr) = sr_appended sr"
  "sr_trimmed (with_world w sr) = sr_trimmed sr" "cs_halted (sr_stream (with_world w sr)) = cs_halted (sr_stream sr)"
  "cs_events (sr_stream (with_world w sr)) = cs_events (sr_stream sr)"
  by (simp_all add: position_of_def with_world_def)

lemma position_halt: "position_of (sr\<lparr>sr_stream := halt p (sr_stream sr)\<rparr>) = position_of sr"
  by (simp add: position_of_def halt_def happened_def)

lemma wait_position:
  assumes "wait_for_room sv sr = Some sr'"
  shows "position_of sr' = position_of sr \<and> sr_appended sr' = sr_appended sr"
proof (rule wait_for_room.raw_induct [where P = "\<lambda>sv sr sr'. position_of sr' = position_of sr \<and> sr_appended sr' = sr_appended sr",
      OF _ assms], goal_cases)
  case (1 wait sv sr sr')
  have live: "position_of (s\<lparr>sr_stream := (sr_stream s)\<lparr>cs_live := b\<rparr>\<rparr>) = position_of s" for s :: "'a spool_run" and b
    by (simp add: position_of_def)
  show ?case using 1(2) by (auto simp: Let_def live split: if_splits prod.splits option.splits dest!: 1(1))
qed

lemma append_takes_all:
  assumes "answers_each sv" and "append_spool sv entries w = (True, took, w')"
  shows "took = entries"
proof (cases "entries = []")
  case False
  then obtain rs where rs: "fst (sv_xadd sv w (map encodeEntry entries)) = Some rs" "list_all fst rs"
      "took = map snd (filter (\<lambda>(r, e). fst r) (zip rs entries))"
    using assms(2) by (auto simp: append_spool_def split: prod.splits option.splits)
  have "length rs = length entries"
    using assms(1) rs(1) by (auto simp: answers_each_def dest!: spec [of _ w] spec [of _ "map encodeEntry entries"])
  moreover have "filter (\<lambda>(r, e). fst r) (zip rs entries) = zip rs entries"
    using rs(2) by (auto simp: list_all_iff filter_id_conv dest: set_zip_leftD)
  ultimately show ?thesis using rs(3) by simp
qed (use assms(2) in \<open>simp add: append_spool_def\<close>)

lemma try_append_keeps:
  "answers_each sv \<Longrightarrow> try_append n sv entries sr = (ok, sr') \<Longrightarrow>
     position_of sr' = position_of sr \<and> (ok \<longrightarrow> (\<exists>again. sr_appended sr' = sr_appended sr @ again @ entries))"
proof (induction n arbitrary: sr)
  case 0
  then show ?case using position_halt [where sr = sr and p = False] by auto
next
  case (Suc n)
  obtain k took w where a: "append_spool sv entries (sr_world sr) = (k, took, w)" using prod_cases3 by blast
  define sr1 where "sr1 = (with_world w sr)\<lparr>sr_appended := sr_appended sr @ took\<rparr>"
  have sr1: "position_of sr1 = position_of sr" by (simp add: sr1_def position_of_def with_world_def)
  show ?case
  proof (cases k)
    case True
    then have "took = entries" using append_takes_all [OF Suc.prems(1), of entries "sr_world sr" took w] a by simp
    then show ?thesis using Suc.prems(2) a True sr1 by (auto simp: sr1_def)
  next
    case False
    then have "try_append n sv entries sr1 = (ok, sr')" using Suc.prems(2) a by (simp add: sr1_def)
    from Suc.IH [OF Suc.prems(1) this] show ?thesis using sr1 by (auto simp: sr1_def)
  qed
qed

text \<open>
  C19: The source's position moves only behind the spool: when a batch has been handed to the
  spool, either the saved position and the watermark are what they were, or every entry of the batch
  has been appended, in order (behind those an earlier try had got in), and the position is the batch's.
\<close>

theorem position_moves_behind_the_spool:
  assumes "answers_each sv" and "spoolBatch sv entries lastCursor sr = Some sr'"
  shows "position_of sr' = position_of sr \<or>
    (\<exists>again. sr_appended sr' = sr_appended sr @ again @ entries) \<and> cs_watermark (sr_stream sr') = Some lastCursor \<and>
    sr_saved sr' \<in> {sr_saved sr, sr_saved sr @ [lastCursor]}"
proof -
  obtain sr1 where w: "wait_for_room sv sr = Some sr1" using assms(2) by (auto simp: spoolBatch_def split: option.splits)
  note kept = wait_position [OF w]
  show ?thesis
  proof (cases "\<not> cs_live (sr_stream sr1) \<or> cs_halted (sr_stream sr1)")
    case True
    then show ?thesis using assms(2) w kept by (auto simp: spoolBatch_def)
  next
    case False
    obtain ok sr2 where t: "(if entries = [] then (True, sr1) else try_append 3 sv entries sr1) = (ok, sr2)" by fastforce
    have sr2: "position_of sr2 = position_of sr1 \<and> (ok \<longrightarrow> (\<exists>again. sr_appended sr2 = sr_appended sr1 @ again @ entries))"
      using t try_append_keeps [OF assms(1), of 3 entries sr1] by (auto split: if_splits)
    have sr': "sr' = (if ok then save_spooled sv lastCursor sr2 else sr2)"
      using assms(2) w False t by (auto simp: spoolBatch_def)
    show ?thesis
    proof (cases ok)
      case True
      then show ?thesis using sr' sr2 kept
        by (auto simp: save_spooled_def Let_def with_world_def position_of_def split: prod.splits)
    qed (use sr' sr2 kept in simp)
  qed
qed

section \<open>What is trimmed has landed\<close>

text \<open>The rows of a run; a notice has none.\<close>

definition run_rows :: "spooled_item list \<Rightarrow> row multiset" where
  "run_rows run =
     (case se_op (si_entry (hd run)) of
        Spool_notice \<Rightarrow> {#}
      | Spool_change op \<Rightarrow> mset (map (\<lambda>i. se_row (si_entry i)) run))"

definition trimmed_rows :: "spooled_item list list \<Rightarrow> row multiset" where
  "trimmed_rows runs = sum_list (map run_rows runs)"

definition landed_rows :: "'w spool_run \<Rightarrow> row multiset" where
  "landed_rows sr = landed (cs_events (sr_stream sr))"

text \<open>
  While a run is worked on: at least \<open>need\<close> has landed, and the run is trimmed only if its rows have, too.
\<close>

definition underway :: "spooled_item list list \<Rightarrow> spooled_item list \<Rightarrow> row multiset \<Rightarrow> 'w spool_run \<Rightarrow> bool" where
  "underway before run need sr =
     (need \<subseteq># landed_rows sr \<and>
      (sr_trimmed sr = before \<or>
       sr_trimmed sr = before @ [run] \<and> trimmed_rows before + run_rows run \<subseteq># landed_rows sr))"

lemma underway_stream:
  assumes "underway before run need sr" and "landed_rows sr \<subseteq># landed_rows sr'" and "sr_trimmed sr' = sr_trimmed sr"
  shows "underway before run need sr'"
  using assms by (auto simp: underway_def intro: subset_mset.order_trans)

lemma landed_with_world [simp]: "landed_rows (with_world w sr) = landed_rows sr"
  by (simp add: landed_rows_def)

lemma landed_stream_updates [simp]:
  "landed_rows (sr\<lparr>sr_stream := st\<rparr>) = landed (cs_events st)" "landed_rows (sr\<lparr>sr_trimmed := ts\<rparr>) = landed_rows sr"
  by (simp_all add: landed_rows_def)

lemma landed_halt: "landed (cs_events (halt p st)) = landed (cs_events st)"
  by (simp add: halt_def happened_def)

lemma settle_run_rule:
  assumes "\<And>s. underway before run need s \<Longrightarrow> underway before run need (snd (work s))"
    and "underway before run need sr"
  shows "underway before run need (settle_run n work sr)"
  using assms(2)
proof (induction n arbitrary: sr)
  case 0
  then show ?case by (auto intro: underway_stream simp: landed_halt landed_rows_def)
next
  case (Suc n)
  then show ?case using assms(1) [OF Suc.prems] by (auto split: prod.split)
qed

lemma advance_underway:
  assumes "underway before run need sr" and "trimmed_rows before + run_rows run \<subseteq># landed_rows sr"
  shows "underway before run need (snd (advance sv run n sr))"
proof -
  obtain ok sr1 where t: "trim_run sv run sr = (ok, sr1)" by fastforce
  have l: "landed_rows sr1 = landed_rows sr" and e: "sr_trimmed sr1 \<in> {sr_trimmed sr, sr_trimmed sr @ [run]}"
    and d: "sr_trimmed sr1 \<noteq> sr_trimmed sr \<Longrightarrow> sr_trimmed sr = [] \<or> last (sr_trimmed sr) \<noteq> run"
    using t by (auto simp: trim_run_def Let_def split: prod.splits if_splits)
  have "underway before run need sr1"
    using assms e d l by (auto simp: underway_def)
  moreover have "landed_rows (snd (advance sv run n sr)) = landed_rows sr1"
      "sr_trimmed (snd (advance sv run n sr)) = sr_trimmed sr1"
    using t by (auto simp: advance_def Let_def landed_rows_def with_world_def split: prod.splits)
  ultimately show ?thesis using underway_stream by (metis subset_mset.order_refl)
qed

lemma landed_on_stream: "landed_rows (snd (on_stream f sr)) = landed (cs_events (snd (f (sr_stream sr))))"
  and trimmed_on_stream: "sr_trimmed (snd (on_stream f sr)) = sr_trimmed sr"
  by (simp_all add: on_stream_def split: prod.split)

lemma settle_spooled_underway:
  assumes "underway before run need s" and "rs \<noteq> []" and "run_rows run = mset rs"
    and "trimmed_rows before \<subseteq># need"
    and "oc_success outcome \<Longrightarrow> need = trimmed_rows before + run_rows run"
  shows "underway before run need (snd (settle_spooled sv run rs op seq cursor outcome s))"
proof (cases "oc_success outcome")
  case True
  obtain ok s1 where r: "on_stream (record_delivery (sv_cdc sv) seq rs True) s = (ok, s1)" by fastforce
  have s1: "landed_rows s1 = landed_rows s" "sr_trimmed s1 = sr_trimmed s"
    using landed_on_stream [of "record_delivery (sv_cdc sv) seq rs True" s]
      trimmed_on_stream [of "record_delivery (sv_cdc sv) seq rs True" s] store_steps(4)
    by (simp_all add: r landed_rows_def)
  have u: "underway before run need s1" by (rule underway_stream [OF assms(1)]) (simp_all add: s1)
  let ?s2 = "s1\<lparr>sr_stream := (sr_stream s1)\<lparr>cs_failures := 0\<rparr>\<rparr>"
  have u2: "underway before run need ?s2" by (rule underway_stream [OF u]) (simp_all add: landed_rows_def)
  have "trimmed_rows before + run_rows run \<subseteq># landed_rows ?s2"
    using u2 assms(5) [OF True] by (simp add: underway_def)
  then show ?thesis using True r u advance_underway [OF u2] by (simp add: settle_spooled_def)
next
  case False
  let ?f = "handleFailedBatch (sv_cdc sv) rs (Some op) seq cursor outcome"
  obtain e s1 where h: "on_stream ?f s = (e, s1)" by fastforce
  have st: "?f (sr_stream s) = (e, sr_stream s1)" using h by (auto simp: on_stream_def split: prod.splits)
  have ends: "batch_ends seq (mset rs) (sr_stream s) (e, sr_stream s1)"
    using batch_ends_failed [OF assms(2), of seq "sr_stream s" "sv_cdc sv" "Some op" cursor outcome] st by simp
  have l: "landed_rows s \<subseteq># landed_rows s1" "sr_trimmed s1 = sr_trimmed s"
    using ends trimmed_on_stream [of ?f s] h by (auto simp: batch_ends_def grew_def landed_rows_def)
  have u: "underway before run need s1" by (rule underway_stream [OF assms(1) l])
  show ?thesis
  proof (cases e)
    case (Go_on n)
    have "landed_rows s + mset rs \<subseteq># landed_rows s1"
      using ends Go_on by (simp add: batch_ends_def landed_rows_def)
    moreover have "trimmed_rows before \<subseteq># landed_rows s"
      using assms(1,4) by (auto simp: underway_def intro: subset_mset.order_trans)
    ultimately have "trimmed_rows before + run_rows run \<subseteq># landed_rows s1"
      using assms(3) by (metis subset_mset.add_right_mono subset_mset.order_trans)
    then show ?thesis using False h Go_on advance_underway [OF u] by (simp add: settle_spooled_def)
  qed (use False h u in \<open>simp_all add: settle_spooled_def\<close>)
qed

definition safely_trimmed :: "'w spool_run \<Rightarrow> bool" where
  "safely_trimmed sr = (trimmed_rows (sr_trimmed sr) \<subseteq># landed_rows sr)"

lemma underway_safe: "underway before run need sr \<Longrightarrow> trimmed_rows before \<subseteq># need \<Longrightarrow> safely_trimmed sr"
  by (auto simp: underway_def safely_trimmed_def trimmed_rows_def intro: subset_mset.order_trans)

lemma deliverSpooled_safe:
  assumes "run \<noteq> []" and "safely_trimmed sr"
  shows "safely_trimmed (snd (deliverSpooled sv run sr))"
proof (cases "\<exists>q. bi_source (env_bridge (sv_cdc sv)) = Query_source q")
  case True
  then show ?thesis using assms(2) by (auto simp: deliverSpooled_def)
next
  case False
  then obtain tbl where table: "bi_source (env_bridge (sv_cdc sv)) = Table_source tbl"
    by (cases "bi_source (env_bridge (sv_cdc sv))") auto
  let ?rs = "map (\<lambda>i. se_row (si_entry i)) run" and ?before = "sr_trimmed sr" and ?seq = "cs_seq (sr_stream sr)"
  show ?thesis
  proof (cases "se_op (si_entry (hd run))")
    case Spool_notice
    have none: "run_rows run = {#}" using Spool_notice by (simp add: run_rows_def)
    have start: "underway ?before run (trimmed_rows ?before) sr"
      using assms(2) by (simp add: underway_def safely_trimmed_def)
    have "underway ?before run (trimmed_rows ?before) (snd (spooled_notice sv run ?seq s))"
      if u: "underway ?before run (trimmed_rows ?before) s" for s
    proof -
      obtain ok w where n: "env_notice (sv_cdc sv) (sr_world s) ?seq = (ok, w)" by fastforce
      let ?s1 = "(with_world w s)\<lparr>sr_stream := happened (Ev_noticed ?seq) (sr_stream (with_world w s))\<rparr>"
      have "underway ?before run (trimmed_rows ?before) (with_world w s)" by (rule underway_stream [OF u]) simp_all
      moreover have u1: "underway ?before run (trimmed_rows ?before) ?s1"
        by (rule underway_stream [OF u]) (simp_all add: happened_def landed_rows_def)
      then have "trimmed_rows ?before + run_rows run \<subseteq># landed_rows ?s1" using none by (simp add: underway_def)
      note advance_underway [OF u1 this]
      ultimately show ?thesis by (simp add: spooled_notice_def n Let_def)
    qed
    from settle_run_rule [where work = "spooled_notice sv run ?seq" and n = SETTLE_ATTEMPTS, OF this start]
    have "safely_trimmed (settle_run SETTLE_ATTEMPTS (spooled_notice sv run ?seq) sr)" using underway_safe by blast
    then show ?thesis using table Spool_notice by (simp add: deliverSpooled_def Let_def)
  next
    case (Spool_change op)
    have rows: "run_rows run = mset ?rs" using Spool_change by (simp add: run_rows_def)
    obtain outcome w where a: "attempt (sv_cdc sv) ?rs (Some op) ?seq [] (sr_world sr) = (outcome, w)" by fastforce
    define sr2 where "sr2 = (if oc_success outcome
        then (with_world w sr)\<lparr>sr_stream := happened (Ev_delivered ?rs) (sr_stream (with_world w sr))\<rparr> else with_world w sr)"
    define need where "need = (if oc_success outcome then trimmed_rows ?before + run_rows run else trimmed_rows ?before)"
    have start: "underway ?before run need sr2"
      using assms(2) by (simp add: underway_def safely_trimmed_def need_def sr2_def rows happened_def landed_rows_def)
    have some: "trimmed_rows ?before \<subseteq># need" by (simp add: need_def)
    let ?work = "settle_spooled sv run ?rs op ?seq (se_cursor (si_entry (last run))) outcome"
    have "underway ?before run need (snd (?work s))" if "underway ?before run need s" for s
      by (rule settle_spooled_underway [OF that _ rows some]) (use assms(1) in \<open>simp_all add: need_def\<close>)
    from settle_run_rule [where work = ?work and n = SETTLE_ATTEMPTS, OF this start] have
      "safely_trimmed (settle_run SETTLE_ATTEMPTS ?work sr2)" using underway_safe some by blast
    then show ?thesis using table Spool_change a by (simp add: deliverSpooled_def Let_def sr2_def)
  qed
qed

lemma deliver_runs_safe:
  "\<forall>run \<in> set runs. run \<noteq> [] \<Longrightarrow> safely_trimmed sr \<Longrightarrow> safely_trimmed (snd (deliver_runs sv runs sr))"
proof (induction runs arbitrary: sr)
  case (Cons run runs)
  then show ?case using deliverSpooled_safe [of run sr sv] by (auto split: prod.split)
qed simp

lemma consumer_turn_safe: "safely_trimmed sr \<Longrightarrow> safely_trimmed (snd (consumer_turn sv sr))"
proof -
  assume safe: "safely_trimmed sr"
  have world: "safely_trimmed (with_world w sr)" for w using safe by (simp add: safely_trimmed_def)
  have "run \<noteq> []" if "run \<in> set (deliverableRuns items pk)" for run items pk
    using runs_from_batches [of "[]" pk "[]" items] that
    by (auto simp: deliverableRuns_def a_batch_def run_keys_def List.map_filter_def)
  then show ?thesis
    using safe world
    by (auto simp: consumer_turn_def split: prod.split option.split intro!: deliver_runs_safe)
qed

lemma startConsumer_safe: "safely_trimmed sr \<Longrightarrow> safely_trimmed (startConsumer n sv sr)"
proof (induction n arbitrary: sr)
  case (Suc n)
  then show ?case using consumer_turn_safe [of sr sv] by (auto split: prod.split)
qed simp


text \<open>A stream that holds two entries of one row each, and forgets all it is told to.\<close>

definition spooled_order :: "string \<Rightarrow> string \<times> stored" where
  "spooled_order n =
     (n @ ''-0'', Payload (encodeEntry \<lparr>se_op = Spool_change Op_insert, se_row = order_row n ''paid'', se_origins = [],
                                      se_cursor = n\<rparr>))"

definition orders_spool :: "(string \<times> stored) list spool_env" where
  "orders_spool =
     \<lparr>sv_cdc =
        \<lparr>env_bridge = orders_bridge, env_primaryKey = Some [''id''], env_tracksSchema = True, env_sourceFilters = False,
         env_host = no_host, env_after = longer, env_maxBatch = 2, env_batchBytes = 60, env_maxFailures = 2,
         env_deadLetterMax = 10,
         env_deliver = (\<lambda>w rs op seq skip.
           (\<lparr>oc_success = True, oc_attempts = 1, oc_error = None, oc_succeededTargets = None\<rparr>, w)),
         env_record = (\<lambda>w seq rs. (True, w)), env_notice = (\<lambda>w seq. (True, w)), env_park = (\<lambda>w ls n. (True, w)),
         env_pendingRows = (\<lambda>w. (Some 0, w)), env_save = (\<lambda>w n c. (True, w)), env_browse = (\<lambda>w r. (Some None, w)),
         env_wholeValue = (\<lambda>w. (False, w)), env_drift = (\<lambda>w. (None, w)), env_echo = (\<lambda>w op r. (Not_echo, w))\<rparr>,
      sv_max = 100, sv_xlen = (\<lambda>w. (Some (length w), w)),
      sv_xadd = (\<lambda>w es. (Some (map (\<lambda>_. (True, ''1-0'')) es), w @ map (\<lambda>e. (''1-0'', Payload e)) es)),
      sv_xrange = (\<lambda>w n. (Some (take n w), w)), sv_xdel = (\<lambda>w ident. filter (\<lambda>(i, _). i \<noteq> ident) w),
      sv_xtrim = (\<lambda>w ident. (True, [])), sv_savePosition = (\<lambda>w c. (True, w)), sv_ack = (\<lambda>w c. (True, w)),
      sv_saveOffset = (\<lambda>w n. (True, w)), sv_sleep = (\<lambda>w. (True, w)), sv_consumerStop = (\<lambda>w. False)\<rparr>"

definition orders_run :: "(string \<times> stored) list spool_run" where
  "orders_run =
     \<lparr>sr_stream = stream_at None 0 [spooled_order ''1'', spooled_order ''2''], sr_appended = [], sr_saved = [],
      sr_trimmed = []\<rparr>"


lemma position_moves_behind_the_spool_witness:
  "case spoolBatch orders_spool [\<lparr>se_op = Spool_notice, se_row = [], se_origins = [], se_cursor = ''q''\<rparr>] ''q'' orders_run of
     None \<Rightarrow> False
   | Some sr \<Rightarrow> sr_appended sr = [\<lparr>se_op = Spool_notice, se_row = [], se_origins = [], se_cursor = ''q''\<rparr>] \<and>
       cs_watermark (sr_stream sr) = Some ''q''"
proof -
  let ?e = "\<lparr>se_op = Spool_notice, se_row = [], se_origins = [], se_cursor = ''q''\<rparr>"
  have each: "answers_each orders_spool" by (simp add: answers_each_def orders_spool_def)
  have "case spoolBatch orders_spool [?e] ''q'' orders_run of None \<Rightarrow> False
      | Some sr \<Rightarrow> position_of sr \<noteq> position_of orders_run \<and> length (sr_appended sr) = 1" by code_simp
  then obtain sr where sr: "spoolBatch orders_spool [?e] ''q'' orders_run = Some sr"
      "position_of sr \<noteq> position_of orders_run" "length (sr_appended sr) = 1" by (auto split: option.splits)
  then obtain again where "sr_appended sr = sr_appended orders_run @ again @ [?e]" "cs_watermark (sr_stream sr) = Some ''q''"
    using position_moves_behind_the_spool [OF each sr(1)] by blast
  then show ?thesis using sr by (simp add: orders_run_def)
qed

end
