(* ===== verification/Json_Text.thy ===== *)
theory Json_Text
  imports Js_Value
begin

text \<open>
  What tells one JSON text from another. A scanner that knows only quotes, escapes and
  brackets closes exactly at the end of the text of an array, so no array's text is the
  beginning of a longer text that is also one: a row's key (an array's text) and a key with
  a stamp behind it are never the same string.
\<close>

section \<open>A scanner of brackets and quotes\<close>

datatype scanner = Outside nat | Inside nat | Escaped nat | Closed | Broken

definition opens :: "char \<Rightarrow> bool" where
  "opens c = (c = CHR ''['' \<or> c = CHR ''{'')"

definition closes :: "char \<Rightarrow> bool" where
  "closes c = (c = CHR '']'' \<or> c = CHR ''}'')"

definition quotes :: "char \<Rightarrow> bool" where
  "quotes c = (of_char c = (34::nat))"

fun scan_step :: "scanner \<Rightarrow> char \<Rightarrow> scanner" where
  "scan_step (Outside d) c =
     (if quotes c then Inside d
      else if opens c then Outside (Suc d)
      else if closes c then (if d \<le> 1 then Closed else Outside (d - 1))
      else Outside d)"
| "scan_step (Inside d) c =
     (if quotes c then Outside d else if of_char c = (92::nat) then Escaped d else Inside d)"
| "scan_step (Escaped d) c = Inside d"
| "scan_step Closed c = Broken"
| "scan_step Broken c = Broken"

definition scan_text :: "scanner \<Rightarrow> string \<Rightarrow> scanner" where
  "scan_text s t = foldl scan_step s t"

lemma scan_text_simps [simp]:
  "scan_text s [] = s" "scan_text s (c # t) = scan_text (scan_step s c) t"
  by (simp_all add: scan_text_def)

lemma scan_text_append [simp]: "scan_text s (t @ u) = scan_text (scan_text s t) u"
  by (simp add: scan_text_def)

lemma scan_Broken [simp]: "scan_text Broken t = Broken"
  by (induction t) simp_all

section \<open>Leaves\<close>

definition plain_char :: "char \<Rightarrow> bool" where
  "plain_char c = (\<not> quotes c \<and> \<not> opens c \<and> \<not> closes c)"

lemma scan_plain: "list_all plain_char t \<Longrightarrow> scan_text (Outside d) t = Outside d"
  by (induction t) (simp_all add: plain_char_def)

lemma plain_digit: "is_digit c \<Longrightarrow> plain_char c"
  by (auto simp: plain_char_def quotes_def opens_def closes_def is_digit_def)

lemma plain_show_nat: "list_all plain_char (show_nat n)"
  using show_nat_digits [of n] plain_digit by (auto simp: list_all_iff)

lemma plain_letters [simp]:
  "plain_char (CHR ''.'')" "plain_char (CHR ''-'')" "plain_char (CHR ''+'')" "plain_char (CHR ''e'')"
  "plain_char (CHR ''0'')" "plain_char (CHR '','')" "plain_char (CHR '':'')" "plain_char (CHR ''n'')"
  "plain_char (CHR ''u'')" "plain_char (CHR ''l'')" "plain_char (CHR ''t'')" "plain_char (CHR ''r'')"
  "plain_char (CHR ''f'')" "plain_char (CHR ''a'')" "plain_char (CHR ''s'')"
  by (simp_all add: plain_char_def quotes_def opens_def closes_def)

lemma list_all_take_drop: "list_all P xs \<Longrightarrow> list_all P (take n xs) \<and> list_all P (drop n xs)"
  by (metis append_take_drop_id list_all_append)

lemma plain_zeros [simp]: "list_all plain_char (zeros n)"
  by (simp add: zeros_def list_all_length)

lemma plain_layout: "list_all plain_char ds \<Longrightarrow> list_all plain_char (layout_digits ds n)"
  using list_all_take_drop [of plain_char ds "nat n"] plain_show_nat
  by (auto simp: layout_digits_def Let_def split: list.splits)

lemma plain_strip: "list_all plain_char s \<Longrightarrow> list_all plain_char (strip_zeros s)"
  by (auto simp: strip_zeros_def list_all_iff dest: set_dropWhileD)

lemma plain_positive: "list_all plain_char (positive_to_string q)"
  by (auto simp: positive_to_string_def Let_def plain_show_nat split: prod.splits
      intro!: plain_layout plain_strip)

lemma plain_num: "is_finite n \<Longrightarrow> list_all plain_char (js_string_of_num n)"
  by (cases n) (simp_all add: plain_positive)

lemma hex_char_code: "n < 16 \<Longrightarrow> of_char (hex_char n) \<noteq> (34::nat) \<and> of_char (hex_char n) \<noteq> (92::nat)"
  by (simp add: hex_char_def)

lemma scan_escape: "scan_text (Inside d) (json_escape_char c) = Inside d"
proof -
  have "of_char c < (32::nat) \<Longrightarrow> of_char c div 16 < (16::nat)" by simp
  then show ?thesis
    using hex_char_code [of "of_char c div 16"] hex_char_code [of "of_char c mod 16"]
    by (simp add: json_escape_char_def Let_def quotes_def)
qed

lemma scan_quote [simp]: "scan_text (Outside d) (json_quote s) = Outside d"
proof -
  have "scan_text (Inside d) (concat (map json_escape_char s)) = Inside d"
    by (induction s) (simp_all add: scan_escape)
  then show ?thesis by (simp add: json_quote_def quotes_def)
qed

lemma scan_quote_append [simp]:
  "scan_text (Outside d) (json_quote s @ t) = scan_text (Outside d) t"
  by simp

section \<open>Values\<close>

lemma scan_punctuation [simp]:
  "scan_step (Outside d) (CHR '','') = Outside d" "scan_step (Outside d) (CHR '':'') = Outside d"
  "scan_step (Outside d) (CHR ''['') = Outside (Suc d)" "scan_step (Outside d) (CHR ''{'') = Outside (Suc d)"
  "scan_step (Outside d) (CHR '']'') = (if d \<le> 1 then Closed else Outside (d - 1))"
  "scan_step (Outside d) (CHR ''}'') = (if d \<le> 1 then Closed else Outside (d - 1))"
  by (simp_all add: quotes_def opens_def closes_def)

lemma scan_commas:
  "\<forall>t \<in> set ts. scan_text (Outside d) t = Outside d \<Longrightarrow> scan_text (Outside d) (json_commas ts) = Outside d"
  unfolding json_commas_def
  by (induction ts rule: induct_list012) (simp_all del: scan_step.simps)

lemma scan_word:
  "scan_text (Outside d) ''null'' = Outside d" "scan_text (Outside d) ''true'' = Outside d"
  "scan_text (Outside d) ''false'' = Outside d"
  by (rule scan_plain, simp)+

text \<open>A value's text, met inside an array or an object, leaves the scanner where it was.\<close>

definition neutral :: "string \<Rightarrow> bool" where
  "neutral t = (\<forall>d > 0. scan_text (Outside d) t = Outside d)"

lemma neutral_word [simp]: "neutral ''null''" "neutral ''true''" "neutral ''false''"
  by (simp_all add: neutral_def scan_word del: scan_text_simps)

lemma neutral_quote [simp]: "neutral (json_quote s)"
  by (simp add: neutral_def)

lemma neutral_plain: "list_all plain_char t \<Longrightarrow> neutral t"
  by (simp add: neutral_def scan_plain)

lemma neutral_commas: "\<forall>t \<in> set ts. neutral t \<Longrightarrow> neutral (json_commas ts)"
  by (simp add: neutral_def scan_commas)

lemma neutral_array: "neutral t \<Longrightarrow> neutral (''['' @ t @ '']'')"
  by (simp add: neutral_def del: scan_step.simps)

lemma neutral_object: "neutral t \<Longrightarrow> neutral (''{'' @ t @ ''}'')"
  by (simp add: neutral_def del: scan_step.simps)

lemma neutral_append: "neutral t \<Longrightarrow> neutral u \<Longrightarrow> neutral (t @ u)"
  by (simp add: neutral_def)

lemma neutral_field: "neutral t \<Longrightarrow> neutral (json_quote k @ '':'' @ t)"
  by (simp add: neutral_def del: scan_step.simps)

lemma neutral_bytes:
  "neutral (''{'' @ json_quote ''type'' @ '':'' @ json_quote ''Buffer'' @ '','' @ json_quote ''data'' @
       '':['' @ json_commas (map show_nat bs) @ '']}'')"
proof -
  have "neutral (json_commas (map show_nat bs))"
    by (rule neutral_commas) (auto intro: neutral_plain plain_show_nat)
  then show ?thesis by (simp add: neutral_def del: scan_step.simps)
qed

lemma neutral_value: "js_stringify v = JText t \<Longrightarrow> neutral t"
  and neutral_items: "json_items vs = Some ts \<Longrightarrow> \<forall>t \<in> set ts. neutral t"
  and neutral_fields: "json_fields fs = Some ts \<Longrightarrow> \<forall>t \<in> set ts. neutral t"
proof (induction v and vs and fs arbitrary: t and ts and ts rule: js_stringify_json_items_json_fields.induct)
  case (5 n)
  then show ?case by (auto intro: neutral_plain plain_num split: if_splits)
next
  case (9 bs)
  have "t = ''{'' @ json_quote ''type'' @ '':'' @ json_quote ''Buffer'' @ '','' @ json_quote ''data'' @
       '':['' @ json_commas (map show_nat bs) @ '']}''"
    using 9 by (simp only: js_stringify.simps json_out.inject)
  then show ?case by (simp only: neutral_bytes)
next
  case (10 vs)
  then obtain ts where "json_items vs = Some ts" and t: "t = ''['' @ json_commas ts @ '']''"
    by (auto split: option.splits)
  with 10 have "\<forall>u \<in> set ts. neutral u" by blast
  then show ?case by (simp only: t neutral_array neutral_commas)
next
  case (11 fs)
  then obtain ts where "json_fields fs = Some ts" and t: "t = ''{'' @ json_commas ts @ ''}''"
    by (auto split: option.splits)
  with 11 have "\<forall>u \<in> set ts. neutral u" by blast
  then show ?case by (simp only: t neutral_object neutral_commas)
next
  case (15 k v fs)
  have "neutral (json_quote k @ '':'' @ u)" if "js_stringify v = JText u" for u
    using "15.IH"(1) [OF that] by (rule neutral_field)
  with 15 show ?case by (auto split: json_out.splits)
qed (auto split: if_splits option.splits json_out.splits)

text \<open>The text of an array, from the start, closes the scanner with its last character.\<close>

lemma array_text_closes:
  assumes "js_stringify (JArr vs) = JText t"
  shows "scan_text (Outside 0) t = Closed"
proof -
  obtain ts where "json_items vs = Some ts" and t: "t = ''['' @ json_commas ts @ '']''"
    using assms by (auto split: option.splits)
  then have "neutral (json_commas ts)" using neutral_commas neutral_items by blast
  then show ?thesis by (simp add: t neutral_def del: scan_step.simps)
qed

lemma array_text_prefix_free:
  assumes "js_stringify (JArr vs) = JText t" and "js_stringify (JArr ws) = JText (t @ u)"
  shows "u = []"
proof (rule ccontr)
  assume "u \<noteq> []"
  then obtain c w where "u = c # w" by (cases u) auto
  with array_text_closes [OF assms(1)] array_text_closes [OF assms(2)] show False by simp
qed

end
