(* ===== verification/Watch.thy ===== *)
theory Watch
  imports Bridge_Config Filter_Match Json_Text
begin

text \<open>
  The change-detection engine of the polling (\<^verbatim>\<open>watch\<close>) bridges,
  \<^verbatim>\<open>packages/core/src/bridges/watch.ts\<close>: the query of the next poll, and from
  the rows that came back the new ones and the advanced cursor. What throws in the source
  (\<^verbatim>\<open>toISOString\<close> of an invalid date, \<^verbatim>\<open>JSON.stringify\<close> of a
  bigint) is \<open>None\<close>. The process's time zone is the parameter \<open>zone\<close>: the offset in
  milliseconds at an instant. The strategies are those of the bridge's configuration.
\<close>

section \<open>Cursors\<close>

datatype watch_cursor =
    Increment_cursor jsval "string option"
  | Timestamp_cursor jsval "string list" "string option"
  | Snapshot_cursor "string list"

record advance_result =
  ar_newRows :: "row list"
  ar_cursor :: watch_cursor

section \<open>Rows as they were emitted\<close>

definition rowKey :: "row \<Rightarrow> string list \<Rightarrow> string option" where
  "rowKey r pk =
     (let cols = (if pk \<noteq> [] then pk else sort (map fst r));
          vs = map (\<lambda>c. if is_nil (row_get r c) then JNull else row_get r c) cols
      in case js_stringify (JArr vs) of JText t \<Rightarrow> Some t | _ \<Rightarrow> None)"

text \<open>\<^verbatim>\<open>Date.prototype.toISOString\<close> throws on an invalid date.\<close>

fun stamp_text :: "host \<Rightarrow> jsval \<Rightarrow> string option" where
  "stamp_text h (JDate d) = map_option to_iso_string d"
| "stamp_text h v = Some (if is_nil v then [] else js_string h v)"

definition emittedKey :: "host \<Rightarrow> row \<Rightarrow> string list \<Rightarrow> string \<Rightarrow> string option" where
  "emittedKey h r pk column =
     (case (stamp_text h (row_get r column), rowKey r pk) of
        (Some stamp, Some k) \<Rightarrow> Some (k @ ''@'' @ stamp)
      | _ \<Rightarrow> None)"

section \<open>Timestamps\<close>

datatype ts_norm = TNum jsnum | TText string

fun tsNorm :: "host \<Rightarrow> jsval \<Rightarrow> ts_norm" where
  "tsNorm h (JDate d) = TNum (case d of None \<Rightarrow> NaN | Some ms \<Rightarrow> Num (of_int ms))"
| "tsNorm h (JNum n) = TNum n"
| "tsNorm h (JStr s) = (case date_parse h s of None \<Rightarrow> TText s | Some ms \<Rightarrow> TNum (Num (of_int ms)))"
| "tsNorm h v = TText (js_string h v)"

fun norm_text :: "ts_norm \<Rightarrow> string" where
  "norm_text (TNum n) = js_string_of_num n"
| "norm_text (TText s) = s"

fun tsEquals :: "host \<Rightarrow> jsval \<Rightarrow> jsval \<Rightarrow> bool" where
  "tsEquals h a b =
     (case (tsNorm h a, tsNorm h b) of
        (TNum x, TNum y) \<Rightarrow> num_eq x y
      | (TText x, TText y) \<Rightarrow> x = y
      | _ \<Rightarrow> False)"

fun tsGreater :: "host \<Rightarrow> jsval \<Rightarrow> jsval \<Rightarrow> bool" where
  "tsGreater h a b =
     (case (tsNorm h a, tsNorm h b) of
        (TNum x, TNum y) \<Rightarrow> num_less y x
      | (x, y) \<Rightarrow> norm_text y < norm_text x)"

fun serializeTs :: "jsval \<Rightarrow> jsval option" where
  "serializeTs (JDate d) = map_option (\<lambda>ms. JStr (to_iso_string ms)) d"
| "serializeTs v = Some v"

text \<open>\<^verbatim>\<open>a - b\<close> on doubles\<close>

fun num_sub :: "jsnum \<Rightarrow> jsnum \<Rightarrow> jsnum" where
  "num_sub (Num a) (Num b) = round64 (a - b)"
| "num_sub NaN _ = NaN"
| "num_sub _ NaN = NaN"
| "num_sub PosInf PosInf = NaN"
| "num_sub NegInf NegInf = NaN"
| "num_sub PosInf _ = PosInf"
| "num_sub NegInf _ = NegInf"
| "num_sub _ PosInf = NegInf"
| "num_sub _ NegInf = PosInf"

text \<open>\<^verbatim>\<open>new Date(number)\<close>: beyond 100,000,000 days from the epoch it is invalid.\<close>

fun date_of_num :: "jsnum \<Rightarrow> int option" where
  "date_of_num (Num q) =
     (if \<bar>q\<bar> \<le> 8640000000000000 then Some (if 0 \<le> q then \<lfloor>q\<rfloor> else \<lceil>q\<rceil>) else None)"
| "date_of_num _ = None"

text \<open>\<^verbatim>\<open>/(Z|[+-]\d\d(:?\d\d)?)$/i\<close> on the trimmed text\<close>

definition sign_char :: "char \<Rightarrow> bool" where
  "sign_char c = (c = CHR ''+'' \<or> c = CHR ''-'')"

definition hasZone :: "string \<Rightarrow> bool" where
  "hasZone t =
     (case rev (trim t) of
        [] \<Rightarrow> False
      | c # cs \<Rightarrow> c = CHR ''Z'' \<or> c = CHR ''z'' \<or>
          (is_digit c \<and>
            (case cs of
               d # s # r \<Rightarrow> is_digit d \<and>
                 (sign_char s \<or>
                  (case (if s = CHR '':'' then r else s # r) of
                     e # f # g # _ \<Rightarrow> is_digit e \<and> is_digit f \<and> sign_char g
                   | _ \<Rightarrow> False))
             | _ \<Rightarrow> False)))"

definition wallClock :: "(int \<Rightarrow> int) \<Rightarrow> int option \<Rightarrow> string" where
  "wallClock zone d =
     (case d of
        None \<Rightarrow> ''0NaN-NaN-NaN NaN:NaN:NaN.NaN''
      | Some ms \<Rightarrow>
          (let l = ms + zone ms; t = l mod 86400000; (y, m, dd) = civil_from_days (l div 86400000);
               p = (\<lambda>n. pad_left 2 (show_int n))
           in pad_left 4 (show_int y) @ ''-'' @ p m @ ''-'' @ p dd @ '' '' @
              p (t div 3600000) @ '':'' @ p (t div 60000 mod 60) @ '':'' @ p (t div 1000 mod 60) @ ''.'' @
              pad_left 3 (show_int (t mod 1000))))"

fun zoneless_text :: "jsval \<Rightarrow> bool" where
  "zoneless_text (JStr s) = (\<not> hasZone s)"
| "zoneless_text _ = False"

definition tsMinus :: "host \<Rightarrow> (int \<Rightarrow> int) \<Rightarrow> jsval \<Rightarrow> int \<Rightarrow> jsval option" where
  "tsMinus h zone ts ms =
     (case tsNorm h ts of
        TText _ \<Rightarrow> Some ts
      | TNum n \<Rightarrow>
          (case ts of
             JNum _ \<Rightarrow> Some (JNum (num_sub n (Num (of_int ms))))
           | _ \<Rightarrow>
               (let shifted = date_of_num (num_sub n (Num (of_int ms)))
                in if zoneless_text ts then Some (JStr (wallClock zone shifted))
                   else map_option (\<lambda>d. JStr (to_iso_string d)) shifted)))"

section \<open>The engine\<close>

fun emptyCursor :: "watch_strategy \<Rightarrow> watch_cursor" where
  "emptyCursor (Increment c) = Increment_cursor JNull (Some c)"
| "emptyCursor (Timestamp c _) = Timestamp_cursor JNull [] (Some c)"
| "emptyCursor (Snapshot _) = Snapshot_cursor []"

definition ascending :: "string \<Rightarrow> sort_spec" where
  "ascending c = \<lparr>so_column = c, so_descending = False\<rparr>"

fun watchQuery ::
  "host \<Rightarrow> (int \<Rightarrow> int) \<Rightarrow> watch_strategy \<Rightarrow> watch_cursor \<Rightarrow> string list \<Rightarrow> (filter_spec list \<times> sort_spec list) option"
where
  "watchQuery h zone (Increment c) (Increment_cursor v _) pk =
     Some (if is_nil v then [] else [\<lparr>f_column = c, f_operator = Gt, f_value = v\<rparr>], [ascending c])"
| "watchQuery h zone (Timestamp c lookback) (Timestamp_cursor ts _ _) pk =
     (case (if \<not> is_nil ts \<and> 0 < lookback then tsMinus h zone ts lookback else Some ts) of
        None \<Rightarrow> None
      | Some bound \<Rightarrow>
          Some (if is_nil ts then [] else [\<lparr>f_column = c, f_operator = Gte, f_value = bound\<rparr>],
                ascending c # map ascending (filter (\<lambda>k. k \<noteq> c) pk)))"
| "watchQuery h zone _ _ pk = Some ([], map ascending pk)"

text \<open>The last value of the page that is not null, or the cursor's own.\<close>

definition last_value :: "string \<Rightarrow> jsval \<Rightarrow> row list \<Rightarrow> jsval" where
  "last_value c v rows =
     (case find (\<lambda>x. \<not> is_nil x) (map (\<lambda>r. row_get r c) (rev rows)) of None \<Rightarrow> v | Some x \<Rightarrow> x)"

definition filter_opt :: "('a \<Rightarrow> bool option) \<Rightarrow> 'a list \<Rightarrow> 'a list option" where
  "filter_opt p xs =
     map_option (\<lambda>bs. map fst (filter snd (zip xs bs))) (those (map p xs))"

definition is_new :: "host \<Rightarrow> string \<Rightarrow> jsval \<Rightarrow> string list \<Rightarrow> string list \<Rightarrow> row \<Rightarrow> bool option" where
  "is_new h c ts already pk r =
     (case emittedKey h r pk c of
        None \<Rightarrow> None
      | Some e \<Rightarrow>
          if e \<in> set already then Some False
          else (case rowKey r pk of
                  None \<Rightarrow> None
                | Some k \<Rightarrow>
                    if k \<notin> set already then Some True
                    else (let v = row_get r c in Some (\<not> is_nil v \<and> \<not> is_nil ts \<and> tsGreater h v ts))))"

fun max_ts :: "host \<Rightarrow> jsval list \<Rightarrow> jsval \<Rightarrow> jsval" where
  "max_ts h [] m = m"
| "max_ts h (v # vs) m =
     (if is_nil v then max_ts h vs m
      else if is_nil m \<or> tsGreater h v m then max_ts h vs v
      else max_ts h vs m)"

definition inWindow :: "host \<Rightarrow> int \<Rightarrow> jsval \<Rightarrow> jsval \<Rightarrow> bool" where
  "inWindow h lookback nextTs v =
     (if is_nil v then False
      else if tsEquals h v nextTs then True
      else if lookback \<le> 0 then False
      else (case (tsNorm h v, tsNorm h nextTs) of
              (TNum n, TNum nNext) \<Rightarrow>
                (let d = num_sub nNext n in num_less d (Num (of_int lookback)) \<or> num_eq d (Num (of_int lookback)))
            | _ \<Rightarrow> False))"

definition advance_timestamp ::
  "host \<Rightarrow> string \<Rightarrow> int \<Rightarrow> jsval \<Rightarrow> string list \<Rightarrow> string option \<Rightarrow> row list \<Rightarrow> string list \<Rightarrow> advance_result option"
where
  "advance_timestamp h c lookback ts keys col rows pk =
     (case filter_opt (is_new h c ts keys pk) rows of
        None \<Rightarrow> None
      | Some newRows \<Rightarrow>
          (let cursor = Timestamp_cursor ts keys col;
               maxTs = max_ts h (map (\<lambda>r. row_get r c) rows) JNull;
               nextTs = (if \<not> is_nil ts \<and> \<not> tsGreater h maxTs ts then ts else maxTs);
               carry = (\<not> is_nil ts \<and> inWindow h lookback nextTs ts)
           in if rows = [] \<or> is_nil maxTs then Some \<lparr>ar_newRows = newRows, ar_cursor = cursor\<rparr>
              else
                (case those (map (\<lambda>r. emittedKey h r pk c)
                              (filter (\<lambda>r. inWindow h lookback nextTs (row_get r c)) rows)) of
                   None \<Rightarrow> None
                 | Some boundaryKeys \<Rightarrow>
                     (case serializeTs nextTs of
                        None \<Rightarrow> None
                      | Some ts' \<Rightarrow>
                          Some \<lparr>ar_newRows = newRows,
                                ar_cursor = Timestamp_cursor ts'
                                  (if carry then uniq (keys @ boundaryKeys) else boundaryKeys) (Some c)\<rparr>))))"

text \<open>The rows whose key the set does not hold, each added to it as it is met.\<close>

fun take_unseen :: "row list \<Rightarrow> string list \<Rightarrow> string list \<Rightarrow> (row list \<times> string list) option" where
  "take_unseen [] pk seen = Some ([], seen)"
| "take_unseen (r # rs) pk seen =
     (case rowKey r pk of
        None \<Rightarrow> None
      | Some k \<Rightarrow>
          if k \<in> set seen then take_unseen rs pk seen
          else map_option (\<lambda>(new, s). (r # new, s)) (take_unseen rs pk (seen @ [k])))"

definition advance_snapshot :: "nat \<Rightarrow> string list \<Rightarrow> row list \<Rightarrow> string list \<Rightarrow> advance_result option" where
  "advance_snapshot limit seen rows pk =
     map_option (\<lambda>(new, s). \<lparr>ar_newRows = new,
         ar_cursor = Snapshot_cursor (if limit < length s then drop (length s - limit) s else s)\<rparr>)
       (take_unseen rows pk (uniq seen))"

fun seen_of :: "watch_cursor \<Rightarrow> string list" where
  "seen_of (Snapshot_cursor seen) = seen"
| "seen_of _ = []"

fun tracked_limit :: "watch_strategy \<Rightarrow> nat" where
  "tracked_limit (Snapshot m) = nat m"
| "tracked_limit _ = 50000"

fun advanceCursor ::
  "host \<Rightarrow> watch_strategy \<Rightarrow> watch_cursor \<Rightarrow> row list \<Rightarrow> string list \<Rightarrow> advance_result option"
where
  "advanceCursor h (Increment c) (Increment_cursor v _) rows pk =
     Some \<lparr>ar_newRows = rows, ar_cursor = Increment_cursor (last_value c v rows) (Some c)\<rparr>"
| "advanceCursor h (Timestamp c lookback) (Timestamp_cursor ts keys col) rows pk =
     advance_timestamp h c lookback ts keys col rows pk"
| "advanceCursor h strategy cursor rows pk =
     advance_snapshot (tracked_limit strategy) (seen_of cursor) rows pk"

section \<open>Keys\<close>

text \<open>A row's bare key is never the key of a row as it was emitted.\<close>

lemma rowKey_array: "rowKey r pk = Some k \<Longrightarrow> \<exists>vs. js_stringify (JArr vs) = JText k"
  by (auto simp: rowKey_def Let_def split: json_out.splits)

lemma emittedKey_parts:
  "emittedKey h r pk c = Some e \<Longrightarrow>
     \<exists>k s. rowKey r pk = Some k \<and> stamp_text h (row_get r c) = Some s \<and> e = k @ ''@'' @ s"
  by (auto simp: emittedKey_def split: option.splits)

lemma bare_key_not_emitted:
  assumes "rowKey r pk = Some k" and "emittedKey h r' pk' c = Some e"
  shows "k \<noteq> e"
proof
  assume "k = e"
  obtain k' s where k': "rowKey r' pk' = Some k'" "e = k' @ ''@'' @ s"
    using emittedKey_parts [OF assms(2)] by blast
  show False
    using rowKey_array [OF assms(1)] rowKey_array [OF k'(1)] \<open>k = e\<close> k'(2) array_text_prefix_free by auto
qed

text \<open>Two rows emitted under the same key have the same row key and carried the same stamp.\<close>

lemma emittedKey_inj:
  assumes "emittedKey h r pk c = Some e" and "emittedKey h r' pk c = Some e"
  shows "stamp_text h (row_get r c) = stamp_text h (row_get r' c)"
proof -
  obtain k s k' s' where k: "rowKey r pk = Some k" "stamp_text h (row_get r c) = Some s" "e = k @ ''@'' @ s"
    and k': "rowKey r' pk = Some k'" "stamp_text h (row_get r' c) = Some s'" "e = k' @ ''@'' @ s'"
    using emittedKey_parts assms by meson
  then obtain vs ws where j: "js_stringify (JArr vs) = JText k" "js_stringify (JArr ws) = JText k'"
    using rowKey_array by meson
  have same: "k = k'"
  proof (rule ccontr)
    assume "k \<noteq> k'"
    then obtain u where "u \<noteq> []" and "k' = k @ u \<or> k = k' @ u"
      using k(3) k'(3) by (auto simp: append_eq_append_conv2)
    then show False using j array_text_prefix_free by metis
  qed
  show ?thesis using k(2,3) k'(2,3) unfolding same by simp
qed

section \<open>Readable stamps\<close>

text \<open>
  The timestamps the exactness of a timestamp watch rests on: integral epoch numbers, or
  dates and texts that the process's \<^verbatim>\<open>Date.parse\<close> reads back, also when the
  look-back window's edge is written from them. (In the hour a daylight-saving change
  repeats, a zone-less text names two instants, and the edge is read back as the other.)
\<close>

definition stamp_ms :: "host \<Rightarrow> jsval \<Rightarrow> int" where
  "stamp_ms h v = (case tsNorm h v of TNum (Num q) \<Rightarrow> \<lfloor>q\<rfloor> | _ \<Rightarrow> 0)"

definition in_epoch :: "int \<Rightarrow> bool" where
  "in_epoch t = (\<bar>t\<bar> < 1000000000000000)"

definition text_reads :: "host \<Rightarrow> (int \<Rightarrow> int) \<Rightarrow> int \<Rightarrow> string \<Rightarrow> int \<Rightarrow> bool" where
  "text_reads h zone lookback s ms =
     (date_parse h s = Some ms \<and> in_epoch ms \<and>
      (case tsMinus h zone (JStr s) lookback of
         None \<Rightarrow> False
       | Some b \<Rightarrow> tsNorm h b = TNum (Num (of_int (ms - lookback)))))"

fun text_stamp :: "host \<Rightarrow> (int \<Rightarrow> int) \<Rightarrow> int \<Rightarrow> jsval \<Rightarrow> bool" where
  "text_stamp h zone lookback (JStr s) =
     (case date_parse h s of None \<Rightarrow> False | Some ms \<Rightarrow> text_reads h zone lookback s ms)"
| "text_stamp h zone lookback (JDate (Some ms)) = text_reads h zone lookback (to_iso_string ms) ms"
| "text_stamp h zone lookback _ = False"

fun number_stamp :: "jsval \<Rightarrow> bool" where
  "number_stamp (JNum (Num q)) = (q = of_int \<lfloor>q\<rfloor> \<and> in_epoch \<lfloor>q\<rfloor>)"
| "number_stamp _ = False"

definition readable_stamp :: "host \<Rightarrow> (int \<Rightarrow> int) \<Rightarrow> int \<Rightarrow> bool \<Rightarrow> jsval \<Rightarrow> bool" where
  "readable_stamp h zone lookback numeric v =
     (if numeric then number_stamp v else text_stamp h zone lookback v)"

lemma num_sub_ints:
  "in_epoch a \<Longrightarrow> in_epoch b \<Longrightarrow> num_sub (Num (of_int a)) (Num (of_int b)) = Num (of_int (a - b))"
  using round64_of_int [of "a - b"] by (simp add: in_epoch_def)

lemma readable_not_nil: "readable_stamp h zone L n v \<Longrightarrow> \<not> is_nil v"
  by (cases v) (auto simp: readable_stamp_def split: if_splits)

lemma readable_norm:
  assumes "readable_stamp h zone L n v"
  shows "tsNorm h v = TNum (Num (of_int (stamp_ms h v)))" and "in_epoch (stamp_ms h v)"
proof -
  have "tsNorm h v = TNum (Num (of_int (stamp_ms h v))) \<and> in_epoch (stamp_ms h v)"
  proof (cases v)
    case (JNum x)
    with assms show ?thesis by (cases x) (auto simp: readable_stamp_def stamp_ms_def split: if_splits)
  next
    case (JDate d)
    with assms show ?thesis by (cases d) (auto simp: readable_stamp_def stamp_ms_def text_reads_def split: if_splits)
  qed (use assms in \<open>auto simp: readable_stamp_def stamp_ms_def text_reads_def split: if_splits option.splits\<close>)
  then show "tsNorm h v = TNum (Num (of_int (stamp_ms h v)))" "in_epoch (stamp_ms h v)" by auto
qed

lemma readable_serialized:
  assumes "readable_stamp h zone L n v"
  shows "\<exists>w. serializeTs v = Some w \<and> readable_stamp h zone L n w \<and> stamp_ms h w = stamp_ms h v"
proof (cases v)
  case (JDate d)
  with assms show ?thesis
    by (cases d) (auto simp: readable_stamp_def stamp_ms_def text_reads_def split: if_splits)
qed (use assms in auto)

lemma readable_minus:
  assumes "readable_stamp h zone L n v" and "serializeTs v = Some w" and "in_epoch L"
  shows "\<exists>b. tsMinus h zone w L = Some b \<and> tsNorm h b = TNum (Num (of_int (stamp_ms h v - L)))"
proof (cases v)
  case (JNum x)
  with assms have "in_epoch (stamp_ms h v)" "w = v" "n" "tsNorm h v = TNum (Num (of_int (stamp_ms h v)))"
    using readable_norm [OF assms(1)] by (auto simp: readable_stamp_def split: if_splits)
  then show ?thesis using num_sub_ints [of "stamp_ms h v" L] assms(3) JNum by (simp add: tsMinus_def)
next
  case (JDate d)
  with assms show ?thesis
    by (cases d) (auto simp: readable_stamp_def stamp_ms_def text_reads_def split: if_splits option.splits)
qed (use assms in \<open>auto simp: readable_stamp_def stamp_ms_def text_reads_def split: if_splits option.splits\<close>)

lemma number_text: "in_epoch t \<Longrightarrow> js_string_of_num (Num (of_int t)) = show_int t"
proof -
  assume t: "in_epoch t"
  have floor: "\<lfloor>of_int t :: rat\<rfloor> = t" by simp
  have pos: "0 < t \<Longrightarrow> positive_to_string (of_int t) = show_nat (nat t)"
    and neg: "t < 0 \<Longrightarrow> positive_to_string (- of_int t) = show_nat (nat (- t))"
    using t of_int_less_iff [of t "10 ^ 15", where ?'a = rat] of_int_less_iff [of "- t" "10 ^ 15", where ?'a = rat]
    by (auto simp: positive_to_string_def in_epoch_def floor_minus)
  show ?thesis using pos neg by (cases "t = 0") (auto simp: show_int_def, code_simp)
qed

lemma stamp_text_ms:
  assumes v: "readable_stamp h zone L n v" and w: "readable_stamp h zone L n w"
    and same: "stamp_text h v = stamp_text h w"
  shows "stamp_ms h v = stamp_ms h w"
proof (cases n)
  case True
  have shown: "stamp_text h x = Some (show_int (stamp_ms h x))" if "readable_stamp h zone L n x" for x
  proof -
    from that True obtain t where "x = JNum (Num (of_int t))" "in_epoch t"
      by (cases x rule: number_stamp.cases) (auto simp: readable_stamp_def)
    then show ?thesis by (simp add: number_text stamp_ms_def del: js_string_of_num.simps)
  qed
  show ?thesis using shown [OF v] shown [OF w] same by (simp add: show_int_inj)
next
  case False
  have shown: "\<exists>s. stamp_text h x = Some s \<and> date_parse h s = Some (stamp_ms h x)"
    if "readable_stamp h zone L n x" for x
    using that False
    by (cases "(h, zone, L, x)" rule: text_stamp.cases)
       (auto simp: readable_stamp_def stamp_ms_def text_reads_def split: option.splits)
  show ?thesis using shown [OF v] shown [OF w] same by auto
qed

text \<open>On readable stamps the engine's comparisons are those of the instants.\<close>

lemma tsGreater_ms:
  "readable_stamp h zone L n v \<Longrightarrow> readable_stamp h zone L n w \<Longrightarrow>
     tsGreater h v w = (stamp_ms h w < stamp_ms h v)"
  using readable_norm(1) by simp

lemma inWindow_ms:
  assumes "readable_stamp h zone L n v" and "readable_stamp h zone L n w"
    and "stamp_ms h v \<le> stamp_ms h w" and "0 \<le> L"
  shows "inWindow h L w v = (stamp_ms h w - stamp_ms h v \<le> L)"
  using assms readable_not_nil [OF assms(1)] readable_norm [OF assms(1)] readable_norm [OF assms(2)]
    num_sub_ints [of "stamp_ms h w" "stamp_ms h v"]
  by (auto simp: inWindow_def Let_def)

lemma max_ts_readable:
  assumes "\<forall>v \<in> set vs. readable_stamp h zone L n v"
    and "m = JNull \<and> vs \<noteq> [] \<or> readable_stamp h zone L n m"
  shows "readable_stamp h zone L n (max_ts h vs m) \<and>
         (max_ts h vs m \<in> set vs \<or> max_ts h vs m = m \<and> m \<noteq> JNull) \<and>
         (\<forall>v \<in> set vs. stamp_ms h v \<le> stamp_ms h (max_ts h vs m)) \<and>
         (m \<noteq> JNull \<longrightarrow> stamp_ms h m \<le> stamp_ms h (max_ts h vs m))"
  using assms
proof (induction vs arbitrary: m)
  case Nil
  then show ?case using readable_not_nil [of h zone L n JNull] by auto
next
  case (Cons v vs)
  have v: "readable_stamp h zone L n v" and nv: "\<not> is_nil v" "v \<noteq> JNull"
    using Cons.prems(1) readable_not_nil [of h zone L n v] by (auto simp: is_nil_def)
  show ?case
  proof (cases "m = JNull \<or> tsGreater h v m")
    case True
    have "max_ts h (v # vs) m = max_ts h vs v" using True nv by (auto simp: is_nil_def)
    moreover have "m \<noteq> JNull \<Longrightarrow> stamp_ms h m < stamp_ms h v"
      using True Cons.prems(2) v tsGreater_ms [of h zone L n v m] by auto
    ultimately show ?thesis using Cons.IH [of v] Cons.prems(1) v nv by fastforce
  next
    case False
    have m: "readable_stamp h zone L n m" using False Cons.prems(2) by auto
    then have "max_ts h (v # vs) m = max_ts h vs m"
      using False nv readable_not_nil [OF m] by (auto simp: is_nil_def)
    moreover have "stamp_ms h v \<le> stamp_ms h m"
      using False tsGreater_ms [OF v m] by auto
    ultimately show ?thesis using Cons.IH [of m] Cons.prems(1) m False by fastforce
  qed
qed

section \<open>A run of polls\<close>

text \<open>
  The pages a watch is handed, one poll after another, and whether a page answers the
  query of its poll: the database compares as the engine does.
\<close>

fun watch_polls ::
  "host \<Rightarrow> watch_strategy \<Rightarrow> string list \<Rightarrow> watch_cursor \<Rightarrow> row list list \<Rightarrow> (row list \<times> watch_cursor) option"
where
  "watch_polls h st pk cur [] = Some ([], cur)"
| "watch_polls h st pk cur (page # pages) =
     (case advanceCursor h st cur page pk of
        None \<Rightarrow> None
      | Some a \<Rightarrow> map_option (\<lambda>(new, c). (ar_newRows a @ new, c)) (watch_polls h st pk (ar_cursor a) pages))"

definition passes :: "host \<Rightarrow> row \<Rightarrow> filter_spec \<Rightarrow> bool" where
  "passes h r f =
     (let v = row_get r (f_column f)
      in \<not> is_nil v \<and>
         (case f_operator f of
            Gt \<Rightarrow> tsGreater h v (f_value f)
          | Gte \<Rightarrow> \<not> tsGreater h (f_value f) v
          | _ \<Rightarrow> True))"

definition answers :: "host \<Rightarrow> (int \<Rightarrow> int) \<Rightarrow> watch_strategy \<Rightarrow> string list \<Rightarrow> watch_cursor \<Rightarrow> row list \<Rightarrow> bool" where
  "answers h zone st pk cur page =
     (case watchQuery h zone st cur pk of
        None \<Rightarrow> False
      | Some (fs, _) \<Rightarrow> list_all (\<lambda>r. list_all (passes h r) fs) page)"

fun all_answer ::
  "host \<Rightarrow> (int \<Rightarrow> int) \<Rightarrow> watch_strategy \<Rightarrow> string list \<Rightarrow> watch_cursor \<Rightarrow> row list list \<Rightarrow> bool"
where
  "all_answer h zone st pk cur [] = True"
| "all_answer h zone st pk cur (page # pages) =
     (answers h zone st pk cur page \<and>
      (case advanceCursor h st cur page pk of
         None \<Rightarrow> True
       | Some a \<Rightarrow> all_answer h zone st pk (ar_cursor a) pages))"


lemma those_map: "\<forall>x \<in> set xs. f x \<noteq> None \<Longrightarrow> those (map f xs) = Some (map (\<lambda>x. the (f x)) xs)"
  by (induction xs) auto

lemma filter_opt_total:
  "\<forall>x \<in> set xs. p x \<noteq> None \<Longrightarrow> filter_opt p xs = Some (filter (\<lambda>x. p x = Some True) xs)"
proof -
  assume total: "\<forall>x \<in> set xs. p x \<noteq> None"
  then have "map fst (filter snd (zip xs (map (\<lambda>x. the (p x)) xs))) = filter (\<lambda>x. p x = Some True) xs"
    by (induction xs) auto
  then show ?thesis using total by (simp add: filter_opt_def those_map)
qed

definition version_key :: "host \<Rightarrow> string list \<Rightarrow> string \<Rightarrow> row \<Rightarrow> string" where
  "version_key h pk c r = the (emittedKey h r pk c)"

definition readable_row :: "host \<Rightarrow> (int \<Rightarrow> int) \<Rightarrow> int \<Rightarrow> bool \<Rightarrow> string list \<Rightarrow> string \<Rightarrow> row \<Rightarrow> bool" where
  "readable_row h zone L n pk c r =
     (emittedKey h r pk c \<noteq> None \<and> readable_stamp h zone L n (row_get r c))"

text \<open>
  What the cursor knows of the rows \<open>seen\<close> so far: their latest stamp, and the key of
  each that the next query can still return.
\<close>

definition knows ::
  "host \<Rightarrow> (int \<Rightarrow> int) \<Rightarrow> int \<Rightarrow> bool \<Rightarrow> string list \<Rightarrow> string \<Rightarrow> row set \<Rightarrow> jsval \<Rightarrow> string list \<Rightarrow> bool"
where
  "knows h zone L n pk c seen ts keys =
     (set keys \<subseteq> version_key h pk c ` seen \<and>
      (\<forall>r \<in> seen. readable_row h zone L n pk c r) \<and>
      (if seen = {} then ts = JNull
       else readable_stamp h zone L n ts \<and> serializeTs ts = Some ts \<and>
            (\<forall>r \<in> seen. stamp_ms h (row_get r c) \<le> stamp_ms h ts \<and>
               (stamp_ms h ts - L \<le> stamp_ms h (row_get r c) \<longrightarrow> version_key h pk c r \<in> set keys))))"

lemma serialize_twice: "serializeTs v = Some w \<Longrightarrow> serializeTs w = Some w"
  by (cases v) auto

lemma answers_bound:
  assumes k: "knows h zone L n pk c seen ts keys" and L: "0 \<le> L" "in_epoch L" and nz: "seen \<noteq> {}"
    and a: "answers h zone (Timestamp c L) pk (Timestamp_cursor ts keys col) page"
    and r: "r \<in> set page" "readable_row h zone L n pk c r"
  shows "stamp_ms h ts - L \<le> stamp_ms h (row_get r c)"
proof -
  have ts: "readable_stamp h zone L n ts" "serializeTs ts = Some ts" using k nz by (auto simp: knows_def)
  obtain b where b: "tsMinus h zone ts L = Some b" "tsNorm h b = TNum (Num (of_int (stamp_ms h ts - L)))"
    using readable_minus [OF ts L(2)] by blast
  have row: "tsNorm h (row_get r c) = TNum (Num (of_int (stamp_ms h (row_get r c))))"
    using r(2) readable_norm(1) by (auto simp: readable_row_def)
  have "\<not> tsGreater h (if 0 < L then b else ts) (row_get r c)"
    using a r(1) b(1) readable_not_nil [OF ts(1)]
    by (auto simp: answers_def passes_def list_all_iff Let_def split: if_splits)
  then show ?thesis using b(2) row readable_norm(1) [OF ts(1)] L(1) by (auto split: if_splits)
qed

text \<open>A row is new to the poll just when its version was never seen.\<close>

lemma is_new_iff:
  assumes k: "knows h zone L n pk c seen ts keys" and r: "readable_row h zone L n pk c r"
    and bound: "seen \<noteq> {} \<Longrightarrow> stamp_ms h ts - L \<le> stamp_ms h (row_get r c)"
  shows "is_new h c ts keys pk r = Some (version_key h pk c r \<notin> version_key h pk c ` seen)"
proof -
  obtain e where e: "emittedKey h r pk c = Some e" using r by (auto simp: readable_row_def)
  obtain k' where k': "rowKey r pk = Some k'" using emittedKey_parts [OF e] by blast
  have emitted: "emittedKey h r' pk c = Some (version_key h pk c r')" if "r' \<in> seen" for r'
    using k that by (auto simp: knows_def readable_row_def version_key_def)
  have "k' \<notin> set keys"
  proof
    assume "k' \<in> set keys"
    then obtain r' where "r' \<in> seen" "k' = version_key h pk c r'" using k by (auto simp: knows_def)
    then show False using bare_key_not_emitted [OF k' emitted] by blast
  qed
  moreover have "e \<in> set keys" if "e \<in> version_key h pk c ` seen"
  proof -
    obtain r' where r': "r' \<in> seen" "e = version_key h pk c r'" using \<open>e \<in> _\<close> by blast
    then have "stamp_text h (row_get r c) = stamp_text h (row_get r' c)"
      using emittedKey_inj [OF e] emitted by blast
    moreover have "readable_stamp h zone L n (row_get r c)" "readable_stamp h zone L n (row_get r' c)"
      using r k r'(1) by (auto simp: knows_def readable_row_def)
    ultimately have "stamp_ms h (row_get r c) = stamp_ms h (row_get r' c)" by (blast intro: stamp_text_ms)
    moreover have "seen \<noteq> {}" using r'(1) by blast
    ultimately have "stamp_ms h ts - L \<le> stamp_ms h (row_get r' c)" using bound by simp
    then show ?thesis using k r' by (simp add: knows_def split: if_splits)
  qed
  moreover have "e \<in> version_key h pk c ` seen" if "e \<in> set keys" using k that by (auto simp: knows_def)
  ultimately show ?thesis using e k' by (auto simp: is_new_def version_key_def)
qed


lemma next_cursor:
  assumes k: "knows h zone L n pk c seen ts keys" and L: "0 \<le> L"
    and page: "page \<noteq> []" "\<forall>r \<in> set page. readable_row h zone L n pk c r"
    and newest: "newest = max_ts h (map (\<lambda>r. row_get r c) page) JNull"
    and nx: "nx = (if \<not> is_nil ts \<and> \<not> tsGreater h newest ts then ts else newest)"
    and w: "serializeTs nx = Some w"
    and carry: "carry = (\<not> is_nil ts \<and> inWindow h L nx ts)"
    and bk: "bk = map (version_key h pk c) (filter (\<lambda>r. inWindow h L nx (row_get r c)) page)"
  shows "knows h zone L n pk c (seen \<union> set page) w (if carry then uniq (keys @ bk) else bk)"
proof -
  have read: "\<forall>v \<in> set (map (\<lambda>r. row_get r c) page). readable_stamp h zone L n v"
    using page(2) by (auto simp: readable_row_def)
  have newest_ok: "readable_stamp h zone L n newest" "\<forall>r \<in> set page. stamp_ms h (row_get r c) \<le> stamp_ms h newest"
    using max_ts_readable [OF read, of JNull] page(1) newest by auto
  have old: "readable_stamp h zone L n ts" "\<not> is_nil ts" if "seen \<noteq> {}"
    using k that readable_not_nil by (auto simp: knows_def)
  have none: "ts = JNull" if "seen = {}" using k that by (simp add: knows_def)
  have nx_ok: "readable_stamp h zone L n nx"
    and nx_page: "\<forall>r \<in> set page. stamp_ms h (row_get r c) \<le> stamp_ms h nx"
    and nx_seen: "seen \<noteq> {} \<Longrightarrow> stamp_ms h ts \<le> stamp_ms h nx"
    using newest_ok old none tsGreater_ms [OF newest_ok(1), of ts] by (cases "seen = {}"; force simp: nx)+
  obtain w' where "serializeTs nx = Some w'" "readable_stamp h zone L n w'" "stamp_ms h w' = stamp_ms h nx"
    using readable_serialized [OF nx_ok] by blast
  then have w_ok: "readable_stamp h zone L n w" "stamp_ms h w = stamp_ms h nx" using w by auto
  have bk_set: "set bk = version_key h pk c ` {r \<in> set page. stamp_ms h nx - stamp_ms h (row_get r c) \<le> L}"
  proof -
    have "inWindow h L nx (row_get r c) = (stamp_ms h nx - stamp_ms h (row_get r c) \<le> L)" if "r \<in> set page" for r
      using inWindow_ms [OF _ nx_ok _ L] nx_page read that by auto
    then show ?thesis by (auto simp: bk)
  qed
  have carry_iff: "carry = (seen \<noteq> {} \<and> stamp_ms h nx - stamp_ms h ts \<le> L)"
  proof (cases "seen = {}")
    case True
    then show ?thesis using none carry by simp
  next
    case False
    then show ?thesis using carry old inWindow_ms [OF old(1) [OF False] nx_ok nx_seen [OF False] L] by simp
  qed
  have keys: "set keys \<subseteq> version_key h pk c ` seen"
    and seen: "\<forall>r \<in> seen. readable_row h zone L n pk c r \<and> stamp_ms h (row_get r c) \<le> stamp_ms h ts \<and>
      (stamp_ms h ts - L \<le> stamp_ms h (row_get r c) \<longrightarrow> version_key h pk c r \<in> set keys)"
    using k by (auto simp: knows_def split: if_splits)
  define ks where "ks = (if carry then uniq (keys @ bk) else bk)"
  have sub: "set ks \<subseteq> version_key h pk c ` (seen \<union> set page)"
    using keys bk_set by (auto simp: ks_def)
  have old_rows: "stamp_ms h (row_get r c) \<le> stamp_ms h w \<and>
      (stamp_ms h w - L \<le> stamp_ms h (row_get r c) \<longrightarrow> version_key h pk c r \<in> set ks)" if "r \<in> seen" for r
  proof -
    have "stamp_ms h (row_get r c) \<le> stamp_ms h ts" "seen \<noteq> {}"
      and r: "stamp_ms h ts - L \<le> stamp_ms h (row_get r c) \<Longrightarrow> version_key h pk c r \<in> set keys"
      using seen that by auto
    moreover have "stamp_ms h ts \<le> stamp_ms h nx" using nx_seen calculation(2) by simp
    ultimately show ?thesis using w_ok(2) carry_iff by (auto simp: ks_def)
  qed
  have new_rows: "stamp_ms h (row_get r c) \<le> stamp_ms h w \<and>
      (stamp_ms h w - L \<le> stamp_ms h (row_get r c) \<longrightarrow> version_key h pk c r \<in> set ks)" if "r \<in> set page" for r
  proof -
    have "version_key h pk c r \<in> set bk" if "stamp_ms h nx - L \<le> stamp_ms h (row_get r c)"
      using \<open>r \<in> set page\<close> that by (auto simp: bk_set)
    then show ?thesis using nx_page that w_ok(2) by (auto simp: ks_def)
  qed
  have "seen \<union> set page \<noteq> {}" using page(1) by simp
  then have "knows h zone L n pk c (seen \<union> set page) w ks"
    unfolding knows_def
    by (simp only: if_False) (use sub old_rows new_rows w_ok(1) serialize_twice [OF w] seen page(2) in blast)
  then show ?thesis by (simp only: ks_def)
qed

lemma poll_step:
  assumes k: "knows h zone L n pk c seen ts keys" and L: "0 \<le> L" "in_epoch L"
    and page: "\<forall>r \<in> set page. readable_row h zone L n pk c r"
    and a: "answers h zone (Timestamp c L) pk (Timestamp_cursor ts keys col) page"
  shows "\<exists>ts' keys' col'. advance_timestamp h c L ts keys col page pk =
           Some \<lparr>ar_newRows = filter (\<lambda>r. version_key h pk c r \<notin> version_key h pk c ` seen) page,
                 ar_cursor = Timestamp_cursor ts' keys' col'\<rparr> \<and>
         knows h zone L n pk c (seen \<union> set page) ts' keys'"
proof -
  have new: "is_new h c ts keys pk r = Some (version_key h pk c r \<notin> version_key h pk c ` seen)"
    if "r \<in> set page" for r
    using is_new_iff [OF k] answers_bound [OF k L _ a that] page that by blast
  have "filter (\<lambda>r. is_new h c ts keys pk r = Some True) page =
      filter (\<lambda>r. version_key h pk c r \<notin> version_key h pk c ` seen) page"
    using new by (intro filter_cong) auto
  then have rows: "filter_opt (is_new h c ts keys pk) page =
      Some (filter (\<lambda>r. version_key h pk c r \<notin> version_key h pk c ` seen) page)"
    using filter_opt_total [of page "is_new h c ts keys pk"] new by force
  show ?thesis
  proof (cases "page = []")
    case True
    then show ?thesis using rows k by (simp add: advance_timestamp_def Let_def)
  next
    case False
    define newest where "newest = max_ts h (map (\<lambda>r. row_get r c) page) JNull"
    define nx where "nx = (if \<not> is_nil ts \<and> \<not> tsGreater h newest ts then ts else newest)"
    define carry where "carry = (\<not> is_nil ts \<and> inWindow h L nx ts)"
    define bk where "bk = map (version_key h pk c) (filter (\<lambda>r. inWindow h L nx (row_get r c)) page)"
    have read: "\<forall>v \<in> set (map (\<lambda>r. row_get r c) page). readable_stamp h zone L n v"
      using page by (auto simp: readable_row_def)
    have newest_ok: "readable_stamp h zone L n newest"
      using max_ts_readable [OF read, of JNull] False newest_def by auto
    have "seen \<noteq> {} \<Longrightarrow> readable_stamp h zone L n ts" "seen = {} \<Longrightarrow> ts = JNull"
      using k by (auto simp: knows_def)
    then have "readable_stamp h zone L n nx" using newest_ok by (cases "seen = {}") (auto simp: nx_def)
    then obtain w where w: "serializeTs nx = Some w" using readable_serialized by blast
    have "those (map (\<lambda>r. emittedKey h r pk c) (filter (\<lambda>r. inWindow h L nx (row_get r c)) page)) = Some bk"
      using page by (subst those_map) (auto simp: bk_def version_key_def readable_row_def)
    then have "advance_timestamp h c L ts keys col page pk =
        Some \<lparr>ar_newRows = filter (\<lambda>r. version_key h pk c r \<notin> version_key h pk c ` seen) page,
              ar_cursor = Timestamp_cursor w (if carry then uniq (keys @ bk) else bk) (Some c)\<rparr>"
      using rows False w readable_not_nil [OF newest_ok]
      by (simp add: advance_timestamp_def Let_def carry_def newest_def [symmetric] nx_def [symmetric]
          del: tsGreater.simps)
    moreover have "knows h zone L n pk c (seen \<union> set page) w (if carry then uniq (keys @ bk) else bk)"
      using next_cursor [OF k L(1) False page newest_def nx_def w carry_def bk_def] .
    ultimately show ?thesis by blast
  qed
qed

lemma polls_from:
  assumes "knows h zone L n pk c seen ts keys" and "0 \<le> L" and "in_epoch L"
    and "\<forall>r \<in> set (concat pages). readable_row h zone L n pk c r"
    and "all_answer h zone (Timestamp c L) pk (Timestamp_cursor ts keys col) pages"
    and "\<forall>page \<in> set pages. distinct (map (version_key h pk c) page)"
  shows "\<exists>new cur. watch_polls h (Timestamp c L) pk (Timestamp_cursor ts keys col) pages = Some (new, cur) \<and>
           map (version_key h pk c) new =
             filter (\<lambda>k. k \<notin> version_key h pk c ` seen) (uniq (map (version_key h pk c) (concat pages)))"
  using assms
proof (induction pages arbitrary: seen ts keys col)
  case (Cons page pages)
  let ?vk = "version_key h pk c"
  have answer: "answers h zone (Timestamp c L) pk (Timestamp_cursor ts keys col) page"
    and page: "\<forall>r \<in> set page. readable_row h zone L n pk c r" using Cons.prems by auto
  obtain ts' keys' col' where adv: "advance_timestamp h c L ts keys col page pk =
      Some \<lparr>ar_newRows = filter (\<lambda>r. ?vk r \<notin> ?vk ` seen) page, ar_cursor = Timestamp_cursor ts' keys' col'\<rparr>"
    and k': "knows h zone L n pk c (seen \<union> set page) ts' keys'"
    using poll_step [OF Cons.prems(1-3) page answer] by blast
  have "all_answer h zone (Timestamp c L) pk (Timestamp_cursor ts' keys' col') pages"
    using Cons.prems(5) adv by simp
  then obtain new cur where run: "watch_polls h (Timestamp c L) pk (Timestamp_cursor ts' keys' col') pages = Some (new, cur)"
    and keys: "map ?vk new = filter (\<lambda>k. k \<notin> ?vk ` (seen \<union> set page)) (uniq (map ?vk (concat pages)))"
    using Cons.IH [OF k' Cons.prems(2,3), of col'] Cons.prems(4,6) by auto
  have "uniq (map ?vk (concat (page # pages))) =
      map ?vk page @ filter (\<lambda>k. k \<notin> ?vk ` set page) (uniq (map ?vk (concat pages)))"
    using Cons.prems(6) by (simp add: uniq_append uniq_distinct)
  moreover have "map ?vk (filter (\<lambda>r. ?vk r \<notin> ?vk ` seen) page) = filter (\<lambda>k. k \<notin> ?vk ` seen) (map ?vk page)"
    by (simp add: filter_map o_def)
  moreover have "filter (\<lambda>k. k \<notin> ?vk ` seen) (filter (\<lambda>k. k \<notin> ?vk ` set page) ks) =
      filter (\<lambda>k. k \<notin> ?vk ` (seen \<union> set page)) ks" for ks
    by (auto intro: filter_cong simp: image_Un)
  ultimately show ?case using adv run keys by simp
qed simp



text \<open>
  Two customers written in the same instant; the next poll's window shows the second again,
  a third that committed late, and the first after a change.
\<close>

definition customer :: "string \<Rightarrow> int \<Rightarrow> row" where
  "customer k t = [(''id'', JStr k), (''seen'', JNum (Num (of_int t)))]"

definition customer_pages :: "row list list" where
  "customer_pages =
     [[customer ''a'' 1000, customer ''b'' 1000],
      [customer ''c'' 999, customer ''b'' 1000, customer ''a'' 1002], []]"

definition plain_host :: host where
  "plain_host = \<lparr>date_parse = (\<lambda>_. None), date_text = (\<lambda>_. []), utf8_text = (\<lambda>_. [])\<rparr>"

lemma customer_pages_answer:
  "all_answer plain_host (\<lambda>_. 0) (Timestamp ''seen'' 5) [''id''] (emptyCursor (Timestamp ''seen'' 5)) customer_pages"
  by code_simp

lemma customer_rows_readable:
  "\<forall>r \<in> set (concat customer_pages). readable_row plain_host (\<lambda>_. 0) 5 True [''id''] ''seen'' r"
  by code_simp

lemma customer_pages_distinct:
  "\<forall>page \<in> set customer_pages. distinct (map (version_key plain_host [''id''] ''seen'') page)"
  by code_simp


section \<open>Rows without a stamp\<close>

text \<open>
  C37: A table whose tracked column is null in every row (an \<^verbatim>\<open>updated_at\<close> that is
  only set by an update) leaves a timestamp watch's cursor where it was, so every poll emits
  the whole page again.
\<close>

theorem rows_without_a_stamp_are_sent_every_poll:
  assumes "\<forall>r \<in> set rows. is_nil (row_get r c) \<and> emittedKey h r pk c \<noteq> None"
  shows "advanceCursor h (Timestamp c lookback) (emptyCursor (Timestamp c lookback)) rows pk =
           Some \<lparr>ar_newRows = rows, ar_cursor = emptyCursor (Timestamp c lookback)\<rparr>"
proof -
  have new: "is_new h c JNull [] pk r = Some True" if "r \<in> set rows" for r
    using assms that emittedKey_parts [of h r pk c] by (fastforce simp: is_new_def)
  then have "filter_opt (is_new h c JNull [] pk) rows = Some rows"
    using filter_opt_total [of rows "is_new h c JNull [] pk"] by (simp add: filter_True)
  moreover have "max_ts h (map (\<lambda>r. row_get r c) rows) JNull = JNull"
    using assms by (induction rows) auto
  ultimately show ?thesis by (simp add: advance_timestamp_def Let_def)
qed

lemma rows_without_a_stamp_are_sent_every_poll_witness:
  "advanceCursor plain_host (Timestamp ''updated_at'' 3000) (emptyCursor (Timestamp ''updated_at'' 3000))
     [[(''id'', JStr ''a''), (''updated_at'', JNull)]] [''id''] =
   Some \<lparr>ar_newRows = [[(''id'', JStr ''a''), (''updated_at'', JNull)]],
     ar_cursor = emptyCursor (Timestamp ''updated_at'' 3000)\<rparr>"
proof (rule rows_without_a_stamp_are_sent_every_poll)
  show "\<forall>r \<in> set [[(''id'', JStr ''a''), (''updated_at'', JNull)]].
      is_nil (row_get r ''updated_at'') \<and> emittedKey plain_host r [''id''] ''updated_at'' \<noteq> None"
    by code_simp
qed

section \<open>Snapshot polls\<close>

lemma take_unseen_total:
  assumes "\<forall>r \<in> set rows. rowKey r pk \<noteq> None" and "distinct seen"
  shows "\<exists>new. take_unseen rows pk seen = Some (new, seen @ map (\<lambda>r. the (rowKey r pk)) new) \<and>
           map (\<lambda>r. the (rowKey r pk)) new =
             filter (\<lambda>k. k \<notin> set seen) (uniq (map (\<lambda>r. the (rowKey r pk)) rows))"
  using assms
proof (induction rows arbitrary: seen)
  case (Cons r rows)
  let ?key = "\<lambda>r. the (rowKey r pk)"
  obtain k where k: "rowKey r pk = Some k" using Cons.prems(1) by auto
  show ?case
  proof (cases "k \<in> set seen")
    case True
    have "filter (\<lambda>x. x \<notin> set seen) (filter (\<lambda>y. y \<noteq> k) ks) = filter (\<lambda>x. x \<notin> set seen) ks" for ks
      using True by (auto intro: filter_cong)
    then show ?thesis using Cons.IH [of seen] Cons.prems True k by simp
  next
    case False
    have "filter (\<lambda>x. x \<notin> set (seen @ [k])) ks = filter (\<lambda>x. x \<notin> set seen) (filter (\<lambda>y. y \<noteq> k) ks)" for ks
      by (auto intro: filter_cong)
    then show ?thesis using Cons.IH [of "seen @ [k]"] Cons.prems False k by auto
  qed
qed simp

lemma snapshot_polls_from:
  assumes "\<forall>r \<in> set (concat pages). rowKey r pk \<noteq> None" and "distinct seen"
    and "length (uniq (seen @ map (\<lambda>r. the (rowKey r pk)) (concat pages))) \<le> nat m"
  shows "\<exists>new. watch_polls h (Snapshot m) pk (Snapshot_cursor seen) pages =
             Some (new, Snapshot_cursor (seen @ map (\<lambda>r. the (rowKey r pk)) new)) \<and>
           map (\<lambda>r. the (rowKey r pk)) new =
             filter (\<lambda>k. k \<notin> set seen) (uniq (map (\<lambda>r. the (rowKey r pk)) (concat pages)))"
  using assms
proof (induction pages arbitrary: seen)
  case (Cons page pages)
  let ?key = "\<lambda>r. the (rowKey r pk)"
  obtain new where step: "take_unseen page pk seen = Some (new, seen @ map ?key new)"
    and new: "map ?key new = filter (\<lambda>k. k \<notin> set seen) (uniq (map ?key page))"
    using take_unseen_total [of page pk seen] Cons.prems by auto
  let ?seen = "seen @ map ?key new"
  have d: "distinct ?seen" using Cons.prems(2) new by auto
  have all: "uniq (seen @ map ?key (concat (page # pages))) = uniq (?seen @ map ?key (concat pages))"
  proof -
    have "filter (\<lambda>y. y \<notin> set seen) (filter (\<lambda>y. y \<notin> set (map ?key page)) ks) =
        filter (\<lambda>y. y \<notin> set ?seen) ks" for ks
      by (rule trans [OF filter_filter], rule filter_cong) (auto simp: new)
    then show ?thesis using d Cons.prems(2)
      by (simp only: map_append concat.simps uniq_append uniq_distinct new set_uniq)
         (simp add: uniq_distinct new uniq_append)
  qed
  have fits: "length ?seen \<le> nat m"
    using Cons.prems(3) uniq_append [of ?seen "map ?key (concat pages)"] uniq_distinct [OF d]
    unfolding all by simp
  have adv: "advanceCursor h (Snapshot m) (Snapshot_cursor seen) page pk =
      Some \<lparr>ar_newRows = new, ar_cursor = Snapshot_cursor ?seen\<rparr>"
    using step fits Cons.prems(2) by (simp add: advance_snapshot_def uniq_distinct)
  obtain new' where run: "watch_polls h (Snapshot m) pk (Snapshot_cursor ?seen) pages =
      Some (new', Snapshot_cursor (?seen @ map ?key new'))"
    and new': "map ?key new' = filter (\<lambda>k. k \<notin> set ?seen) (uniq (map ?key (concat pages)))"
    using Cons.IH [OF _ d] Cons.prems(1,3) unfolding all by auto
  have "map ?key (new @ new') = filter (\<lambda>k. k \<notin> set seen) (uniq (map ?key (concat (page # pages))))"
  proof -
    have "filter (\<lambda>k. k \<notin> set ?seen) ks = filter (\<lambda>k. k \<notin> set seen) (filter (\<lambda>k. k \<notin> set (map ?key page)) ks)" for ks
      by (rule sym, rule trans [OF filter_filter], rule filter_cong) (auto simp: new)
    then show ?thesis by (simp add: uniq_append new new')
  qed
  then show ?case using adv run by simp
qed simp

text \<open>
  C23: A snapshot watch emits every key of its table exactly once, whichever pages of it the
  polls are shown and however often, as long as the distinct keys fit the tracked number.
\<close>

theorem snapshot_polls_emit_each_key_once:
  assumes "\<forall>r \<in> set (concat pages). rowKey r pk \<noteq> None"
    and "length (uniq (map (\<lambda>r. the (rowKey r pk)) (concat pages))) \<le> nat maxTracked"
  shows "\<exists>new cur. watch_polls h (Snapshot maxTracked) pk (emptyCursor (Snapshot maxTracked)) pages = Some (new, cur) \<and>
           map (\<lambda>r. the (rowKey r pk)) new = uniq (map (\<lambda>r. the (rowKey r pk)) (concat pages))"
  using snapshot_polls_from [of pages pk "[]" maxTracked h] assms by (auto simp: filter_True)

lemma snapshot_polls_emit_each_key_once_witness:
  "\<exists>new cur. watch_polls plain_host (Snapshot 100) [''id''] (emptyCursor (Snapshot 100)) customer_pages = Some (new, cur) \<and>
     map (\<lambda>r. the (rowKey r [''id''])) new = uniq (map (\<lambda>r. the (rowKey r [''id''])) (concat customer_pages))"
proof (rule snapshot_polls_emit_each_key_once)
  show "\<forall>r \<in> set (concat customer_pages). rowKey r [''id''] \<noteq> None" by code_simp
  show "length (uniq (map (\<lambda>r. the (rowKey r [''id''])) (concat customer_pages))) \<le> nat 100" by code_simp
qed

end
