(* ===== verification/Watch_Poll.thy ===== *)
theory Watch_Poll
  imports Watch Cdc_Pipeline
begin

text \<open>
  The service around the polling engine, \<^verbatim>\<open>apps/api/src/bridges/bridge-watch.service.ts\<close>:
  starting and stopping a listener, one poll (fetch a page, deliver its new rows, park or stop
  on a failure, save the advanced cursor), the cadence, and the cursor a listener starts from.
  What it calls - the adapter, the sink, the metadata store, the dead-letter queue, the echo
  guard, the schema check - is \<open>watch_env\<close>, functions on a world \<open>'w\<close> that every call threads
  through; a call that throws answers \<open>None\<close> or \<open>False\<close>.
\<close>

section \<open>Data\<close>

datatype job_status = Job_queued | Job_running | Job_canceling | Job_paused | Job_failed | Job_canceled

text \<open>The persisted \<^verbatim>\<open>cursorJson\<close>: absent, not JSON, or what reading it gives.\<close>

datatype stored_cursor = No_cursor | Corrupt_cursor | Stored_cursor watch_cursor

text \<open>Why a poll stopped its listener.\<close>

datatype poll_stop =
    Stop_on_error | Stop_failures nat | Stop_queue_full nat | Stop_not_parked | Stop_drift string | Stop_corrupt

record watch_job =
  jb_status :: job_status
  jb_cursor :: stored_cursor
  jb_offset :: nat
  jb_stop :: "poll_stop option"

record watch_bridge =
  wb_enabled :: bool
  wb_trigger :: "watch_trigger option"
  wb_table :: bool
  wb_filters :: "filter_spec list"
  wb_onError :: on_error
  wb_idempotent :: bool

record browse_query =
  bq_filters :: "filter_spec list"
  bq_sort :: "sort_spec list"
  bq_limit :: nat
  bq_offset :: nat
  bq_scan :: "string option"

record browse_page =
  bp_rows :: "row list"
  bp_primaryKey :: "string list"
  bp_hasMore :: bool
  bp_nextCursor :: "string option"

text \<open>What a listener has done to the world outside, in order.\<close>

datatype watch_event =
    We_fetched
  | We_delivered row nat bool
  | We_parked row nat
  | We_dropped row
  | We_sequence nat
  | We_saved watch_strategy watch_cursor "row list" "string list" watch_cursor
  | We_ended job_status

record 'w watch_env =
  we_host :: host
  we_zone :: "int \<Rightarrow> int"
  we_bridge :: watch_bridge
  we_maxFailures :: nat
  we_deadLetterMax :: nat
  we_sha :: "string \<Rightarrow> string"
  we_probe :: "'w \<Rightarrow> string list option \<times> 'w"
  we_cursorPaging :: "'w \<Rightarrow> bool option \<times> 'w"
  we_browse :: "'w \<Rightarrow> browse_query \<Rightarrow> browse_page option \<times> 'w"
  we_echo :: "'w \<Rightarrow> row \<Rightarrow> string list \<Rightarrow> echo_verdict option \<times> 'w"
  we_drift :: "'w \<Rightarrow> string option option \<times> 'w"
  we_deliver :: "'w \<Rightarrow> row \<Rightarrow> string list \<Rightarrow> nat \<Rightarrow> string option \<Rightarrow> delivery_outcome option \<times> 'w"
  we_record :: "'w \<Rightarrow> nat \<Rightarrow> bool \<times> 'w"
  we_pending :: "'w \<Rightarrow> nat option \<times> 'w"
  we_park :: "'w \<Rightarrow> row \<Rightarrow> nat \<Rightarrow> string list \<Rightarrow> bool \<times> 'w"
  we_aborted :: "'w \<Rightarrow> bool \<times> 'w"
  we_write :: "'w \<Rightarrow> bool \<times> 'w"
  we_queueReady :: "'w \<Rightarrow> bool \<times> 'w"

text \<open>
  One bridge's listener: its job in the store, its scheduler in the queue, and the maps the
  service keeps in memory, at this bridge.
\<close>

record 'w watch_state =
  wl_job :: "watch_job option"
  wl_scheduler :: "int option"
  wl_polling :: bool
  wl_streak :: "nat option"
  wl_every :: "int option"
  wl_signature :: "string option"
  wl_pk :: "string list option"
  wl_world :: 'w
  wl_events :: "watch_event list"

definition FAST_MS :: int where "FAST_MS = 1000"
definition COOLDOWN_POLLS :: nat where "COOLDOWN_POLLS = 4"
definition SCAN_PAGES_PER_POLL :: nat where "SCAN_PAGES_PER_POLL = 50"

definition did :: "watch_event \<Rightarrow> 'w watch_state \<Rightarrow> 'w watch_state" where
  "did e st = st\<lparr>wl_events := wl_events st @ [e]\<rparr>"

text \<open>A call of the world; its answer and the state with the world it left.\<close>

definition call :: "('w \<Rightarrow> 'a \<times> 'w) \<Rightarrow> 'w watch_state \<Rightarrow> 'a \<times> 'w watch_state" where
  "call f st = (let (a, w) = f (wl_world st) in (a, st\<lparr>wl_world := w\<rparr>))"

section \<open>The scheduler\<close>

definition schedule :: "int \<Rightarrow> 'w watch_state \<Rightarrow> 'w watch_state" where
  "schedule every st = st\<lparr>wl_scheduler := Some every\<rparr>"

definition unschedule :: "'w watch_state \<Rightarrow> 'w watch_state" where
  "unschedule st = st\<lparr>wl_streak := None, wl_every := None, wl_pk := None, wl_scheduler := None\<rparr>"

definition adapt :: "int \<Rightarrow> bool \<Rightarrow> 'w watch_state \<Rightarrow> 'w watch_state" where
  "adapt idleMs hadRows st =
     (case wl_every st of
        None \<Rightarrow> st
      | Some every \<Rightarrow>
          (let fast = min FAST_MS idleMs;
               streak = (if hadRows then 0 else (case wl_streak st of None \<Rightarrow> 0 | Some n \<Rightarrow> n) + 1);
               desired = (if streak < COOLDOWN_POLLS then fast else idleMs);
               st1 = st\<lparr>wl_streak := Some streak\<rparr>
           in if every \<noteq> desired then schedule desired (st1\<lparr>wl_every := Some desired\<rparr>) else st1))"

section \<open>The job\<close>

text \<open>A write of the job row: it may throw, and then nothing is written.\<close>

definition write_job ::
  "'w watch_env \<Rightarrow> (watch_job \<Rightarrow> watch_job) \<Rightarrow> watch_event option \<Rightarrow> 'w watch_state \<Rightarrow> bool \<times> 'w watch_state" where
  "write_job env f e st =
     (let (ok, st1) = call (we_write env) st
      in if ok then
           (True, (case e of None \<Rightarrow> id | Some v \<Rightarrow> did v) (st1\<lparr>wl_job := map_option f (wl_job st1)\<rparr>))
         else (False, st1))"

definition finalize_job ::
  "'w watch_env \<Rightarrow> job_status \<Rightarrow> poll_stop option \<Rightarrow> 'w watch_state \<Rightarrow> bool \<times> 'w watch_state" where
  "finalize_job env status why =
     write_job env (\<lambda>j. j\<lparr>jb_status := status, jb_stop := why\<rparr>) (Some (We_ended status))"

text \<open>\<^verbatim>\<open>pause\<close> of a poll: stop listening; the page's cursor is not saved.\<close>

definition pause_watch :: "'w watch_env \<Rightarrow> poll_stop \<Rightarrow> 'w watch_state \<Rightarrow> 'w watch_state" where
  "pause_watch env why st = snd (finalize_job env Job_paused (Some why) (unschedule st))"

section \<open>Cursors in the store\<close>

text \<open>\<^verbatim>\<open>JSON.parse(JSON.stringify(v))\<close>; a property that is omitted reads as undefined.\<close>

fun json_round :: "jsval \<Rightarrow> jsval" where
  "json_round (JDate d) = (case d of None \<Rightarrow> JNull | Some ms \<Rightarrow> JStr (to_iso_string ms))"
| "json_round (JNum n) = (if is_finite n then JNum n else JNull)"
| "json_round JUnchanged = JUndefined"
| "json_round (JBytes bs) =
     JObj [(''type'', JStr ''Buffer''), (''data'', JArr (map (\<lambda>b. JNum (Num (of_nat b))) bs))]"
| "json_round (JArr vs) = JArr (map (\<lambda>v. if is_nil v \<or> v = JUnchanged then JNull else json_round v) vs)"
| "json_round (JObj fs) =
     JObj (map (\<lambda>(k, v). (k, json_round v)) (filter (\<lambda>(k, v). v \<noteq> JUndefined \<and> v \<noteq> JUnchanged) fs))"
| "json_round v = v"

definition cursor_object :: "watch_cursor \<Rightarrow> jsval" where
  "cursor_object c =
     (let col = (\<lambda>x. case x of None \<Rightarrow> JUndefined | Some s \<Rightarrow> JStr s)
      in case c of
           Increment_cursor v x \<Rightarrow>
             JObj [(''strategy'', JStr ''increment''), (''value'', v), (''column'', col x)]
         | Timestamp_cursor ts keys x \<Rightarrow>
             JObj [(''strategy'', JStr ''timestamp''), (''ts'', ts), (''boundaryKeys'', JArr (map JStr keys)),
                   (''column'', col x)]
         | Snapshot_cursor ks \<Rightarrow>
             JObj [(''strategy'', JStr ''snapshot''), (''seen'', JArr (map JStr ks))])"

fun persisted :: "watch_cursor \<Rightarrow> watch_cursor" where
  "persisted (Increment_cursor v x) = Increment_cursor (json_round v) x"
| "persisted (Timestamp_cursor ts keys x) = Timestamp_cursor (json_round ts) keys x"
| "persisted (Snapshot_cursor ks) = Snapshot_cursor ks"

definition save_cursor ::
  "'w watch_env \<Rightarrow> watch_cursor \<Rightarrow> nat \<Rightarrow> watch_event \<Rightarrow> 'w watch_state \<Rightarrow> bool \<times> 'w watch_state" where
  "save_cursor env c seq e st =
     (case js_stringify (cursor_object c) of
        JText _ \<Rightarrow>
          write_job env (\<lambda>j. j\<lparr>jb_cursor := Stored_cursor (persisted c), jb_offset := seq\<rparr>)
            (Some e) st
      | _ \<Rightarrow> (False, st))"

fun cursor_strategy_matches :: "watch_strategy \<Rightarrow> watch_cursor \<Rightarrow> bool" where
  "cursor_strategy_matches (Increment c) (Increment_cursor _ col) = (col = None \<or> col = Some c)"
| "cursor_strategy_matches (Timestamp c _) (Timestamp_cursor _ _ col) = (col = None \<or> col = Some c)"
| "cursor_strategy_matches (Snapshot _) (Snapshot_cursor _) = True"
| "cursor_strategy_matches _ _ = False"

definition cursorMatches :: "watch_bridge \<Rightarrow> stored_cursor \<Rightarrow> bool" where
  "cursorMatches b c =
     (case (wb_trigger b, c) of
        (Some t, Stored_cursor cur) \<Rightarrow> cursor_strategy_matches (wt_strategy t) cur
      | _ \<Rightarrow> False)"

section \<open>One row of a poll\<close>

datatype 'a poll_step = Poll_threw | Poll_over | Poll_on 'a

record poll_vars =
  pv_cursor :: watch_cursor
  pv_seq :: nat
  pv_delivered :: nat
  pv_offset :: nat
  pv_scan :: "string option"
  pv_failures :: nat

definition column_signature :: "row \<Rightarrow> string" where
  "column_signature r = join_with [char_of (0::nat)] (sort (map fst r))"

definition idempotencyKey ::
  "'w watch_env \<Rightarrow> watch_strategy \<Rightarrow> row \<Rightarrow> string list \<Rightarrow> string option" where
  "idempotencyKey env s r pk =
     (let tracked = (case s of Timestamp c _ \<Rightarrow> row_get r c | _ \<Rightarrow> JNull)
      in case (stamp_text (we_host env) tracked, rowKey r pk) of
           (Some salt, Some k) \<Rightarrow> Some (take 32 (we_sha env (k @ [char_of (0::nat)] @ salt)))
         | _ \<Rightarrow> None)"

text \<open>What becomes of a row whose delivery failed; \<open>Poll_on\<close>: it was parked.\<close>

definition failed_row ::
  "'w watch_env \<Rightarrow> row \<Rightarrow> delivery_outcome \<Rightarrow> poll_vars \<Rightarrow> 'w watch_state \<Rightarrow> poll_vars poll_step \<times> 'w watch_state"
where
  "failed_row env r out v st =
     (if wb_onError (we_bridge env) = On_error_abort then (Poll_over, pause_watch env Stop_on_error st)
      else
        (let failures = pv_failures v + 1
         in if we_maxFailures env \<le> failures then (Poll_over, pause_watch env (Stop_failures failures) st)
            else
              (let (held, st1) = call (we_pending env) st
               in case held of
                    None \<Rightarrow> (Poll_threw, st1)
                  | Some n \<Rightarrow>
                      if we_deadLetterMax env < n + 1 then (Poll_over, pause_watch env (Stop_queue_full n) st1)
                      else
                        (let (ok, st2) = call (\<lambda>w. we_park env w r (pv_seq v)
                               (case oc_succeededTargets out of None \<Rightarrow> [] | Some ts \<Rightarrow> ts)) st1
                         in if \<not> ok then (Poll_over, pause_watch env Stop_not_parked st2)
                            else (Poll_on (v\<lparr>pv_failures := failures\<rparr>), did (We_parked r (pv_seq v)) st2)))))"

text \<open>The sequence is checkpointed as soon as its row is settled.\<close>

definition next_sequence ::
  "'w watch_env \<Rightarrow> poll_vars \<Rightarrow> 'w watch_state \<Rightarrow> poll_vars poll_step \<times> 'w watch_state" where
  "next_sequence env v st =
     (let seq = pv_seq v + 1;
          (ok, st1) = write_job env (\<lambda>j. j\<lparr>jb_offset := seq\<rparr>) (Some (We_sequence seq)) st
      in if ok then (Poll_on (v\<lparr>pv_seq := seq\<rparr>), st1) else (Poll_threw, st1))"

definition deliver_row ::
  "'w watch_env \<Rightarrow> watch_strategy \<Rightarrow> string list \<Rightarrow> row \<Rightarrow> string list \<Rightarrow> poll_vars \<Rightarrow> 'w watch_state \<Rightarrow>
     poll_vars poll_step \<times> 'w watch_state"
where
  "deliver_row env s pk r origins v st =
     (let idem = (if wb_idempotent (we_bridge env) then idempotencyKey env s r pk else None)
      in if wb_idempotent (we_bridge env) \<and> idem = None then (Poll_threw, st)
         else
           (let (answer, st1) = call (\<lambda>w. we_deliver env w r origins (pv_seq v) idem) st
            in case answer of
                 None \<Rightarrow> (Poll_threw, st1)
               | Some out \<Rightarrow>
                   (let (ok, st2) = call (\<lambda>w. we_record env w (pv_seq v)) (did (We_delivered r (pv_seq v) (oc_success out)) st1)
                    in if \<not> ok then (Poll_threw, st2)
                       else
                         (case (if oc_success out then (Poll_on (v\<lparr>pv_failures := 0\<rparr>), st2)
                                else failed_row env r out v st2) of
                            (Poll_on v1, st3) \<Rightarrow> next_sequence env v1 st3
                          | other \<Rightarrow> other))))"

definition poll_row ::
  "'w watch_env \<Rightarrow> watch_strategy \<Rightarrow> string list \<Rightarrow> row \<Rightarrow> poll_vars \<Rightarrow> 'w watch_state \<Rightarrow>
     poll_vars poll_step \<times> 'w watch_state"
where
  "poll_row env s pk r v st =
     (let (stop, st0) = call (we_aborted env) st
      in if stop then (Poll_over, st0)
         else
           (let (verdict, st1) = call (\<lambda>w. we_echo env w r pk) st0
            in case verdict of
                 None \<Rightarrow> (Poll_threw, st1)
               | Some Echo_drop \<Rightarrow> (Poll_on v, did (We_dropped r) st1)
               | Some e \<Rightarrow>
                   (let origins = (case e of Echo_carry os \<Rightarrow> os | _ \<Rightarrow> []);
                        sig = column_signature r;
                        go = (\<lambda>st'. deliver_row env s pk r origins v (st'\<lparr>wl_signature := Some sig\<rparr>))
                    in if wl_signature st1 \<noteq> None \<and> wl_signature st1 \<noteq> Some sig
                       then
                         (let (d, st2) = call (we_drift env) st1
                          in case d of
                               None \<Rightarrow> (Poll_threw, st2)
                             | Some None \<Rightarrow> go st2
                             | Some (Some why) \<Rightarrow>
                                 (let (ok, st3) = finalize_job env Job_failed (Some (Stop_drift why)) st2
                                  in if ok then (Poll_over, (unschedule st3)\<lparr>wl_signature := None\<rparr>)
                                     else (Poll_threw, st3)))
                       else go st1)))"

fun poll_rows ::
  "'w watch_env \<Rightarrow> watch_strategy \<Rightarrow> string list \<Rightarrow> row list \<Rightarrow> poll_vars \<Rightarrow> 'w watch_state \<Rightarrow>
     poll_vars poll_step \<times> 'w watch_state"
where
  "poll_rows env s pk [] v st = (Poll_on v, st)"
| "poll_rows env s pk (r # rs) v st =
     (case poll_row env s pk r v st of
        (Poll_on v1, st1) \<Rightarrow> poll_rows env s pk rs v1 st1
      | other \<Rightarrow> other)"

section \<open>A poll\<close>

definition poll_limit :: "watch_trigger \<Rightarrow> nat" where
  "poll_limit t =
     (case wt_strategy t of Snapshot m \<Rightarrow> nat (min m 1000) | _ \<Rightarrow> nat (wt_maxPerPoll t))"

text \<open>
  Where the loop looks next, and whether it goes round again: by the engine's own cursor, into
  the next page of a boundary that is denser than a page, or at the top of the new window.
\<close>

definition next_page :: "bool \<Rightarrow> nat \<Rightarrow> browse_page \<Rightarrow> bool \<Rightarrow> poll_vars \<Rightarrow> poll_vars \<times> bool" where
  "next_page byCursor pageLimit page stuck v =
     (if byCursor then
        (case bp_nextCursor page of
           None \<Rightarrow> (v, False)
         | Some c \<Rightarrow> if bp_hasMore page \<and> c \<noteq> [] then (v\<lparr>pv_scan := Some c\<rparr>, True) else (v, False))
      else if length (bp_rows page) < pageLimit then (v, False)
      else if stuck then (v\<lparr>pv_offset := pv_offset v + length (bp_rows page)\<rparr>, True)
      else (v\<lparr>pv_offset := 0\<rparr>, True))"

text \<open>One page: its rows, then the cursor; \<open>Poll_on (v, again)\<close>: whether the loop goes round again.\<close>

definition poll_page ::
  "'w watch_env \<Rightarrow> watch_trigger \<Rightarrow> string list \<Rightarrow> bool \<Rightarrow> poll_vars \<Rightarrow> 'w watch_state \<Rightarrow>
     (poll_vars \<times> bool) poll_step \<times> 'w watch_state"
where
  "poll_page env t pk byCursor v st =
     (let s = wt_strategy t; pageLimit = min (poll_limit t) 1000; (stop, st0) = call (we_aborted env) st
      in if stop then (Poll_over, st0)
         else
           (case watchQuery (we_host env) (we_zone env) s (pv_cursor v) pk of
              None \<Rightarrow> (Poll_threw, st0)
            | Some (fs, so) \<Rightarrow>
                (let query = \<lparr>bq_filters = wb_filters (we_bridge env) @ fs, bq_sort = so, bq_limit = pageLimit,
                              bq_offset = (if byCursor then 0 else pv_offset v),
                              bq_scan = (if byCursor then Some (case pv_scan v of None \<Rightarrow> ''0'' | Some c \<Rightarrow> c) else None)\<rparr>;
                     (answer, st1) = call (\<lambda>w. we_browse env w query) (did We_fetched st0)
                 in case answer of
                      None \<Rightarrow> (Poll_threw, st1)
                    | Some page \<Rightarrow>
                        (let effPk = (if pk \<noteq> [] then pk else bp_primaryKey page)
                         in case advanceCursor (we_host env) s (pv_cursor v) (bp_rows page) effPk of
                              None \<Rightarrow> (Poll_threw, st1)
                            | Some a \<Rightarrow>
                                (case poll_rows env s effPk (ar_newRows a) v st1 of
                                   (Poll_threw, st2) \<Rightarrow> (Poll_threw, st2)
                                 | (Poll_over, st2) \<Rightarrow> (Poll_over, st2)
                                 | (Poll_on v1, st2) \<Rightarrow>
                                     (let (stop2, st3) = call (we_aborted env) st2
                                      in if stop2 then (Poll_over, st3)
                                         else
                                           (let advanced = (js_stringify (cursor_object (ar_cursor a)) \<noteq>
                                                  js_stringify (cursor_object (pv_cursor v)));
                                                v2 = v1\<lparr>pv_cursor := ar_cursor a,
                                                        pv_delivered := pv_delivered v1 + length (ar_newRows a)\<rparr>;
                                                (ok, st4) = save_cursor env (ar_cursor a) (pv_seq v1)
                                                  (We_saved s (pv_cursor v) (bp_rows page) effPk (ar_cursor a)) st3
                                            in if \<not> ok then (Poll_threw, st4)
                                               else (Poll_on (next_page byCursor pageLimit page
                                                       (ar_newRows a = [] \<and> \<not> advanced) v2), st4))))))))"

text \<open>The loop; its budget is the pages that are left.\<close>

fun poll_pages ::
  "'w watch_env \<Rightarrow> watch_trigger \<Rightarrow> string list \<Rightarrow> bool \<Rightarrow> nat \<Rightarrow> poll_vars \<Rightarrow> 'w watch_state \<Rightarrow>
     poll_vars poll_step \<times> 'w watch_state"
where
  "poll_pages env t pk byCursor 0 v st = (Poll_on v, st)"
| "poll_pages env t pk byCursor (Suc pages) v st =
     (if pv_delivered v < poll_limit t then
        (case poll_page env t pk byCursor v st of
           (Poll_on (v1, again), st1) \<Rightarrow>
             (if again then poll_pages env t pk byCursor pages v1 st1 else (Poll_on v1, st1))
         | (Poll_over, st1) \<Rightarrow> (Poll_over, st1)
         | (Poll_threw, st1) \<Rightarrow> (Poll_threw, st1))
      else (Poll_on v, st))"

definition resolvePk :: "'w watch_env \<Rightarrow> 'w watch_state \<Rightarrow> string list option \<times> 'w watch_state" where
  "resolvePk env st =
     (case wl_pk st of
        Some pk \<Rightarrow> (Some pk, st)
      | None \<Rightarrow>
          (let (answer, st1) = call (we_probe env) st
           in case answer of None \<Rightarrow> (None, st1) | Some pk \<Rightarrow> (Some pk, st1\<lparr>wl_pk := Some pk\<rparr>)))"

fun is_snapshot :: "watch_strategy \<Rightarrow> bool" where
  "is_snapshot (Snapshot _) = True"
| "is_snapshot _ = False"

definition poll_from ::
  "'w watch_env \<Rightarrow> watch_trigger \<Rightarrow> watch_cursor \<Rightarrow> nat \<Rightarrow> 'w watch_state \<Rightarrow> unit poll_step \<times> 'w watch_state" where
  "poll_from env t cur seq st =
     (let (probed, st1) = resolvePk env st
      in case probed of
           None \<Rightarrow> (Poll_threw, st1)
         | Some pk \<Rightarrow>
             (let (paging, st2) = (if is_snapshot (wt_strategy t) then call (we_cursorPaging env) st1 else (Some False, st1))
              in case paging of
                   None \<Rightarrow> (Poll_threw, st2)
                 | Some byCursor \<Rightarrow>
                     (let v = \<lparr>pv_cursor = cur, pv_seq = seq, pv_delivered = 0, pv_offset = 0,
                               pv_scan = (if byCursor then Some ''0'' else None), pv_failures = 0\<rparr>
                      in case poll_pages env t pk byCursor SCAN_PAGES_PER_POLL v st2 of
                           (Poll_on v1, st3) \<Rightarrow> (Poll_on (), adapt (wt_pollIntervalMs t) (0 < pv_delivered v1) st3)
                         | (Poll_over, st3) \<Rightarrow> (Poll_over, st3)
                         | (Poll_threw, st3) \<Rightarrow> (Poll_threw, st3))))"

definition runPoll :: "'w watch_env \<Rightarrow> 'w watch_state \<Rightarrow> unit poll_step \<times> 'w watch_state" where
  "runPoll env st =
     (case wl_job st of
        None \<Rightarrow> (Poll_over, unschedule st)
      | Some j \<Rightarrow>
          if jb_status j \<noteq> Job_running \<or> jb_cursor j = No_cursor then (Poll_over, unschedule st)
          else if \<not> wb_enabled (we_bridge env) \<or> wb_trigger (we_bridge env) = None \<or> \<not> wb_table (we_bridge env)
          then (let (ok, st1) = finalize_job env Job_canceled None st
                in if ok then (Poll_over, unschedule st1) else (Poll_threw, st1))
          else
            (case jb_cursor j of
               Stored_cursor cur \<Rightarrow> poll_from env (the (wb_trigger (we_bridge env))) cur (jb_offset j) st
             | _ \<Rightarrow> (let (ok, st1) = finalize_job env Job_failed (Some Stop_corrupt) st
                    in if ok then (Poll_over, unschedule st1) else (Poll_threw, st1))))"

text \<open>
  \<^verbatim>\<open>poll\<close>: never two at once. The lock across processes is the caller's; whatever the
  poll threw is logged.
\<close>

definition poll :: "'w watch_env \<Rightarrow> 'w watch_state \<Rightarrow> 'w watch_state" where
  "poll env st =
     (if wl_polling st then st
      else (snd (runPoll env (st\<lparr>wl_polling := True\<rparr>)))\<lparr>wl_polling := False\<rparr>)"

section \<open>Where a listener starts\<close>

definition browse_for_seed ::
  "'w watch_env \<Rightarrow> filter_spec list \<Rightarrow> sort_spec list \<Rightarrow> nat \<Rightarrow> nat \<Rightarrow> string option \<Rightarrow> 'w watch_state \<Rightarrow>
     browse_page option \<times> 'w watch_state"
where
  "browse_for_seed env fs so limit off scan =
     call (\<lambda>w. we_browse env w \<lparr>bq_filters = wb_filters (we_bridge env) @ fs, bq_sort = so, bq_limit = limit,
                                bq_offset = off, bq_scan = scan\<rparr>)"

definition descending :: "string \<Rightarrow> sort_spec" where
  "descending c = \<lparr>so_column = c, so_descending = True\<rparr>"

text \<open>The newest value of the column: a page of one row.\<close>

definition newest_value :: "'w watch_env \<Rightarrow> string \<Rightarrow> 'w watch_state \<Rightarrow> jsval option \<times> 'w watch_state" where
  "newest_value env c st =
     (let (answer, st1) = browse_for_seed env [] [descending c] 1 0 None st
      in (case answer of
            None \<Rightarrow> None
          | Some page \<Rightarrow> Some (case bp_rows page of [] \<Rightarrow> JUndefined | r # _ \<Rightarrow> row_get r c), st1))"

definition page_keys :: "(row \<Rightarrow> string list \<Rightarrow> string option) \<Rightarrow> string list \<Rightarrow> browse_page \<Rightarrow> string list option" where
  "page_keys key pk page =
     those (map (\<lambda>r. key r (if pk \<noteq> [] then pk else bp_primaryKey page)) (bp_rows page))"

text \<open>The keys of the rows at the newest timestamp, at most 20 pages of 1,000.\<close>

fun seed_boundary ::
  "'w watch_env \<Rightarrow> string \<Rightarrow> jsval \<Rightarrow> string list \<Rightarrow> nat \<Rightarrow> nat \<Rightarrow> string list \<Rightarrow> 'w watch_state \<Rightarrow>
     string list option \<times> 'w watch_state"
where
  "seed_boundary env c ts pk 0 off acc st = (Some acc, st)"
| "seed_boundary env c ts pk (Suc pages) off acc st =
     (let (answer, st1) = browse_for_seed env [\<lparr>f_column = c, f_operator = Gte, f_value = ts\<rparr>]
            (ascending c # map ascending (filter (\<lambda>k. k \<noteq> c) pk)) 1000 off None st
      in case answer of
           None \<Rightarrow> (None, st1)
         | Some page \<Rightarrow>
             (case page_keys (\<lambda>r ks. emittedKey (we_host env) r ks c) pk page of
                None \<Rightarrow> (None, st1)
              | Some ks \<Rightarrow>
                  if length (bp_rows page) < 1000 then (Some (acc @ ks), st1)
                  else seed_boundary env c ts pk pages (off + 1000) (acc @ ks) st1))"

text \<open>The keys there are, walked by the engine's own cursor: a scan that never ends is \<open>None\<close>.\<close>

partial_function (option) seed_scan ::
  "'w watch_env \<Rightarrow> nat \<Rightarrow> string list \<Rightarrow> string option \<Rightarrow> string list \<Rightarrow> 'w watch_state \<Rightarrow>
     (string list option \<times> 'w watch_state) option"
where
  "seed_scan env m pk scan acc st =
     (case scan of
        None \<Rightarrow> Some (Some (take m acc), st)
      | Some s \<Rightarrow>
          if m \<le> length acc then Some (Some (take m acc), st)
          else
            (case browse_for_seed env [] [] (min (m - length acc) 1000) 0 (Some s) st of
               (None, st1) \<Rightarrow> Some (None, st1)
             | (Some page, st1) \<Rightarrow>
                 (case page_keys rowKey pk page of
                    None \<Rightarrow> Some (None, st1)
                  | Some ks \<Rightarrow>
                      seed_scan env m pk (if bp_hasMore page then bp_nextCursor page else None) (acc @ ks) st1)))"

function seed_pages ::
  "'w watch_env \<Rightarrow> nat \<Rightarrow> string list \<Rightarrow> nat \<Rightarrow> string list \<Rightarrow> 'w watch_state \<Rightarrow> string list option \<times> 'w watch_state"
where
  "seed_pages env m pk off acc st =
     (if off < m then
        (case browse_for_seed env [] (map ascending pk) (min (m - off) 1000) off None st of
           (None, st1) \<Rightarrow> (None, st1)
         | (Some page, st1) \<Rightarrow>
             (case page_keys rowKey pk page of
                None \<Rightarrow> (None, st1)
              | Some ks \<Rightarrow>
                  if length (bp_rows page) < 1000 then (Some (acc @ ks), st1)
                  else seed_pages env m pk (off + 1000) (acc @ ks) st1))
      else (Some acc, st))"
  by pat_completeness auto

termination
  by (relation "measure (\<lambda>(env, m, pk, off, acc, st). m - off)") auto

declare seed_pages.simps [simp del]

definition initial_increment :: "'w watch_env \<Rightarrow> string \<Rightarrow> 'w watch_state \<Rightarrow> watch_cursor option \<times> 'w watch_state" where
  "initial_increment env c st =
     (let (answer, st1) = newest_value env c st
      in (map_option (\<lambda>v. Increment_cursor (if is_nil v then JNull else v) (Some c)) answer, st1))"

definition initial_timestamp :: "'w watch_env \<Rightarrow> watch_strategy \<Rightarrow> string \<Rightarrow> 'w watch_state \<Rightarrow> watch_cursor option \<times> 'w watch_state" where
  "initial_timestamp env s c st =
     (let (answer, st1) = newest_value env c st
      in case answer of
           None \<Rightarrow> (None, st1)
         | Some maxTs \<Rightarrow>
             if is_nil maxTs then (Some (emptyCursor s), st1)
             else
               (case resolvePk env st1 of
                  (None, st2) \<Rightarrow> (None, st2)
                | (Some pk, st2) \<Rightarrow>
                    (case seed_boundary env c maxTs pk 20 0 [] st2 of
                       (None, st3) \<Rightarrow> (None, st3)
                     | (Some ks, st3) \<Rightarrow>
                         (map_option (\<lambda>ts. Timestamp_cursor ts ks (Some c)) (serializeTs maxTs), st3))))"

definition initial_snapshot ::
  "'w watch_env \<Rightarrow> nat \<Rightarrow> 'w watch_state \<Rightarrow> (watch_cursor option \<times> 'w watch_state) option" where
  "initial_snapshot env m st =
     (case resolvePk env st of
        (None, st1) \<Rightarrow> Some (None, st1)
      | (Some pk, st1) \<Rightarrow>
          (case call (we_cursorPaging env) st1 of
             (None, st2) \<Rightarrow> Some (None, st2)
           | (Some byCursor, st2) \<Rightarrow>
               map_option (\<lambda>(ks, st3). (map_option Snapshot_cursor ks, st3))
                 (if byCursor then seed_scan env m pk (Some ''0'') [] st2
                  else Some (seed_pages env m pk 0 [] st2))))"

text \<open>\<^verbatim>\<open>initialCursor\<close>; the outer \<open>None\<close>: it does not return.\<close>

definition initialCursor ::
  "'w watch_env \<Rightarrow> watch_trigger \<Rightarrow> 'w watch_state \<Rightarrow> (watch_cursor option \<times> 'w watch_state) option" where
  "initialCursor env t st =
     (if wt_fromBeginning t then Some (Some (emptyCursor (wt_strategy t)), st)
      else
        (case wt_strategy t of
           Increment c \<Rightarrow> Some (initial_increment env c st)
         | Timestamp c l \<Rightarrow> Some (initial_timestamp env (Timestamp c l) c st)
         | Snapshot m \<Rightarrow> initial_snapshot env (nat m) st))"

section \<open>Start and stop\<close>

datatype start_result = Started | Not_listening | Not_a_table | Already_running | Drifted string | Queue_down | Start_threw

definition active_status :: "job_status \<Rightarrow> bool" where
  "active_status s = (s = Job_queued \<or> s = Job_running \<or> s = Job_canceling)"

text \<open>A job that runs again keeps its cursor, unless the strategy has changed since.\<close>

definition begin_job ::
  "'w watch_env \<Rightarrow> watch_trigger \<Rightarrow> 'w watch_state \<Rightarrow> (bool \<times> 'w watch_state) option" where
  "begin_job env t st =
     (let fresh = (\<lambda>keep. case initialCursor env t st of
            None \<Rightarrow> None
          | Some (None, st1) \<Rightarrow> Some (False, st1)
          | Some (Some c, st1) \<Rightarrow>
              (case js_stringify (cursor_object c) of
                 JText _ \<Rightarrow>
                   (let (ok, st2) = call (we_write env) st1;
                        j = \<lparr>jb_status = Job_running, jb_cursor = Stored_cursor (persisted c), jb_offset = keep, jb_stop = None\<rparr>
                    in Some (ok, if ok then st2\<lparr>wl_job := Some j\<rparr> else st2))
               | _ \<Rightarrow> Some (False, st1)))
      in case wl_job st of
           None \<Rightarrow> fresh 0
         | Some j \<Rightarrow>
             if jb_cursor j = No_cursor then fresh 0
             else if cursorMatches (we_bridge env) (jb_cursor j)
             then Some (write_job env (\<lambda>j. j\<lparr>jb_status := Job_running, jb_stop := None\<rparr>) None st)
             else fresh (jb_offset j))"

definition start ::
  "'w watch_env \<Rightarrow> 'w watch_state \<Rightarrow> (start_result \<times> 'w watch_state) option" where
  "start env st =
     (case wb_trigger (we_bridge env) of
        None \<Rightarrow> Some (Not_listening, st)
      | Some t \<Rightarrow>
          if \<not> wb_table (we_bridge env) then Some (Not_a_table, st)
          else if (case wl_job st of None \<Rightarrow> False | Some j \<Rightarrow> active_status (jb_status j)) then Some (Already_running, st)
          else
            (case call (we_drift env) st of
               (None, st1) \<Rightarrow> Some (Start_threw, st1)
             | (Some (Some why), st1) \<Rightarrow> Some (Drifted why, st1)
             | (Some None, st1) \<Rightarrow>
                 (let (ready, st2) = call (we_queueReady env) (st1\<lparr>wl_signature := None\<rparr>)
                  in if \<not> ready then Some (Queue_down, st2)
                     else
                       (case begin_job env t st2 of
                          None \<Rightarrow> None
                        | Some (False, st3) \<Rightarrow> Some (Start_threw, st3)
                        | Some (True, st3) \<Rightarrow>
                            (let fast = min FAST_MS (wt_pollIntervalMs t)
                             in Some (Started, schedule fast (st3\<lparr>wl_streak := Some 0, wl_every := Some fast\<rparr>)))))))"

definition stop :: "'w watch_env \<Rightarrow> 'w watch_state \<Rightarrow> 'w watch_state" where
  "stop env st =
     (let st1 = unschedule st
      in case wl_job st1 of
           None \<Rightarrow> st1
         | Some j \<Rightarrow> if active_status (jb_status j) then snd (finalize_job env Job_paused None st1) else st1)"

section \<open>Every saved cursor follows its rows\<close>

text \<open>
  A row is settled when it was delivered, parked, or recognised as this instance's own write.
  \<open>saves_ok\<close>: each saved cursor is the one the engine advanced to over a page, and the rows it
  called new are the last ones settled since the cursor saved before.
\<close>

fun settle_of :: "watch_event \<Rightarrow> row list" where
  "settle_of (We_delivered r n True) = [r]"
| "settle_of (We_parked r n) = [r]"
| "settle_of (We_dropped r) = [r]"
| "settle_of _ = []"

fun unsaved :: "row list \<Rightarrow> watch_event list \<Rightarrow> row list" where
  "unsaved acc [] = acc"
| "unsaved acc (We_saved s old page pk c # es) = unsaved [] es"
| "unsaved acc (e # es) = unsaved (acc @ settle_of e) es"

definition ends_in :: "'a list \<Rightarrow> 'a list \<Rightarrow> bool" where
  "ends_in xs ys = (drop (length xs - length ys) xs = ys)"

lemma ends_in_append [simp]: "ends_in (xs @ ys) ys"
  by (simp add: ends_in_def)

definition save_ok :: "host \<Rightarrow> row list \<Rightarrow> watch_strategy \<Rightarrow> watch_cursor \<Rightarrow> row list \<Rightarrow> string list \<Rightarrow> watch_cursor \<Rightarrow> bool" where
  "save_ok h acc s old page pk c =
     (case advanceCursor h s old page pk of
        None \<Rightarrow> False
      | Some a \<Rightarrow> ar_cursor a = c \<and> ends_in acc (ar_newRows a))"

fun saves_ok :: "host \<Rightarrow> row list \<Rightarrow> watch_event list \<Rightarrow> bool" where
  "saves_ok h acc [] = True"
| "saves_ok h acc (We_saved s old page pk c # es) = (save_ok h acc s old page pk c \<and> saves_ok h [] es)"
| "saves_ok h acc (e # es) = saves_ok h (acc @ settle_of e) es"

lemma saves_ok_append: "saves_ok h acc (xs @ ys) = (saves_ok h acc xs \<and> saves_ok h (unsaved acc xs) ys)"
  by (induction h acc xs rule: saves_ok.induct) auto

lemma unsaved_append: "unsaved acc (xs @ ys) = unsaved (unsaved acc xs) ys"
  by (induction acc xs rule: unsaved.induct) auto

fun is_save :: "watch_event \<Rightarrow> bool" where
  "is_save (We_saved s old page pk c) = True"
| "is_save _ = False"

definition fetches :: "watch_event list \<Rightarrow> nat" where
  "fetches es = length (filter (\<lambda>e. e = We_fetched) es)"

text \<open>A stretch of work that saves no cursor, settles \<open>rs\<close> and fetches \<open>n\<close> pages.\<close>

definition works :: "row list \<Rightarrow> nat \<Rightarrow> 'w watch_state \<Rightarrow> 'w watch_state \<Rightarrow> bool" where
  "works rs n st st' =
     (\<exists>es. wl_events st' = wl_events st @ es \<and> \<not> list_ex is_save es \<and>
           concat (map settle_of es) = rs \<and> fetches es = n)"

lemma quiet_saves: "\<not> list_ex is_save es \<Longrightarrow> saves_ok h acc es \<and> unsaved acc es = acc @ concat (map settle_of es)"
proof (induction es arbitrary: acc)
  case (Cons e es)
  then show ?case by (cases e) simp_all
qed simp

lemma works_same: "wl_events st' = wl_events st \<Longrightarrow> works [] 0 st st'"
  by (simp add: works_def fetches_def)

lemma works_trans: "works rs n st st1 \<Longrightarrow> works rs' n' st1 st2 \<Longrightarrow> works (rs @ rs') (n + n') st st2"
  by (fastforce simp: works_def fetches_def)

lemma works_trans0: "works rs 0 st st1 \<Longrightarrow> works rs' 0 st1 st2 \<Longrightarrow> works (rs @ rs') 0 st st2"
  using works_trans [of rs 0 st st1 rs' 0 st2] by simp

lemma works_event: "\<not> is_save e \<Longrightarrow> works (settle_of e) (if e = We_fetched then 1 else 0) st (did e st)"
  by (simp add: works_def did_def fetches_def)

lemma events_call [simp]: "wl_events (snd (call f st)) = wl_events st"
  by (simp add: call_def split: prod.splits)

lemma events_plain [simp]:
  "wl_events (schedule i st) = wl_events st" "wl_events (unschedule st) = wl_events st"
  "wl_events (did e st) = wl_events st @ [e]"
  by (simp_all add: schedule_def unschedule_def did_def)

lemma events_adapt [simp]: "wl_events (adapt i b st) = wl_events st"
  by (simp add: adapt_def Let_def split: option.split)

lemma call_events: "call f st = (a, st') \<Longrightarrow> wl_events st' = wl_events st"
  by (metis events_call snd_conv)

lemma write_job_events:
  "write_job env f e st = (ok, st') \<Longrightarrow>
     wl_events st' = wl_events st @ (if ok then (case e of None \<Rightarrow> [] | Some v \<Rightarrow> [v]) else [])"
  by (auto simp: write_job_def Let_def dest!: call_events split: prod.splits if_splits option.splits)

lemma finalize_works: "finalize_job env s why st = (ok, st') \<Longrightarrow> works [] 0 st st'"
proof -
  assume "finalize_job env s why st = (ok, st')"
  then have "wl_events st' = wl_events st @ (if ok then [We_ended s] else [])"
    unfolding finalize_job_def by (drule_tac write_job_events) simp
  then show ?thesis by (simp add: works_def fetches_def)
qed

lemma pause_works: "works [] 0 st (pause_watch env why st)"
proof -
  obtain ok st' where f: "finalize_job env Job_paused (Some why) (unschedule st) = (ok, st')" by fastforce
  then have "works [] 0 (unschedule st) st'" by (rule finalize_works)
  then show ?thesis using f by (simp add: pause_watch_def works_def)
qed

text \<open>What a step settles when the poll goes on, and that it saves nothing in any case.\<close>

definition row_works :: "row list \<Rightarrow> 'w watch_state \<Rightarrow> 'a poll_step \<times> 'w watch_state \<Rightarrow> bool" where
  "row_works rs st res =
     (case res of (Poll_on v, st') \<Rightarrow> works rs 0 st st' | (_, st') \<Rightarrow> (\<exists>rs'. works rs' 0 st st'))"

lemma row_works_on: "works rs 0 st st' \<Longrightarrow> row_works rs st (Poll_on v, st')"
  by (simp add: row_works_def)

lemma row_works_end: "works rs 0 st st' \<Longrightarrow> row_works qs st (Poll_threw, st') \<and> row_works qs st (Poll_over, st')"
  by (auto simp: row_works_def)

lemma row_works_after: "works rs 0 st st1 \<Longrightarrow> row_works rs' st1 res \<Longrightarrow> row_works (rs @ rs') st res"
  by (cases res; cases "fst res") (auto simp: row_works_def intro: works_trans0)

lemma row_works_same: "row_works rs st1 res \<Longrightarrow> wl_events st1 = wl_events st \<Longrightarrow> row_works rs st res"
  using row_works_after [of "[]" st st1 rs res] works_same by fastforce

lemma failed_row_works: "row_works [r] st (failed_row env r out v st)"
proof -
  have park: "row_works [r] st (Poll_on v', did (We_parked r n) st2)" if "wl_events st2 = wl_events st" for v' n st2
    using that works_event [of "We_parked r n" st2] by (simp add: row_works_def works_def)
  have paused: "row_works [r] st (Poll_over, pause_watch env why st')" if "wl_events st' = wl_events st" for why st'
    using row_works_end [OF works_trans0 [OF works_same [OF that] pause_works]] by blast
  show ?thesis
    unfolding failed_row_def Let_def
    by (auto simp: paused split: prod.splits option.splits dest!: call_events intro!: park
        intro: paused row_works_end [THEN conjunct1, OF works_same])
qed

lemma next_sequence_works: "row_works [] st (next_sequence env v st)"
proof -
  obtain ok st' where w: "write_job env (\<lambda>j. j\<lparr>jb_offset := pv_seq v + 1\<rparr>) (Some (We_sequence (pv_seq v + 1))) st = (ok, st')"
    by fastforce
  then have "wl_events st' = wl_events st @ (if ok then [We_sequence (pv_seq v + 1)] else [])"
    by (drule_tac write_job_events) simp
  then show ?thesis using w by (simp add: next_sequence_def Let_def row_works_def works_def fetches_def)
qed

lemma deliver_row_works: "row_works [r] st (deliver_row env s pk r origins v st)"
proof -
  obtain idem where idem: "idem = (if wb_idempotent (we_bridge env) then idempotencyKey env s r pk else None)" by blast
  obtain answer st1 where c1: "call (\<lambda>w. we_deliver env w r origins (pv_seq v) idem) st = (answer, st1)" by fastforce
  have e1: "wl_events st1 = wl_events st" using c1 by (rule call_events)
  have threw: "row_works [r] st (Poll_threw, st')" if "works rs 0 st st'" for rs st'
    using row_works_end [OF that] by blast
  show ?thesis
  proof (cases "answer = None \<or> (wb_idempotent (we_bridge env) \<and> idem = None)")
    case True
    then show ?thesis
      using c1 idem threw [OF works_same [OF refl]] threw [OF works_same [OF e1]]
      by (auto simp: deliver_row_def Let_def split: option.splits)
  next
    case False
    then obtain out where out: "answer = Some out" by auto
    let ?st1 = "did (We_delivered r (pv_seq v) (oc_success out)) st1"
    obtain ok st2 where c2: "call (\<lambda>w. we_record env w (pv_seq v)) ?st1 = (ok, st2)" by fastforce
    have w2: "works (settle_of (We_delivered r (pv_seq v) (oc_success out))) 0 st st2"
      using e1 call_events [OF c2] works_event [of "We_delivered r (pv_seq v) (oc_success out)" st1]
      by (simp add: works_def)
    let ?res = "if oc_success out then (Poll_on (v\<lparr>pv_failures := 0\<rparr>), st2) else failed_row env r out v st2"
    have res: "row_works [r] st ?res"
    proof (cases "oc_success out")
      case True
      then show ?thesis using w2 by (simp add: row_works_def)
    next
      case False
      then have "works [] 0 st st2" using w2 by simp
      then have "row_works ([] @ [r]) st (failed_row env r out v st2)" by (rule row_works_after [OF _ failed_row_works])
      then show ?thesis using False by simp
    qed
    have plan: "deliver_row env s pk r origins v st =
        (if \<not> ok then (Poll_threw, st2) else case ?res of (Poll_on v1, st3) \<Rightarrow> next_sequence env v1 st3 | other \<Rightarrow> other)"
      using c1 c2 False out by (simp add: deliver_row_def Let_def idem [symmetric]) auto
    show ?thesis
    proof (cases "ok")
      case True
      obtain x st3 where r: "?res = (x, st3)" by fastforce
      show ?thesis
      proof (cases x)
        case (Poll_on v1)
        then have "works [r] 0 st st3" using res r by (simp add: row_works_def)
        then have "row_works ([r] @ []) st (next_sequence env v1 st3)"
          using next_sequence_works by (rule row_works_after)
        then show ?thesis using plan True r Poll_on by simp
      qed (use plan True r res in auto)
    qed (use plan threw [OF w2] in simp)
  qed
qed

lemma poll_row_works: "row_works [r] st (poll_row env s pk r v st)"
proof -
  obtain stop st0 where c0: "call (we_aborted env) st = (stop, st0)" by fastforce
  obtain verdict st1 where c1: "call (\<lambda>w. we_echo env w r pk) st0 = (verdict, st1)" by fastforce
  obtain d st2 where c2: "call (we_drift env) st1 = (d, st2)" by fastforce
  have e: "wl_events st0 = wl_events st" "wl_events st1 = wl_events st" "wl_events st2 = wl_events st"
    using call_events [OF c0] call_events [OF c1] call_events [OF c2] by simp_all
  have ends: "row_works [r] st (Poll_threw, st')" "row_works [r] st (Poll_over, st')" if "works rs 0 st st'" for rs st'
    using row_works_end [OF that] by blast+
  have go: "row_works [r] st (deliver_row env s pk r origins v (st'\<lparr>wl_signature := sig\<rparr>))"
    if "wl_events st' = wl_events st" for origins st' sig
    by (rule row_works_same [OF deliver_row_works]) (simp add: that)
  have dropped: "row_works [r] st (Poll_on v, did (We_dropped r) st1)"
    using works_event [of "We_dropped r" st1] e(2) by (simp add: row_works_def works_def)
  have drifted: "row_works [r] st
      (let (ok, st3) = finalize_job env Job_failed (Some (Stop_drift why)) st2
       in if ok then (Poll_over, (unschedule st3)\<lparr>wl_signature := None\<rparr>) else (Poll_threw, st3))" for why
  proof -
    obtain ok st3 where f: "finalize_job env Job_failed (Some (Stop_drift why)) st2 = (ok, st3)" by fastforce
    have w: "works [] 0 st st3" using finalize_works [OF f] e(3) by (simp add: works_def)
    then have "works [] 0 st ((unschedule st3)\<lparr>wl_signature := None\<rparr>)" by (simp add: works_def)
    then show ?thesis using f w by (auto intro: ends)
  qed
  show ?thesis
    unfolding poll_row_def c0 c1 c2 Let_def prod.case
    using ends [OF works_same [OF e(1)]] ends [OF works_same [OF e(2)]] ends [OF works_same [OF e(3)]]
      go [OF e(2)] go [OF e(3)] dropped drifted [unfolded Let_def]
    by (auto split: option.splits echo_verdict.splits)
qed

lemma poll_rows_work: "row_works rs st (poll_rows env s pk rs v st)"
proof (induction rs arbitrary: v st)
  case Nil
  then show ?case by (simp add: row_works_def works_same)
next
  case (Cons r rs)
  obtain x st1 where r: "poll_row env s pk r v st = (x, st1)" by fastforce
  have w: "row_works [r] st (x, st1)" using poll_row_works [of r st env s pk v] r by simp
  show ?case
  proof (cases x)
    case (Poll_on v1)
    then have "works [r] 0 st st1" using w by (simp add: row_works_def)
    then have "row_works ([r] @ rs) st (poll_rows env s pk rs v1 st1)" using Cons.IH by (rule row_works_after)
    then show ?thesis using r Poll_on by simp
  qed (use w r in \<open>auto simp: row_works_def\<close>)
qed

text \<open>A stretch that keeps every save in order and fetches at most \<open>n\<close> pages.\<close>

definition orderly :: "host \<Rightarrow> nat \<Rightarrow> 'w watch_state \<Rightarrow> 'w watch_state \<Rightarrow> bool" where
  "orderly h n st st' =
     ((saves_ok h [] (wl_events st) \<longrightarrow> saves_ok h [] (wl_events st')) \<and>
      fetches (wl_events st') \<le> fetches (wl_events st) + n)"

lemma orderly_same: "wl_events st' = wl_events st \<Longrightarrow> orderly h n st st'"
  by (simp add: orderly_def)

lemma orderly_trans: "orderly h n st st1 \<Longrightarrow> orderly h m st1 st2 \<Longrightarrow> orderly h (n + m) st st2"
  by (auto simp: orderly_def)

lemma orderly_mono: "orderly h n st st' \<Longrightarrow> n \<le> m \<Longrightarrow> orderly h m st st'"
  by (auto simp: orderly_def)

lemma fetches_append [simp]: "fetches (xs @ ys) = fetches xs + fetches ys"
  by (simp add: fetches_def)

lemma works_orderly: "works rs n st st' \<Longrightarrow> orderly h n st st'"
  using quiet_saves by (auto simp: works_def orderly_def saves_ok_append)

lemma works_save:
  assumes "works rs 0 st st1" and "wl_events st2 = wl_events st1 @ [We_saved s old page pk c]"
    and "advanceCursor h s old page pk = Some a" and "ar_cursor a = c" and "ar_newRows a = rs"
  shows "orderly h 0 st st2"
proof -
  obtain es where es: "wl_events st1 = wl_events st @ es" "\<not> list_ex is_save es"
    "concat (map settle_of es) = rs" "fetches es = 0"
    using assms(1) by (auto simp: works_def)
  have "saves_ok h (unsaved [] (wl_events st)) es" "unsaved (unsaved [] (wl_events st)) es = unsaved [] (wl_events st) @ rs"
    using quiet_saves [OF es(2)] es(3) by auto
  then show ?thesis
    using es assms(2-5) by (simp add: orderly_def saves_ok_append unsaved_append save_ok_def fetches_def)
qed

lemma save_cursor_events:
  assumes "save_cursor env c seq e st = (ok, st')"
  shows "wl_events st' = wl_events st @ (if ok then [e] else [])"
proof (cases "\<exists>t. js_stringify (cursor_object c) = JText t")
  case True
  then obtain t where "js_stringify (cursor_object c) = JText t" by blast
  then have "write_job env (\<lambda>j. j\<lparr>jb_cursor := Stored_cursor (persisted c), jb_offset := seq\<rparr>) (Some e) st = (ok, st')"
    using assms by (simp add: save_cursor_def)
  then show ?thesis by (drule_tac write_job_events) simp
next
  case False
  then show ?thesis using assms by (cases "js_stringify (cursor_object c)") (auto simp: save_cursor_def)
qed

lemma poll_page_orderly: "orderly (we_host env) 1 st (snd (poll_page env t pk byCursor v st))"
proof -
  let ?h = "we_host env" and ?s = "wt_strategy t"
  obtain stop st0 where c0: "call (we_aborted env) st = (stop, st0)" by fastforce
  have e0: "wl_events st0 = wl_events st" using c0 by (rule call_events)
  show ?thesis
  proof (cases "stop \<or> watchQuery ?h (we_zone env) ?s (pv_cursor v) pk = None")
    case True
    then show ?thesis using c0 orderly_same [OF e0] by (auto simp: poll_page_def Let_def)
  next
    case False
    then obtain fs so where q: "watchQuery ?h (we_zone env) ?s (pv_cursor v) pk = Some (fs, so)" and go: "\<not> stop" by auto
    define query where "query = \<lparr>bq_filters = wb_filters (we_bridge env) @ fs, bq_sort = so,
      bq_limit = min (poll_limit t) 1000, bq_offset = (if byCursor then 0 else pv_offset v),
      bq_scan = (if byCursor then Some (case pv_scan v of None \<Rightarrow> ''0'' | Some c \<Rightarrow> c) else None)\<rparr>"
    obtain answer st1 where c1: "call (\<lambda>w. we_browse env w query) (did We_fetched st0) = (answer, st1)" by fastforce
    have "works [] 1 st0 st1" using works_event [of We_fetched st0] call_events [OF c1] by (simp add: works_def)
    then have w1: "orderly ?h 1 st st1"
      using orderly_trans [OF orderly_same [OF e0, of ?h 0] works_orderly] by fastforce
    show ?thesis
    proof (cases "answer = None \<or>
        (\<exists>page. answer = Some page \<and>
           advanceCursor ?h ?s (pv_cursor v) (bp_rows page) (if pk \<noteq> [] then pk else bp_primaryKey page) = None)")
      case True
      then show ?thesis using c0 q go c1 w1 unfolding poll_page_def Let_def query_def by auto
    next
      case False
      then obtain page a where page: "answer = Some page"
        and a: "advanceCursor ?h ?s (pv_cursor v) (bp_rows page) (if pk \<noteq> [] then pk else bp_primaryKey page) = Some a"
        by auto
      define effPk where "effPk = (if pk \<noteq> [] then pk else bp_primaryKey page)"
      obtain x st2 where rows: "poll_rows env ?s effPk (ar_newRows a) v st1 = (x, st2)" by fastforce
      have rw: "row_works (ar_newRows a) st1 (x, st2)"
        using poll_rows_work [of "ar_newRows a" st1 env ?s effPk v] rows by simp
      have two: "orderly ?h 1 st st'" if "orderly ?h 0 st1 st'" for st'
        using orderly_trans [OF w1 that] by simp
      have w2: "orderly ?h 0 st1 st2" using rw works_orderly by (cases x) (auto simp: row_works_def)
      show ?thesis
      proof (cases x)
        case (Poll_on v1)
        obtain stop2 st3 where c3: "call (we_aborted env) st2 = (stop2, st3)" by fastforce
        obtain ok st4 where sv: "save_cursor env (ar_cursor a) (pv_seq v1)
            (We_saved ?s (pv_cursor v) (bp_rows page) effPk (ar_cursor a)) st3 = (ok, st4)" by fastforce
        have e3: "wl_events st3 = wl_events st2" using c3 by (rule call_events)
        have w3: "works (ar_newRows a) 0 st1 st3" using rw Poll_on e3 by (simp add: row_works_def works_def)
        have w4: "orderly ?h 0 st1 st4"
        proof (cases ok)
          case True
          then show ?thesis
            using works_save [OF w3 _ a [folded effPk_def] refl refl, of st4] save_cursor_events [OF sv] by simp
        next
          case False
          then have "wl_events st4 = wl_events st3" using save_cursor_events [OF sv] by simp
          then show ?thesis using works_orderly [OF w3, of ?h] by (simp add: orderly_def)
        qed
        have end3: "orderly ?h 1 st st3" using two [OF works_orderly [OF w3]] .
        have "snd (poll_page env t pk byCursor v st) = (if stop2 then st3 else st4)"
          using c0 go q c1 page a rows Poll_on c3 sv
          unfolding poll_page_def Let_def query_def effPk_def by (auto split: option.splits)
        then show ?thesis using end3 two [OF w4] by simp
      qed (use c0 go q c1 page a rows two [OF w2] in
          \<open>simp_all add: poll_page_def Let_def query_def effPk_def\<close>)
    qed
  qed
qed

lemma poll_pages_orderly: "orderly (we_host env) n st (snd (poll_pages env t pk byCursor n v st))"
proof (induction n arbitrary: v st)
  case 0
  then show ?case by (simp add: orderly_same)
next
  case (Suc n)
  obtain x st1 where p: "poll_page env t pk byCursor v st = (x, st1)" by fastforce
  have w: "orderly (we_host env) 1 st st1" using poll_page_orderly [of env st t pk byCursor v] p by simp
  have more: "orderly (we_host env) (Suc n) st (snd (poll_pages env t pk byCursor n v' st1))" for v'
    using orderly_trans [OF w Suc.IH] by simp
  show ?case
    using p orderly_mono [OF w] more by (auto simp: orderly_same split: poll_step.splits)
qed

lemma resolvePk_events: "wl_events (snd (resolvePk env st)) = wl_events st"
  by (auto simp: resolvePk_def Let_def dest!: call_events split: option.splits prod.splits)

lemma poll_from_orderly: "orderly (we_host env) SCAN_PAGES_PER_POLL st (snd (poll_from env t cur seq st))"
proof -
  obtain probed st1 where r: "resolvePk env st = (probed, st1)" by fastforce
  obtain paging st2 where c: "(if is_snapshot (wt_strategy t) then call (we_cursorPaging env) st1 else (Some False, st1)) = (paging, st2)"
    by fastforce
  have e1: "wl_events st1 = wl_events st" using resolvePk_events [of env st] r by simp
  have e2: "wl_events st2 = wl_events st" using c e1 by (auto dest: call_events split: if_splits)
  have pages: "orderly (we_host env) SCAN_PAGES_PER_POLL st st3"
    if "poll_pages env t pk b SCAN_PAGES_PER_POLL v st2 = (x, st3)" for pk b v x st3
    using poll_pages_orderly [of env SCAN_PAGES_PER_POLL st2 t pk b v] that e2 by (simp add: orderly_def)
  have adapted: "orderly h n st st' \<Longrightarrow> orderly h n st (adapt i b st')" for h n st' i b
    by (simp add: orderly_def)
  show ?thesis
  proof (cases probed)
    case None
    then show ?thesis using r e1 by (simp add: poll_from_def orderly_same)
  next
    case pk: (Some pk)
    show ?thesis
    proof (cases paging)
      case None
      then show ?thesis using r c pk e2 by (simp add: poll_from_def orderly_same)
    next
      case byCursor: (Some byCursor)
      obtain x st3 where x: "poll_pages env t pk byCursor SCAN_PAGES_PER_POLL
          \<lparr>pv_cursor = cur, pv_seq = seq, pv_delivered = 0, pv_offset = 0,
            pv_scan = (if byCursor then Some ''0'' else None), pv_failures = 0\<rparr> st2 = (x, st3)" by fastforce
      show ?thesis using r c pk byCursor x pages [OF x] adapted by (cases x) (simp_all add: poll_from_def)
    qed
  qed
qed

lemma orderly_events: "orderly h n st st1 \<Longrightarrow> wl_events st2 = wl_events st1 \<Longrightarrow> orderly h n st st2"
  by (simp add: orderly_def)

lemma finalize_orderly: "finalize_job env s why st = (ok, st') \<Longrightarrow> orderly h n st st'"
  using works_orderly [OF finalize_works] orderly_mono by blast

lemma poll_orderly: "orderly (we_host env) SCAN_PAGES_PER_POLL st (poll env st)"
proof -
  have run: "orderly (we_host env) SCAN_PAGES_PER_POLL st (snd (runPoll env st))" for st :: "'a watch_state"
    using poll_from_orderly
    by (auto simp: runPoll_def Let_def orderly_same split: option.splits prod.splits stored_cursor.splits
        dest!: finalize_orderly [of _ _ _ _ _ _ "we_host env" SCAN_PAGES_PER_POLL] intro: orderly_events)
  have "orderly (we_host env) SCAN_PAGES_PER_POLL st (snd (runPoll env (st\<lparr>wl_polling := True\<rparr>)))"
    using run [of "st\<lparr>wl_polling := True\<rparr>"] by (simp add: orderly_def)
  then show ?thesis by (auto simp: poll_def orderly_same intro: orderly_events)
qed

section \<open>Starting and stopping save nothing\<close>

lemma browse_events: "browse_for_seed env fs so l off sc st = (a, st') \<Longrightarrow> wl_events st' = wl_events st"
  unfolding browse_for_seed_def by (rule call_events)

lemma seed_boundary_events:
  "seed_boundary env c ts pk n off acc st = (ks, st') \<Longrightarrow> wl_events st' = wl_events st"
proof (induction n arbitrary: off acc st)
  case (Suc n)
  obtain a st1 where b: "browse_for_seed env [\<lparr>f_column = c, f_operator = Gte, f_value = ts\<rparr>]
      (ascending c # map ascending (filter (\<lambda>k. k \<noteq> c) pk)) 1000 off None st = (a, st1)" by fastforce
  have e: "wl_events st1 = wl_events st" using b by (rule browse_events)
  show ?case using Suc.prems Suc.IH [of _ _ st1] b e by (auto split: option.splits if_splits)
qed simp

lemma seed_scan_events:
  assumes "seed_scan env m pk scan acc st = Some res"
  shows "wl_events (snd res) = wl_events st"
proof (rule seed_scan.raw_induct [where P = "\<lambda>env m pk scan acc st res. wl_events (snd res) = wl_events st", OF _ assms])
  fix rec :: "'a watch_env \<Rightarrow> nat \<Rightarrow> string list \<Rightarrow> string option \<Rightarrow> string list \<Rightarrow> 'a watch_state \<Rightarrow>
      (string list option \<times> 'a watch_state) option"
    and env m pk scan acc st res
  assume IH: "\<And>env m pk scan acc st res. rec env m pk scan acc st = Some res \<Longrightarrow> wl_events (snd res) = wl_events st"
    and run: "(case scan of
        None \<Rightarrow> Some (Some (take m acc), st)
      | Some s \<Rightarrow>
          if m \<le> length acc then Some (Some (take m acc), st)
          else
            (case browse_for_seed env [] [] (min (m - length acc) 1000) 0 (Some s) st of
               (None, st1) \<Rightarrow> Some (None, st1)
             | (Some page, st1) \<Rightarrow>
                 (case page_keys rowKey pk page of
                    None \<Rightarrow> Some (None, st1)
                  | Some ks \<Rightarrow>
                      rec env m pk (if bp_hasMore page then bp_nextCursor page else None) (acc @ ks) st1))) = Some res"
  show "wl_events (snd res) = wl_events st"
  proof (cases scan)
    case (Some s)
    obtain a st1 where b: "browse_for_seed env [] [] (min (m - length acc) 1000) 0 (Some s) st = (a, st1)" by fastforce
    have e: "wl_events st1 = wl_events st" using b by (rule browse_events)
    have step: "rec env m pk sc acc' st1 = Some res \<Longrightarrow> wl_events (snd res) = wl_events st" for sc acc'
      using IH [of env m pk sc acc' st1 res] e by simp
    show ?thesis
    proof (cases "m \<le> length acc")
      case True
      then show ?thesis using run Some by auto
    next
      case False
      note body = run [unfolded Some option.case b prod.case if_not_P [OF False]]
      show ?thesis
      proof (cases a)
        case None
        then show ?thesis using body e by auto
      next
        case (Some page)
        show ?thesis
        proof (cases "page_keys rowKey pk page")
          case None
          then show ?thesis using body Some e by auto
        next
          case (Some ks)
          then show ?thesis using body \<open>a = Some page\<close> step by simp
        qed
      qed
    qed
  qed (use run in auto)
qed

lemma seed_pages_events:
  "seed_pages env m pk off acc st = (ks, st') \<Longrightarrow> wl_events st' = wl_events st"
proof (induction env m pk off acc st rule: seed_pages.induct)
  case (1 env m pk off acc st)
  obtain a st1 where b: "browse_for_seed env [] (map ascending pk) (min (m - off) 1000) off None st = (a, st1)" by fastforce
  have e: "wl_events st1 = wl_events st" using b by (rule browse_events)
  show ?case
    using 1 b e by (auto simp: seed_pages.simps [of env m pk off acc st] split: option.splits if_splits)
qed

lemma newest_value_events: "newest_value env c st = (a, st') \<Longrightarrow> wl_events st' = wl_events st"
  by (auto simp: newest_value_def Let_def dest!: browse_events split: prod.splits)

lemma resolvePk_events': "resolvePk env st = (a, st') \<Longrightarrow> wl_events st' = wl_events st"
  using resolvePk_events [of env st] by simp

lemma initialCursor_events: "initialCursor env t st = Some (c, st') \<Longrightarrow> wl_events st' = wl_events st"
  by (auto simp: initialCursor_def initial_increment_def initial_timestamp_def initial_snapshot_def Let_def
      dest!: newest_value_events resolvePk_events' seed_boundary_events seed_pages_events seed_scan_events call_events
      split: if_splits watch_strategy.splits prod.splits option.splits)

lemma begin_job_events:
  assumes "begin_job env t st = Some (ok, st')"
  shows "wl_events st' = wl_events st"
proof -
  have wrote: "wl_events st2 = wl_events st" if "write_job env f None st = (b, st2)" for f b st2
    using write_job_events [OF that] by simp
  show ?thesis
    using assms
    by (auto simp: begin_job_def Let_def dest!: initialCursor_events call_events wrote
        split: option.splits if_splits prod.splits json_out.splits)
qed

lemma start_events: "start env st = Some (r, st') \<Longrightarrow> wl_events st' = wl_events st"
  by (auto simp: start_def Let_def dest!: begin_job_events call_events
      split: option.splits if_splits prod.splits bool.splits)

lemma stop_orderly: "orderly h 0 st (stop env st)"
proof -
  have "orderly h 0 st st'" if "finalize_job env Job_paused None (unschedule st) = (ok, st')" for ok st'
    using finalize_orderly [OF that, of h 0] by (simp add: orderly_def)
  then show ?thesis
    by (cases "finalize_job env Job_paused None (unschedule st)")
       (auto simp: stop_def Let_def orderly_same split: option.splits)
qed

section \<open>A listener's life\<close>

text \<open>
  What can happen to a listener, in any order: it is started, it polls, it is stopped. The
  bridge's settings, and what the world answers, may be others each time; the process's
  reading of dates is one. The job a listener begins with may be any.
\<close>

inductive listening :: "host \<Rightarrow> 'w watch_state \<Rightarrow> bool" for h where
  found: "wl_events st = [] \<Longrightarrow> listening h st"
| started: "listening h st \<Longrightarrow> we_host env = h \<Longrightarrow> start env st = Some (r, st') \<Longrightarrow> listening h st'"
| polled: "listening h st \<Longrightarrow> we_host env = h \<Longrightarrow> listening h (poll env st)"
| stopped: "listening h st \<Longrightarrow> we_host env = h \<Longrightarrow> listening h (stop env st)"

inductive_simps found_simp: "listening h st"


text \<open>
  C25: A poll always comes to its end and fetches at most 50 pages, also when a boundary is
  denser than a page, the table is larger than the tracked keys, or the engine's scan never
  says it is done.
\<close>

theorem poll_fetches_at_most_its_budget:
  "fetches (wl_events (poll env st)) \<le> fetches (wl_events st) + 50"
  using poll_orderly [of env st] by (simp add: orderly_def SCAN_PAGES_PER_POLL_def)

text \<open>
  A listener of a table that holds two rows, whose destination refuses the first one; the
  world counts the pages fetched.
\<close>

definition toy_trigger :: watch_trigger where
  "toy_trigger = \<lparr>wt_strategy = Snapshot 100, wt_pollIntervalMs = 5000, wt_fromBeginning = True, wt_maxPerPoll = 10\<rparr>"

definition toy_watch :: "nat watch_env" where
  "toy_watch =
     \<lparr>we_host = plain_host, we_zone = (\<lambda>_. 0),
      we_bridge = \<lparr>wb_enabled = True, wb_trigger = Some toy_trigger, wb_table = True, wb_filters = [],
                   wb_onError = On_error_continue, wb_idempotent = False\<rparr>,
      we_maxFailures = 3, we_deadLetterMax = 10, we_sha = id,
      we_probe = (\<lambda>w. (Some [''id''], w)), we_cursorPaging = (\<lambda>w. (Some False, w)),
      we_browse = (\<lambda>w q. (Some \<lparr>bp_rows = [customer ''a'' 1, customer ''b'' 2], bp_primaryKey = [''id''],
                                bp_hasMore = False, bp_nextCursor = None\<rparr>, Suc w)),
      we_echo = (\<lambda>w r pk. (Some Not_echo, w)), we_drift = (\<lambda>w. (Some None, w)),
      we_deliver = (\<lambda>w r os n idem. (Some \<lparr>oc_success = (r \<noteq> customer ''a'' 1), oc_attempts = 1,
                                     oc_error = None, oc_succeededTargets = None\<rparr>, w)),
      we_record = (\<lambda>w n. (True, w)), we_pending = (\<lambda>w. (Some 0, w)), we_park = (\<lambda>w r n ts. (True, w)),
      we_aborted = (\<lambda>w. (False, w)), we_write = (\<lambda>w. (True, w)), we_queueReady = (\<lambda>w. (True, w))\<rparr>"

definition toy_listener :: "nat watch_state" where
  "toy_listener =
     \<lparr>wl_job = Some \<lparr>jb_status = Job_running, jb_cursor = Stored_cursor (Snapshot_cursor []), jb_offset = 0, jb_stop = None\<rparr>,
      wl_scheduler = Some 1000, wl_polling = False, wl_streak = Some 0, wl_every = Some 1000, wl_signature = None,
      wl_pk = None, wl_world = 0, wl_events = []\<rparr>"

lemma toy_poll_events:
  "wl_events (poll toy_watch toy_listener) =
     [We_fetched, We_delivered (customer ''a'' 1) 0 False, We_parked (customer ''a'' 1) 0, We_sequence 1,
      We_delivered (customer ''b'' 2) 1 True, We_sequence 2,
      We_saved (Snapshot 100) (Snapshot_cursor []) [customer ''a'' 1, customer ''b'' 2] [''id'']
        (Snapshot_cursor [''[\"a\"]'', ''[\"b\"]''])]"
  by code_simp


end
