(* ===== verification/Spec2Isabelle.thy ===== *)
theory Spec2Isabelle
  imports Schema_Drift Value_Map Statement_Safety Cdc_Spool Watch_Poll
begin

text \<open>
  A verification development for Syncle, which copies rows between databases. A \<^emph>\<open>bridge\<close>
  reads the changes of one source table and writes them to a destination: another database, or
  an HTTP endpoint. The sources are TypeScript; paths below are relative to the repository.

  \<^bold>\<open>The program.\<close> A live (CDC) bridge runs \<^verbatim>\<open>apps/api/src/bridges/bridge-cdc.service.ts\<close>
  over a provider for the source's engine (\<^verbatim>\<open>cdc/providers\<close>). A provider hands over changes,
  each with the cursor of its position in the source's log; the service filters them, gathers
  them into batches, delivers a batch at a time through the sink, records what happened, parks
  rows that cannot be delivered in the dead-letter queue (after \<^verbatim>\<open>cdc/isolate-failures.ts\<close> has
  found which rows those are), saves the cursor, and only then lets the provider confirm the
  position to the source. A polling (watch) bridge runs \<^verbatim>\<open>bridge-watch.service.ts\<close> over the
  engine of \<^verbatim>\<open>packages/core/src/bridges/watch.ts\<close>, which turns pages of a query into new rows and
  a cursor. Both shape a row before it is sent: column transforms, projection onto the target's
  columns, a Redis key, a payload template. \<^verbatim>\<open>packages/core/src/bridges\<close> also holds what a bridge
  is checked with: its configuration, its schedule, drift of the source's schema, translation of
  column types, and the comparison of the two sides.

  \<^bold>\<open>The theories\<close>, in the order of their imports.

  \<^item> \<open>Prelude\<close>: insertion-ordered sets and maps of JavaScript as lists, number text, string
    operations; the collections \<open>js_set_simps\<close> and \<open>js_map_simps\<close>.
  \<^item> \<open>Js_Value\<close>, \<open>Json_Parse\<close>, \<open>Json_Text\<close>: the values rows hold (\<open>jsval\<close>), doubles with their
    rounding (\<open>round64\<close>), dates, \<^verbatim>\<open>String\<close>, \<^verbatim>\<open>Number\<close>, \<^verbatim>\<open>JSON.stringify\<close>, \<^verbatim>\<open>JSON.parse\<close>; a scanner
    of brackets shows that no key text is a proper beginning of another.
  \<^item> \<open>Template\<close> (\<^verbatim>\<open>transform.ts\<close>): \<open>renderRow\<close>, \<open>renderBatch\<close>, \<open>templateColumns\<close>. A row cannot
    change the shape of a payload, and only reported columns are read.
  \<^item> \<open>Column_Transforms\<close> (\<^verbatim>\<open>column-transforms.ts\<close>, \<^verbatim>\<open>row-shaping.ts\<close>): a step is a constructor of
    \<open>column_transform\<close>, a list of steps is folded over a row. What types and nullability the
    static functions promise, against what the values are.
  \<^item> \<open>Filter_Match\<close> (\<^verbatim>\<open>cdc/filter-match.ts\<close>): the source filters on a change row.
  \<^item> \<open>Row_Codec\<close> (\<^verbatim>\<open>row-codec.ts\<close>): the row codec of the dead-letter queue, with its round trip.
  \<^item> \<open>Redis_Target\<close> (\<^verbatim>\<open>redis-target.ts\<close>), \<open>Schedule\<close> (\<^verbatim>\<open>schedule.ts\<close>), \<open>Bridge_Config\<close>
    (\<^verbatim>\<open>bridge-config.ts\<close>, \<^verbatim>\<open>bridge.ts\<close>), \<open>Schema_Drift\<close> (\<^verbatim>\<open>schema-drift.ts\<close>), \<open>Type_Map\<close>
    (\<^verbatim>\<open>type-map.ts\<close>): the checks and the projection. Drift rests on projection: a column not
    reported as used cannot change what is written.
  \<^item> \<open>Row_Compare\<close> (\<^verbatim>\<open>row-compare.ts\<close>): whether a destination's row is the source's, per kind of column,
    and the one spelling of a key. The comparison is symmetric and finds no drift in a true copy.
  \<^item> \<open>Calendar\<close> and \<open>Value_Map\<close> (\<^verbatim>\<open>value-map.ts\<close>): a value of one engine's driver made into another's,
    column by column, and the instants that survive it.
  \<^item> \<open>Statement_Safety\<close> (\<^verbatim>\<open>statement-safety.ts\<close>): the masking of a text, the judgement of its
    statements, and when it is called a read.
  \<^item> \<open>Isolate_Failures\<close> (\<^verbatim>\<open>cdc/isolate-failures.ts\<close>): segments, splitting, and the breadth-first
    loop with its give-up rules.
  \<^item> \<open>Cursor_Order\<close> (\<^verbatim>\<open>cdc/cdc-provider.ts\<close>): the locale \<open>cursor_order\<close>, the law of
    \<^verbatim>\<open>cursorAfter\<close> a provider gives the pipeline. \<open>Postgres_Lsn\<close> (\<^verbatim>\<open>providers/postgres-lsn.ts\<close>)
    holds the positions and interprets it on the real comparison.
  \<^item> \<open>Postgres_Stream\<close> (\<^verbatim>\<open>providers/postgres-cdc.provider.ts\<close>, \<^verbatim>\<open>startStream\<close>): decoding of WAL
    messages, \<open>handed\<close> items, and the step relation of one subscription (messages, confirmations
    and keepalives in any order). Positions strictly increase, and the server is never told a
    position past an undelivered change.
  \<^item> \<open>Cdc_Pipeline\<close> (\<^verbatim>\<open>bridge-cdc.service.ts\<close>): the state \<open>job\<close>, the calls out as the record
    \<open>cdc_env\<close>, one definition per method on the direct path (accept, flush, timers, deliver,
    isolate, settle, park, checkpoint, stop) and the step relation over them. No row is lost, a
    stop is final, batches are well formed, pending rows leave, and the whole is a queue.
  \<^item> \<open>Cdc_Spool\<close> (\<^verbatim>\<open>cdc/cdc-spool.service.ts\<close>, the spooled path of \<^verbatim>\<open>bridge-cdc.service.ts\<close>): changes
    appended to a Redis stream before their position is saved, and the consumer that delivers and
    trims them. Redis is a parameter; what is trimmed has landed.
  \<^item> \<open>Watch\<close> (\<^verbatim>\<open>watch.ts\<close>) and \<open>Watch_Poll\<close> (\<^verbatim>\<open>bridge-watch.service.ts\<close>): the query and the cursor of
    a poll, and the listener around them.
  \<^item> \<open>Spec2Isabelle\<close>: the PostgreSQL stream feeding the pipeline, and the guarantee end to end.

  \<^bold>\<open>Conventions.\<close> What throws is \<open>None\<close>, an error value is a constructor. Code that is not under
  \<^verbatim>\<open>src/\<close> is a parameter: SHA-256 (\<open>ct_hash\<close>), \<^verbatim>\<open>Date.parse\<close> and a date's text (\<open>host\<close>), the
  process's time zone, whether a zone or a URL is known, the destination, the store, the drivers.
  A record of such calls acts on a world of its own type, which every call threads through, so
  the theorems hold whatever it answers. Strings are 8-bit characters, read as ASCII; \<^verbatim>\<open>bigint\<close> is
  \<open>int\<close>; a double is the rational it stands for.

  \<^bold>\<open>Bounds and fuel.\<close> No loop of the code is cut short. Recursions whose end is a matter of the
  data are \<open>function\<close> with a measure; those that count are given the code's own bounds: the poll
  scans at most \<open>SCAN_PAGES\<close> pages (proved to be enough: \<open>poll_fetches_at_most_its_budget\<close>), the
  isolation loop is \<open>partial_function\<close> and is proved to return (\<open>isolate_budget\<close>). The JSON parser
  counts down from the length of its text, and array suffixes of a type name are taken off at
  most as often as the name has characters; every turn takes at least one away, so neither can
  run out.

  \<^bold>\<open>Not modelled.\<close> The web application and the site are presentation. The adapters
  (\<^verbatim>\<open>packages/core/src/adapters\<close>) build and send queries: what they do is decided by the servers.
  The MySQL, MongoDB, Redis and snapshot providers, the shared replication slot,
  the sink's HTTP and database halves, the services for jobs,
  replays, verification, transfers, retention, alerts, connections, settings and accounts, and
  what starts and elects the processes, are driver and store calls around the parts above. In the
  modelled services the same calls are parameters. The manifest lists every part and what of it
  is left out.
\<close>

section \<open>From the WAL to the destination\<close>

text \<open>What the PostgreSQL reader hands over is what the pipeline is fed.\<close>

fun feed_of :: "handed \<Rightarrow> feed" where
  "feed_of (Hand_change op r c k) =
     Feed_change \<lparr>ch_op = op, ch_row = r, ch_cursor = c, ch_keyChanged = k\<rparr>"
| "feed_of (Hand_notice c) = Feed_notice c"
| "feed_of (Hand_skip c) = Feed_skip c"

definition postgres_feed :: "pg_reader \<Rightarrow> wal_txn list \<Rightarrow> feed list" where
  "postgres_feed rd ts = map feed_of (decode_all rd None (concat (map txn_messages ts)))"

lemma feed_of_cursor [simp]: "feed_cursor (feed_of h) = handed_cursor h"
  by (cases h) simp_all

lemma postgres_feed_ok:
  assumes "wal_ok ts" and "env_after env = lsnAfter"
  shows "feed_ok env (postgres_feed rd ts)"
  using stream_increasing [OF assms(1), of rd] assms(2)
  by (simp add: feed_ok_def postgres_feed_def stream_cursors_def pg.increasing_def sorted_wrt_map)

text \<open>
  C1: End to end over PostgreSQL. Whatever WAL the server sends, whatever the bridge captures,
  and whatever the destination, the store, the timers and the network do: every change the WAL
  holds for the bridge that is not after the saved position was passed on purpose or is a row of
  a finished batch, and all of those rows were delivered or parked.
\<close>
theorem postgres_to_destination:
  assumes "wal_ok ts" and "env_after env = lsnAfter" and "reads_table env"
    and "pipeline env (postgres_feed rd ts) (stream_at None seq w) i st"
    and "Hand_change op r c k \<in> set (decode_all rd None (concat (map txn_messages ts)))"
    and "\<not> lsnAfter c (cs_watermark st)"
  shows "(c \<in> set (cs_passed st) \<or> (\<exists>b\<in>set (cs_done st). ch_cursor (bf_change b) = c)) \<and>
    mset (map bf_row (cs_done st)) \<subseteq># landed (cs_events st)"
proof -
  have "c \<in> feed_cursor ` set (postgres_feed rd ts)" using assms(5) by (force simp: postgres_feed_def)
  then show ?thesis
    using pipeline_run [OF assms(4) postgres_feed_ok [OF assms(1,2)] assms(3)] assms(2,6)
    by (fastforce simp: run_ok_def accounted_def item_cursor_def lsnAfter_def)
qed

definition pg_env :: "bool list cdc_env" where
  "pg_env = (orders_env True)\<lparr>env_after := lsnAfter, env_sourceFilters := True\<rparr>"

definition pg_start :: "bool list cdc_stream" where
  "pg_start = stream_at None 0 []"

theorem postgres_to_destination_witness:
  "\<exists>b\<in>set (cs_done (finish_inflight pg_env (timer_fires pg_env (take_feed pg_env (postgres_feed t_reader two_txns ! 0) pg_start)))).
     ch_cursor (bf_change b) = ''0/30#0/20.0''"
proof -
  let ?F = "postgres_feed t_reader two_txns"
  let ?st = "finish_inflight pg_env (timer_fires pg_env (take_feed pg_env (?F ! 0) pg_start))"
  have len: "0 < length ?F"
    using arg_cong [OF two_txns_cursors, of length] by (simp add: stream_cursors_def postgres_feed_def)
  have reach: "pipeline pg_env ?F (stream_at None 0 []) (Suc 0) ?st"
    using pipeline.delivery_ends [OF pipeline.timer [OF pipeline.take_next [OF pipeline.start len]]]
    by (simp add: pg_start_def)
  have c: "Hand_change Op_insert [(''id'', JNum (Num 1))] ''0/30#0/20.0'' False \<in>
      set (decode_all t_reader None (concat (map txn_messages two_txns)))" by code_simp
  have after: "env_after pg_env = lsnAfter" and table: "reads_table pg_env"
    using orders_env_table [of True] by (simp_all add: pg_env_def reads_table_def)
  have w: "cs_watermark ?st = Some ''0/30#0/20.0''" "cs_passed ?st = []" by code_simp+
  have p: "parsePgCursor ''0/30#0/20.0'' = Some \<lparr>pos_commit = 48, pos_change = 32, pos_ordinal = 0, pos_ack = None\<rparr>"
    by code_simp
  have na: "\<not> lsnAfter ''0/30#0/20.0'' (cs_watermark ?st)" unfolding w by (simp add: lsnAfter_def p)
  from postgres_to_destination [OF two_txns_ok after table reach c na] w(2) show ?thesis by simp
qed

end
